(* ===== verification/TS_Prelude.thy ===== *)
theory TS_Prelude
  imports Main "HOL-Library.Multiset" "HOL-Library.Word"
begin

text \<open>
  Shared vocabulary of the development: Go's fixed-width signed integers written as
  \<^typ>\<open>int\<close> with an explicit wrap-around, Go's truncating division and remainder, run-time
  panics as the left summand of a sum type, and the list facts that several components use.

  \<^item> \<open>wrap32\<close> and \<open>wrap64\<close> are the conversions Go performs when a result is stored in an
    \<open>int32\<close> or an \<open>int64\<close> (two's complement).
  \<^item> \<open>go_quot\<close> and \<open>go_rem\<close> are Go's \<open>/\<close> and \<open>%\<close> on signed integers, which truncate
    towards zero, unlike \<open>div\<close> and \<open>mod\<close>.
  \<^item> A Go function that may panic has a result of type \<open>'a go\<close>: \<open>Inl p\<close> is the panic.
\<close>

named_theorems go_arith "facts about wrap-around, remainders and positions"

section \<open>Fixed-width signed integers\<close>

definition wrap32 :: "int \<Rightarrow> int" where
  "wrap32 x = (x + 2 ^ 31) mod 2 ^ 32 - 2 ^ 31"

definition wrap64 :: "int \<Rightarrow> int" where
  "wrap64 x = (x + 2 ^ 63) mod 2 ^ 64 - 2 ^ 63"

abbreviation is_int32 :: "int \<Rightarrow> bool" where
  "is_int32 x \<equiv> - (2 ^ 31) \<le> x \<and> x < 2 ^ 31"

abbreviation is_int64 :: "int \<Rightarrow> bool" where
  "is_int64 x \<equiv> - (2 ^ 63) \<le> x \<and> x < 2 ^ 63"

lemma wrap32_id [simp, go_arith]: "is_int32 x \<Longrightarrow> wrap32 x = x"
  by (simp add: wrap32_def)

lemma wrap64_id [simp, go_arith]: "is_int64 x \<Longrightarrow> wrap64 x = x"
  by (simp add: wrap64_def)

lemma is_int32_wrap32: "is_int32 (wrap32 x)"
proof -
  have "0 \<le> (x + 2 ^ 31) mod 2 ^ 32" and "(x + 2 ^ 31) mod 2 ^ 32 < 2 ^ 32"
    by simp_all
  then show ?thesis by (simp add: wrap32_def)
qed

lemma is_int64_wrap64: "is_int64 (wrap64 x)"
proof -
  have "0 \<le> (x + 2 ^ 63) mod 2 ^ 64" and "(x + 2 ^ 63) mod 2 ^ 64 < 2 ^ 64"
    by simp_all
  then show ?thesis by (simp add: wrap64_def)
qed

lemma wrap32_overflow: "wrap32 (2 ^ 31) = - (2 ^ 31)"
  by (simp add: wrap32_def)

section \<open>Truncating division\<close>

definition go_quot :: "int \<Rightarrow> int \<Rightarrow> int" where
  "go_quot a b = sgn a * sgn b * (\<bar>a\<bar> div \<bar>b\<bar>)"

definition go_rem :: "int \<Rightarrow> int \<Rightarrow> int" where
  "go_rem a b = sgn a * (\<bar>a\<bar> mod \<bar>b\<bar>)"

lemma go_quot_rem: "b \<noteq> 0 \<Longrightarrow> go_quot a b * b + go_rem a b = a"
proof -
  assume "b \<noteq> 0"
  have "sgn a * (sgn b * b * (\<bar>a\<bar> div \<bar>b\<bar>) + \<bar>a\<bar> mod \<bar>b\<bar>) = sgn a * \<bar>a\<bar>"
    by (simp add: sgn_mult_self_eq abs_sgn [symmetric] mult.commute [of "sgn b"])
  then show ?thesis
    by (simp add: go_quot_def go_rem_def algebra_simps abs_mult_sgn)
qed

lemma go_quot_nonneg [go_arith]: "0 \<le> a \<Longrightarrow> 0 < b \<Longrightarrow> go_quot a b = a div b"
  by (cases "a = 0") (auto simp: go_quot_def)

lemma go_rem_nonneg [go_arith]: "0 \<le> a \<Longrightarrow> 0 < b \<Longrightarrow> go_rem a b = a mod b"
  by (cases "a = 0") (auto simp: go_rem_def)

lemma go_rem_cong: "0 < b \<Longrightarrow> go_rem a b mod b = a mod b"
  using go_quot_rem [of b a] by (metis mod_mult_self1 add.commute less_irrefl mult.commute)

lemma go_rem_bounds: "0 < b \<Longrightarrow> - b < go_rem a b \<and> go_rem a b < b"
proof -
  assume b: "0 < b"
  then have "0 \<le> \<bar>a\<bar> mod b" and "\<bar>a\<bar> mod b < b" by simp_all
  with b show ?thesis
    by (cases a "0::int" rule: linorder_cases) (auto simp: go_rem_def)
qed

section \<open>Panics\<close>

datatype go_panic =
    IndexOutOfRange
  | SliceBoundsOutOfRange
  | MakeSliceLenOutOfRange
  | NilDereference
  | CloseOfClosedChannel
  | SendOnClosedChannel
  | IntegerDivideByZero
  | UnsafeSliceOutOfRange

type_synonym 'a go = "go_panic + 'a"

section \<open>Lists\<close>

lemma map_upt_Cons: "map f [0..<Suc m] = f 0 # map (\<lambda>i. f (Suc i)) [0..<m]"
  by (rule nth_equalityI) (auto simp: nth_Cons' simp del: upt_Suc)

lemma map_upt_snoc: "map f [0..<Suc n] = map f [0..<n] @ [f n]"
  by simp

lemma distinct_append_swap: "distinct (xs @ ys) \<longleftrightarrow> distinct (ys @ xs)"
  by auto

text \<open>Counting the elements of a list with a property when one element changes.\<close>

definition one_if :: "bool \<Rightarrow> nat" where
  "one_if b = (if b then 1 else 0)"

lemma filter_update:
  "i < length xs \<Longrightarrow> length (filter P (xs[i := y])) + one_if (P (xs ! i)) = length (filter P xs) + one_if (P y)"
proof (induction xs arbitrary: i)
  case (Cons x xs)
  then show ?case by (cases i) (auto simp: one_if_def)
qed simp

lemma at_most_one:
  assumes "length (filter P xs) \<le> 1" "i < length xs" "j < length xs" "P (xs ! i)" "P (xs ! j)"
  shows "i = j"
proof -
  have "card {k. k < length xs \<and> P (xs ! k)} \<le> 1" using assms(1) by (simp add: length_filter_conv_card)
  then show ?thesis using assms(2-5) by (auto simp: card_le_Suc0_iff_eq)
qed

lemma all_update:
  "i < length xs \<Longrightarrow> Q y \<Longrightarrow> (\<And>j. j < length xs \<Longrightarrow> j \<noteq> i \<Longrightarrow> Q (xs ! j)) \<Longrightarrow> \<forall>x \<in> set (xs[i := y]). Q x"
  by (auto simp: in_set_conv_nth nth_list_update)

lemma sum_list_change:
  fixes v :: "'a::comm_monoid_add"
  shows "i < length xs \<Longrightarrow> sum_list (xs[i := v]) + xs ! i = sum_list xs + v"
  by (induction xs arbitrary: i) (auto simp: ac_simps split: nat.split)

end
