(* ===== verification/TS_Consts.thy ===== *)
theory TS_Consts
  imports TS_Prelude
begin

text \<open>
  The constants and enumerations of \<open>src/const.go\<close> and the error values of
  \<open>src/errorx/errorx.go\<close>. Go's enumerations are plain integers with named constants, and a value
  outside the named range can be stored in them, so they are integers here too: \<open>Validate\<close> is
  what tells the named values from the others.
\<close>

named_theorems ts_const "the numeric values of the named constants"

section \<open>Errors\<close>

text \<open>
  One constructor per sentinel of \<open>errorx\<close>, then the errors the sources build on the spot with
  \<open>errors.New\<close>, then the two errors a \<open>context.Context\<close> reports.
\<close>

datatype ts_error =
    ErrBufferClose
  | ErrBufferFull
  | ErrSizeThreshold
  | ErrPercentThreshold
  | ErrTimeThreshold
  | ErrNoBuffer
  | ErrReadMode
  | ErrRead
  | ErrQueueFull
  | ErrQueueEmpty
  | ErrQueueClosed
  | ErrBufferReadOnly
  | ErrInvalidMetricsCollector
  | ErrInvalidReadMode
  | ErrInvalidLogLevel
  | CtxDeadlineExceeded
  | CtxCanceled

fun error_text :: "ts_error \<Rightarrow> string" where
  "error_text ErrBufferClose = ''buffer is closed''"
| "error_text ErrBufferFull = ''buffer is full''"
| "error_text ErrSizeThreshold = ''size threshold cannot be negative and zero''"
| "error_text ErrPercentThreshold = ''percent threshold must be between 0 and 100''"
| "error_text ErrTimeThreshold = ''time threshold cannot be negative''"
| "error_text ErrNoBuffer = ''no buffer to read''"
| "error_text ErrReadMode = ''read mode error''"
| "error_text ErrRead = ''read error''"
| "error_text ErrQueueFull = ''queue is full''"
| "error_text ErrQueueEmpty = ''queue is empty''"
| "error_text ErrQueueClosed = ''queue is closed''"
| "error_text ErrBufferReadOnly = ''buffer is read-only''"
| "error_text ErrInvalidMetricsCollector = ''invalid metrics collector''"
| "error_text ErrInvalidReadMode = ''invalid read mode''"
| "error_text ErrInvalidLogLevel = ''invalid log level''"
| "error_text CtxDeadlineExceeded = ''context deadline exceeded''"
| "error_text CtxCanceled = ''context canceled''"

section \<open>Collector types\<close>

definition PrometheusCollector :: int where [ts_const]: "PrometheusCollector = 0"
definition OpenTelemetryCollector :: int where [ts_const]: "OpenTelemetryCollector = 1"

definition Unknown :: string where "Unknown = ''unknown''"

definition CollectorType_String :: "int \<Rightarrow> string" where
  "CollectorType_String c =
     (if c = PrometheusCollector then ''Prometheus''
      else if c = OpenTelemetryCollector then ''OpenTelemetry''
      else Unknown)"

definition CollectorType_Validate :: "int \<Rightarrow> bool" where
  "CollectorType_Validate c \<longleftrightarrow> c = PrometheusCollector \<or> c = OpenTelemetryCollector"

section \<open>Metric operations and switch results\<close>

definition MetricsIncOp :: int where [ts_const]: "MetricsIncOp = 0"
definition MetricsDecOp :: int where [ts_const]: "MetricsDecOp = 1"

definition SwitchSuccess :: int where [ts_const]: "SwitchSuccess = 0"
definition SwitchFailure :: int where [ts_const]: "SwitchFailure = 1"
definition SwitchSkip :: int where [ts_const]: "SwitchSkip = 2"

definition SwitchStatus_String :: "int \<Rightarrow> string" where
  "SwitchStatus_String s =
     (if s = SwitchSuccess then ''Switch success''
      else if s = SwitchFailure then ''Switch failure''
      else if s = SwitchSkip then ''Switch skip''
      else ''unknown'')"

section \<open>Double buffer states, read modes, smart buffer states\<close>

definition WritingState :: int where [ts_const]: "WritingState = 0"
definition SwitchingState :: int where [ts_const]: "SwitchingState = 1"
definition ClosedState :: int where [ts_const]: "ClosedState = 2"

definition SafeRead :: int where [ts_const]: "SafeRead = 1"
definition ZeroCopyRead :: int where [ts_const]: "ZeroCopyRead = 2"

definition ReadMode_String :: "int \<Rightarrow> string" where
  "ReadMode_String m =
     (if m = SafeRead then ''Safe read''
      else if m = ZeroCopyRead then ''Zero-copy read''
      else ''unknown'')"

definition ReadMode_Validate :: "int \<Rightarrow> bool" where
  "ReadMode_Validate m \<longleftrightarrow> m = SafeRead \<or> m = ZeroCopyRead"

definition WriteOnly :: int where [ts_const]: "WriteOnly = 0"
definition ReadOnly :: int where [ts_const]: "ReadOnly = 1"
definition Switching :: int where [ts_const]: "Switching = 2"

section \<open>Facts\<close>

lemma collector_string_valid: "CollectorType_Validate c \<longleftrightarrow> CollectorType_String c \<noteq> Unknown"
  by (simp add: CollectorType_Validate_def CollectorType_String_def Unknown_def)

lemma read_mode_string_valid: "ReadMode_Validate m \<longleftrightarrow> ReadMode_String m \<noteq> Unknown"
  by (simp add: ReadMode_Validate_def ReadMode_String_def Unknown_def)

text \<open>
  Error values are compared by identity in Go; here two sentinels are equal exactly when their
  texts are.
\<close>

lemma error_text_inject: "error_text a = error_text b \<longleftrightarrow> a = b"
  by (cases a; cases b; simp)

end
