(* ===== verification/Fifo_Spec.thy ===== *)
theory Fifo_Spec
  imports TS_Prelude
begin

text \<open>
  The contract of a first-in first-out queue, as a locale over an abstraction to lists. The ring
  buffer of \<open>Smart_Buffer\<close> and the linked queue of \<open>Buffer_Queue\<close> implement it. \<open>ready\<close> is the
  condition under which an insertion behaves as specified (for the ring: the write index has not
  reached the largest \<open>int32\<close>). Inside the locale, one lemma is proved for every client: in any
  interleaving of insertions and removals, what comes out, followed by what is still inside, is
  what was inside at the start followed by what went in.
\<close>

datatype 'a fifo_op = Put 'a | Take

locale fifo =
  fixes put :: "'a \<Rightarrow> 'q \<Rightarrow> 'q option"
    and take_out :: "'q \<Rightarrow> ('a \<times> 'q) option"
    and items :: "'q \<Rightarrow> 'a list"
    and inv :: "'q \<Rightarrow> bool"
    and ready :: "'q \<Rightarrow> bool"
  assumes put_items: "inv q \<Longrightarrow> ready q \<Longrightarrow> put x q = Some q' \<Longrightarrow> items q' = items q @ [x]"
    and put_inv: "inv q \<Longrightarrow> ready q \<Longrightarrow> put x q = Some q' \<Longrightarrow> inv q'"
    and take_items: "inv q \<Longrightarrow> take_out q = Some (x, q') \<Longrightarrow> items q = x # items q'"
    and take_inv: "inv q \<Longrightarrow> take_out q = Some (x, q') \<Longrightarrow> inv q'"
    and take_none: "inv q \<Longrightarrow> take_out q = None \<longleftrightarrow> items q = []"
begin

text \<open>
  A run: refused insertions and removals from an empty queue are skipped, an insertion that is
  not \<open>ready\<close> ends the run with \<open>None\<close>. The result is what was accepted, what was handed out
  and the final queue.
\<close>

fun run :: "'a fifo_op list \<Rightarrow> 'q \<Rightarrow> ('a list \<times> 'a list \<times> 'q) option" where
  "run [] q = Some ([], [], q)"
| "run (Put x # ops) q =
     (if \<not> ready q then None
      else case put x q of
             None \<Rightarrow> run ops q
           | Some q' \<Rightarrow>
               (case run ops q' of None \<Rightarrow> None | Some (ins, outs, r) \<Rightarrow> Some (x # ins, outs, r)))"
| "run (Take # ops) q =
     (case take_out q of
        None \<Rightarrow> run ops q
      | Some (x, q') \<Rightarrow>
          (case run ops q' of None \<Rightarrow> None | Some (ins, outs, r) \<Rightarrow> Some (ins, x # outs, r)))"

lemma run_inv: "inv q \<Longrightarrow> run ops q = Some (ins, outs, r) \<Longrightarrow> inv r"
  by (induction ops q arbitrary: ins outs rule: run.induct)
     (force split: option.splits if_splits dest: put_inv take_inv)+

theorem run_conserves:
  "inv q \<Longrightarrow> run ops q = Some (ins, outs, r) \<Longrightarrow> items q @ ins = outs @ items r"
proof (induction ops q arbitrary: ins outs rule: run.induct)
  case (1 q)
  then show ?case by simp
next
  case (2 x ops q)
  show ?case
  proof (cases "put x q")
    case None
    with 2 show ?thesis by (auto split: if_splits)
  next
    case (Some q')
    with 2(4) obtain ins' where "ready q" "run ops q' = Some (ins', outs, r)" "ins = x # ins'"
      by (auto split: option.splits if_splits)
    with 2 Some put_items [of q x q'] put_inv [of q x q'] show ?thesis by fastforce
  qed
next
  case (3 ops q)
  show ?case
  proof (cases "take_out q")
    case None
    with 3 show ?thesis by auto
  next
    case (Some p)
    obtain x q' where p: "p = (x, q')" by (cases p)
    with Some 3(4) obtain outs' where "run ops q' = Some (ins, outs', r)" "outs = x # outs'"
      by (auto split: option.splits)
    with 3 Some p take_items [of q x q'] take_inv [of q x q'] show ?thesis by fastforce
  qed
qed

end

end
