(* ===== verification/Go_Memory.thy ===== *)
theory Go_Memory
  imports TS_Prelude
begin

text \<open>
  The part of memory the library reads and writes through \<open>unsafe.Pointer\<close>: byte arrays addressed
  by their first byte. Memory of the caller and memory the library allocates are kept apart in the
  address type; an allocation returns an address that was not used before. A slice is its data
  pointer, length and capacity, as in \<open>reflect.SliceHeader\<close>.
\<close>

type_synonym byte = "8 word"

datatype addr = NilPtr | UserMem nat | LibMem nat

record slice =
  sl_ptr :: addr
  sl_len :: int
  sl_cap :: int

record memory =
  mem_blocks :: "addr \<Rightarrow> byte list"
  mem_next :: nat

definition mem_alloc :: "nat \<Rightarrow> memory \<Rightarrow> addr \<times> memory" where
  "mem_alloc n m =
     (LibMem (mem_next m),
      m\<lparr>mem_blocks := (mem_blocks m)(LibMem (mem_next m) := replicate n 0),
        mem_next := Suc (mem_next m)\<rparr>)"

text \<open>The first \<open>n\<close> bytes at \<open>p\<close>.\<close>

definition mem_read :: "memory \<Rightarrow> addr \<Rightarrow> nat \<Rightarrow> byte list" where
  "mem_read m p n = take n (mem_blocks m p)"

text \<open>\<open>copy\<close> into the array at \<open>p\<close>.\<close>

definition mem_write :: "memory \<Rightarrow> addr \<Rightarrow> byte list \<Rightarrow> memory" where
  "mem_write m p bs =
     m\<lparr>mem_blocks := (mem_blocks m)(p := bs @ drop (length bs) (mem_blocks m p))\<rparr>"

text \<open>Address \<open>p\<close> is unused library memory.\<close>

fun unallocated :: "memory \<Rightarrow> addr \<Rightarrow> bool" where
  "unallocated m (LibMem n) = (mem_next m \<le> n)"
| "unallocated m _ = False"

lemma mem_read_write_same: "mem_read (mem_write m p bs) p (length bs) = bs"
  by (simp add: mem_read_def mem_write_def)

lemma mem_read_write_other: "q \<noteq> p \<Longrightarrow> mem_read (mem_write m p bs) q n = mem_read m q n"
  by (simp add: mem_read_def mem_write_def)

lemma mem_next_write [simp]: "mem_next (mem_write m p bs) = mem_next m"
  by (simp add: mem_write_def)

lemma mem_read_alloc: "mem_alloc k m = (p, m') \<Longrightarrow> \<not> unallocated m q \<Longrightarrow> mem_read m' q n = mem_read m q n"
  by (cases q) (auto simp: mem_alloc_def mem_read_def)

end
