(* ===== verification/Smart_Buffer.thy ===== *)
theory Smart_Buffer
  imports TS_Consts Fifo_Spec Go_Memory
begin

text \<open>
  \<open>src/core/component/smart_buffer.go\<close>: a fixed-size ring of \<open>(pointer, size)\<close> headers with a
  write index \<open>head\<close>, a read index \<open>tail\<close> (both start at -1 and are never reduced) and a count.
  This theory has the operations as one goroutine executes them when no other goroutine is inside
  the same buffer: the compare-and-swap of \<open>head\<close> or \<open>tail\<close> then succeeds at the first attempt,
  and the bounded retry loops only re-read a slot. The theory \<open>Push_Race\<close> has the same code at the
  granularity of its atomic instructions.

  The invariant \<open>sb_inv\<close> relates indices, count and capacity; \<open>sb_items\<close> reads the live window of
  the ring as a list. The ring is shown to be a bounded first-in first-out queue by interpreting
  the locale \<open>fifo\<close>.
\<close>

section \<open>Data\<close>

text \<open>A slot of the ring holds what \<open>unsafe.Pointer\<close> and \<open>int32\<close> hold in the source.\<close>

record buffer_item =
  bi_Ptr :: addr
  bi_Size :: int

record smart_buffer =
  sb_buf :: "buffer_item list"
  sb_head :: int
  sb_tail :: int
  sb_count :: int
  sb_capacity :: int
  sb_state :: int
  sb_sem_closed :: bool

definition empty_item :: buffer_item where
  "empty_item = \<lparr>bi_Ptr = NilPtr, bi_Size = 0\<rparr>"

section \<open>Operations\<close>

definition NewSmartBuffer :: "int \<Rightarrow> smart_buffer go" where
  "NewSmartBuffer capacity =
     (if capacity < 0 then Inl MakeSliceLenOutOfRange
      else Inr \<lparr>sb_buf = replicate (nat capacity) empty_item, sb_head = -1, sb_tail = -1,
                sb_count = 0, sb_capacity = capacity, sb_state = WriteOnly,
                sb_sem_closed = False\<rparr>)"

definition SetState :: "int \<Rightarrow> smart_buffer \<Rightarrow> smart_buffer" where
  "SetState st s = s\<lparr>sb_state := st\<rparr>"

definition GetState :: "smart_buffer \<Rightarrow> int" where
  "GetState s = sb_state s"

definition Len :: "smart_buffer \<Rightarrow> int" where
  "Len s = sb_count s"

definition calcPos :: "smart_buffer \<Rightarrow> int \<Rightarrow> int" where
  "calcPos s index =
     (if sb_capacity s \<le> 0 then 0
      else let pos = go_rem index (sb_capacity s);
               pos = (if pos < 0 then wrap32 (pos + sb_capacity s) else pos)
           in go_rem pos (sb_capacity s))"

text \<open>
  \<open>s.buf[pos]\<close> for reading and writing: an index outside the slice panics.
\<close>

definition slot_get :: "buffer_item list \<Rightarrow> int \<Rightarrow> buffer_item go" where
  "slot_get xs pos =
     (if 0 \<le> pos \<and> pos < int (length xs) then Inr (xs ! nat pos) else Inl IndexOutOfRange)"

definition slot_set :: "buffer_item list \<Rightarrow> int \<Rightarrow> buffer_item \<Rightarrow> buffer_item list go" where
  "slot_set xs pos x =
     (if 0 \<le> pos \<and> pos < int (length xs) then Inr (xs[nat pos := x]) else Inl IndexOutOfRange)"

definition Push :: "buffer_item \<Rightarrow> smart_buffer \<Rightarrow> (ts_error option \<times> smart_buffer) go" where
  "Push sli s =
     (if sb_state s = ReadOnly then Inr (Some ErrBufferReadOnly, s)
      else if sb_count s \<ge> sb_capacity s then
        Inr (Some ErrBufferReadOnly,
             if sb_state s = WriteOnly then s\<lparr>sb_state := ReadOnly\<rparr> else s)
      else
        let head = sb_head s;
            s1 = s\<lparr>sb_head := wrap32 (head + 1)\<rparr>
        in case slot_set (sb_buf s1) (calcPos s1 head) sli of
             Inl p \<Rightarrow> Inl p
           | Inr b \<Rightarrow> Inr (None, s1\<lparr>sb_buf := b, sb_count := wrap32 (sb_count s1 + 1)\<rparr>))"

definition Write_sb :: "buffer_item \<Rightarrow> smart_buffer \<Rightarrow> (ts_error option \<times> smart_buffer) go" where
  "Write_sb item s =
     (if sb_state s = ClosedState then Inr (Some ErrBufferClose, s) else Push item s)"

definition Pop :: "smart_buffer \<Rightarrow> ((addr \<times> int) \<times> smart_buffer) go" where
  "Pop s =
     (if sb_count s = 0 then Inr ((NilPtr, 0), s)
      else
        let tail = sb_tail s;
            s1 = s\<lparr>sb_tail := wrap32 (tail + 1)\<rparr>;
            pos = calcPos s1 tail
        in case slot_get (sb_buf s1) pos of
             Inl p \<Rightarrow> Inl p
           | Inr item \<Rightarrow>
               (case slot_set (sb_buf s1) pos empty_item of
                  Inl p \<Rightarrow> Inl p
                | Inr b \<Rightarrow> Inr ((bi_Ptr item, bi_Size item),
                                s1\<lparr>sb_buf := b, sb_count := wrap32 (sb_count s1 - 1)\<rparr>)))"

definition Reset :: "smart_buffer \<Rightarrow> smart_buffer" where
  "Reset s = s\<lparr>sb_state := WriteOnly, sb_count := 0, sb_head := -1, sb_tail := -1\<rparr>"

definition Close_sb :: "smart_buffer \<Rightarrow> smart_buffer go" where
  "Close_sb s =
     (if sb_sem_closed s then Inl CloseOfClosedChannel else Inr (s\<lparr>sb_sem_closed := True\<rparr>))"

section \<open>Invariant and abstraction\<close>

definition sb_inv :: "smart_buffer \<Rightarrow> bool" where
  "sb_inv s \<longleftrightarrow>
     0 \<le> sb_capacity s \<and> sb_capacity s < 2 ^ 31 \<and>
     length (sb_buf s) = nat (sb_capacity s) \<and>
     0 \<le> sb_count s \<and> sb_count s \<le> sb_capacity s \<and>
     -1 \<le> sb_tail s \<and> sb_head s = sb_tail s + sb_count s \<and> sb_head s < 2 ^ 31"

text \<open>The live window: the slots of the indices \<open>tail, tail + 1, \<dots>, head - 1\<close>.\<close>

definition sb_items :: "smart_buffer \<Rightarrow> buffer_item list" where
  "sb_items s =
     map (\<lambda>i. sb_buf s ! nat ((sb_tail s + int i) mod sb_capacity s)) [0..<nat (sb_count s)]"

section \<open>Positions\<close>

lemma calcPos_mod [go_arith]:
  assumes "0 < sb_capacity s" "sb_capacity s < 2 ^ 31"
  shows "calcPos s i = i mod sb_capacity s"
proof -
  let ?c = "sb_capacity s"
  let ?r = "go_rem i ?c"
  from assms have b: "- ?c < ?r" "?r < ?c" by (auto dest: go_rem_bounds [of _ i])
  define q where "q = (if ?r < 0 then ?r + ?c else ?r)"
  have "calcPos s i = go_rem q ?c"
    using assms b by (auto simp: calcPos_def Let_def q_def)
  moreover have "0 \<le> q" "q < ?c" using b by (auto simp: q_def)
  ultimately have "calcPos s i = q"
    using assms by (simp add: go_rem_nonneg)
  moreover have "q mod ?c = i mod ?c"
    using go_rem_cong [of ?c i] assms by (auto simp: q_def)
  ultimately show ?thesis
    using \<open>0 \<le> q\<close> \<open>q < ?c\<close> by simp
qed

lemma pos_in_range:
  "sb_inv s \<Longrightarrow> 0 < sb_capacity s \<Longrightarrow>
   0 \<le> i mod sb_capacity s \<and> i mod sb_capacity s < int (length (sb_buf s))"
  by (simp add: sb_inv_def)

text \<open>Two indices less than a capacity apart use different slots.\<close>

lemma pos_distinct:
  fixes i j c :: int
  assumes "0 < c" "i < j" "j < i + c"
  shows "nat (i mod c) \<noteq> nat (j mod c)"
proof
  assume "nat (i mod c) = nat (j mod c)"
  with assms(1) have "i mod c = j mod c" by (simp add: eq_nat_nat_iff)
  then have "c dvd j - i" by (simp add: mod_eq_dvd_iff dvd_diff_commute)
  with assms show False by (auto dest: zdvd_imp_le)
qed

section \<open>What each operation does\<close>

lemma NewSmartBuffer_ok:
  "0 \<le> c \<Longrightarrow> c < 2 ^ 31 \<Longrightarrow>
   \<exists>s. NewSmartBuffer c = Inr s \<and> sb_inv s \<and> sb_items s = [] \<and> sb_capacity s = c \<and>
       sb_state s = WriteOnly \<and> sb_head s = -1"
  by (simp add: NewSmartBuffer_def sb_inv_def sb_items_def)

lemma sb_items_length: "sb_inv s \<Longrightarrow> int (length (sb_items s)) = sb_count s"
  by (simp add: sb_items_def sb_inv_def)

lemma sb_items_empty_iff: "sb_inv s \<Longrightarrow> sb_items s = [] \<longleftrightarrow> sb_count s = 0"
  using sb_items_length [of s] by auto

lemma Push_refused:
  assumes "sb_inv s" "sb_state s = ReadOnly \<or> sb_count s = sb_capacity s"
  shows "Push x s =
    Inr (Some ErrBufferReadOnly, if sb_state s = WriteOnly then s\<lparr>sb_state := ReadOnly\<rparr> else s)"
  using assms by (auto simp: Push_def sb_inv_def WriteOnly_def ReadOnly_def)

text \<open>The successor state of an accepted push, written without panics and wrap-around.\<close>

definition pushed :: "buffer_item \<Rightarrow> smart_buffer \<Rightarrow> smart_buffer" where
  "pushed x s = s\<lparr>sb_head := sb_head s + 1,
     sb_buf := (sb_buf s)[nat (sb_head s mod sb_capacity s) := x], sb_count := sb_count s + 1\<rparr>"

definition popped :: "smart_buffer \<Rightarrow> smart_buffer" where
  "popped s = s\<lparr>sb_tail := sb_tail s + 1,
     sb_buf := (sb_buf s)[nat (sb_tail s mod sb_capacity s) := empty_item],
     sb_count := sb_count s - 1\<rparr>"

lemma Push_accepted:
  assumes "sb_inv s" "sb_state s \<noteq> ReadOnly" "sb_count s < sb_capacity s" "sb_head s < 2 ^ 31 - 1"
  shows "Push x s = Inr (None, pushed x s)"
proof -
  have c: "0 < sb_capacity s" "sb_capacity s < 2 ^ 31" using assms by (auto simp: sb_inv_def)
  have "wrap32 (sb_head s + 1) = sb_head s + 1" "wrap32 (sb_count s + 1) = sb_count s + 1"
    using assms by (auto simp: sb_inv_def)
  then show ?thesis
    using assms c pos_in_range [of s "sb_head s"]
    by (simp add: Push_def Let_def calcPos_mod slot_set_def pushed_def)
qed

lemma Pop_nonempty:
  assumes "sb_inv s" "sb_count s \<noteq> 0"
  shows "Pop s = Inr ((bi_Ptr (hd (sb_items s)), bi_Size (hd (sb_items s))), popped s)"
proof -
  have c: "0 < sb_capacity s" "sb_capacity s < 2 ^ 31" and n: "0 < nat (sb_count s)"
    using assms by (auto simp: sb_inv_def)
  have "wrap32 (sb_tail s + 1) = sb_tail s + 1" "wrap32 (sb_count s - 1) = sb_count s - 1"
    using assms by (auto simp: sb_inv_def)
  moreover have "hd (sb_items s) = sb_buf s ! nat (sb_tail s mod sb_capacity s)"
    using n by (simp add: sb_items_def hd_map)
  ultimately show ?thesis
    using assms c pos_in_range [of s "sb_tail s"]
    by (simp add: Pop_def Let_def calcPos_mod slot_get_def slot_set_def popped_def)
qed

lemma Pop_empty: "sb_count s = 0 \<Longrightarrow> Pop s = Inr ((NilPtr, 0), s)"
  by (simp add: Pop_def)

lemma sb_inv_pushed:
  "sb_inv s \<Longrightarrow> sb_count s < sb_capacity s \<Longrightarrow> sb_head s < 2 ^ 31 - 1 \<Longrightarrow> sb_inv (pushed x s)"
  by (auto simp: sb_inv_def pushed_def)

lemma sb_inv_popped: "sb_inv s \<Longrightarrow> sb_count s \<noteq> 0 \<Longrightarrow> sb_inv (popped s)"
  by (auto simp: sb_inv_def popped_def)

lemma sb_items_pushed:
  assumes "sb_inv s" "sb_count s < sb_capacity s"
  shows "sb_items (pushed x s) = sb_items s @ [x]"
proof -
  let ?c = "sb_capacity s" and ?n = "nat (sb_count s)" and ?t = "sb_tail s"
  have c: "0 < ?c" and n: "0 \<le> sb_count s" and h: "sb_head s = ?t + sb_count s"
    using assms by (auto simp: sb_inv_def)
  have len: "nat (sb_head s mod ?c) < length (sb_buf s)"
    using pos_in_range [OF assms(1) c, of "sb_head s"] by (simp add: nat_less_iff)
  have old: "nat ((?t + int i) mod ?c) \<noteq> nat (sb_head s mod ?c)" if "i < ?n" for i
    using pos_distinct [of ?c "?t + int i" "sb_head s"] assms(2) c n that h by linarith
  have "nat (sb_count s + 1) = Suc ?n" using n by simp
  then show ?thesis
    using old [THEN not_sym] len h n by (simp add: sb_items_def pushed_def)
qed

lemma sb_items_popped:
  assumes "sb_inv s" "sb_count s \<noteq> 0"
  shows "sb_items s = hd (sb_items s) # sb_items (popped s)"
proof -
  let ?c = "sb_capacity s" and ?t = "sb_tail s"
  obtain m where m: "nat (sb_count s) = Suc m" using assms by (cases "nat (sb_count s)") (auto simp: sb_inv_def)
  have c: "0 < ?c" and mc: "int m < ?c" using assms m by (auto simp: sb_inv_def)
  have old: "nat ((?t + 1 + int i) mod ?c) \<noteq> nat (?t mod ?c)" if "i < m" for i
    using pos_distinct [of ?c ?t "?t + 1 + int i"] mc c that by simp
  have "nat (sb_count s - 1) = m" using m by simp
  then have "sb_items (popped s) = map (\<lambda>i. sb_buf s ! nat ((?t + 1 + int i) mod ?c)) [0..<m]"
    using old [THEN not_sym] by (simp add: sb_items_def popped_def)
  moreover have "sb_items s = sb_buf s ! nat (?t mod ?c) #
      map (\<lambda>i. sb_buf s ! nat ((?t + 1 + int i) mod ?c)) [0..<m]"
    unfolding sb_items_def m map_upt_Cons by (simp add: ac_simps)
  ultimately show ?thesis by simp
qed

lemma Reset_ok:
  "sb_inv s \<Longrightarrow> sb_inv (Reset s) \<and> sb_items (Reset s) = [] \<and> sb_state (Reset s) = WriteOnly \<and>
     sb_capacity (Reset s) = sb_capacity s \<and> sb_head (Reset s) = -1"
  by (auto simp: sb_inv_def Reset_def sb_items_def)

lemmas push_pop_facts =
  Push_accepted Pop_nonempty sb_inv_pushed sb_inv_popped sb_items_pushed sb_items_popped

section \<open>The ring is a first-in first-out queue\<close>

definition sb_put :: "buffer_item \<Rightarrow> smart_buffer \<Rightarrow> smart_buffer option" where
  "sb_put x s = (case Push x s of Inr (None, s') \<Rightarrow> Some s' | _ \<Rightarrow> None)"

definition sb_take :: "smart_buffer \<Rightarrow> (buffer_item \<times> smart_buffer) option" where
  "sb_take s =
     (if sb_count s = 0 then None
      else case Pop s of
             Inr ((p, n), s') \<Rightarrow> Some (\<lparr>bi_Ptr = p, bi_Size = n\<rparr>, s')
           | Inl _ \<Rightarrow> None)"

definition sb_ready :: "smart_buffer \<Rightarrow> bool" where
  "sb_ready s \<longleftrightarrow> sb_head s < 2 ^ 31 - 1"

lemma sb_put_Some:
  assumes "sb_inv s" "sb_ready s" "sb_put x s = Some s'"
  shows "s' = pushed x s \<and> sb_count s < sb_capacity s \<and> sb_state s \<noteq> ReadOnly"
proof -
  have ok: "sb_state s \<noteq> ReadOnly" "sb_count s < sb_capacity s"
    using assms(3) by (auto simp: sb_put_def Push_def split: if_splits)
  then have "Push x s = Inr (None, pushed x s)"
    using assms by (intro Push_accepted) (auto simp: sb_ready_def)
  with assms(3) ok show ?thesis by (simp add: sb_put_def)
qed

lemma sb_take_Some:
  assumes "sb_inv s" "sb_take s = Some (x, s')"
  shows "s' = popped s \<and> x = hd (sb_items s) \<and> sb_count s \<noteq> 0"
  using assms by (auto simp: sb_take_def Pop_nonempty split: if_splits)

interpretation ring: fifo sb_put sb_take sb_items sb_inv sb_ready
proof unfold_locales
  fix s s' x
  assume s: "sb_inv s" "sb_ready s" "sb_put x s = Some s'"
  show "sb_items s' = sb_items s @ [x]"
    using sb_put_Some [OF s] sb_items_pushed [OF s(1)] by simp
  show "sb_inv s'"
    using sb_put_Some [OF s] sb_inv_pushed [OF s(1)] s(2) by (simp add: sb_ready_def)
next
  fix s s' x
  assume s: "sb_inv s" "sb_take s = Some (x, s')"
  show "sb_items s = x # sb_items s'"
    using sb_take_Some [OF s] sb_items_popped [OF s(1)] by simp
  show "sb_inv s'"
    using sb_take_Some [OF s] sb_inv_popped [OF s(1)] by simp
next
  fix s
  assume s: "sb_inv s"
  then show "sb_take s = None \<longleftrightarrow> sb_items s = []"
    by (auto simp: sb_take_def sb_items_empty_iff Pop_nonempty)
qed

section \<open>Properties\<close>

lemma sb_put_head:
  "sb_inv s \<Longrightarrow> sb_ready s \<Longrightarrow> sb_put x s = Some s' \<Longrightarrow> sb_head s' = sb_head s + 1 \<and> sb_capacity s' = sb_capacity s"
  by (auto simp: pushed_def dest: sb_put_Some)

lemma sb_take_head:
  "sb_inv s \<Longrightarrow> sb_take s = Some (x, s') \<Longrightarrow> sb_head s' = sb_head s \<and> sb_capacity s' = sb_capacity s"
  by (auto simp: popped_def dest!: sb_take_Some)

text \<open>A run of fewer than \<open>2\<^sup>3\<^sup>1 - 1 - head\<close> operations never reaches the end of the index range.\<close>

lemma ring_run_total:
  assumes "sb_inv s" "sb_head s + int (length ops) \<le> 2 ^ 31 - 1"
  shows "\<exists>ins outs r. ring.run ops s = Some (ins, outs, r) \<and> sb_capacity r = sb_capacity s"
  using assms
proof (induction ops s rule: ring.run.induct)
  case (1 q)
  then show ?case by simp
next
  case (2 x ops q)
  have rdy: "sb_ready q" using 2(4) by (simp add: sb_ready_def)
  show ?case
  proof (cases "sb_put x q")
    case None
    then show ?thesis using 2(1) 2(3,4) rdy by simp
  next
    case (Some q')
    then show ?thesis
      using 2(2) [OF _ Some] 2(3,4) rdy sb_put_head [OF 2(3) rdy Some] ring.put_inv [OF 2(3) rdy Some] by force
  qed
next
  case (3 ops q)
  show ?case
  proof (cases "sb_take q")
    case None
    then show ?thesis using 3 by simp
  next
    case (Some p)
    obtain x q' where p: "p = (x, q')" by fastforce
    then show ?thesis
      using 3(2) [OF Some p [symmetric]] 3(3,4) Some sb_take_head [of q x q'] ring.take_inv [of q x q'] by force
  qed
qed

text \<open>
  C14: a ring of any capacity, used by one goroutine at a time, is a bounded first-in first-out queue:
  through any sequence of fewer than \<open>2\<^sup>3\<^sup>1\<close> pushes and pops, what was accepted is what was popped
  followed by what is inside, and never more items are inside than the capacity.
\<close>

theorem ring_is_bounded_fifo:
  assumes "0 \<le> c" "c < 2 ^ 31" "NewSmartBuffer c = Inr s" "int (length ops) < 2 ^ 31"
  shows "\<exists>ins outs r. ring.run ops s = Some (ins, outs, r) \<and> ins = outs @ sb_items r \<and>
           int (length (sb_items r)) \<le> c \<and> Len r = int (length ins) - int (length outs)"
proof -
  have s: "sb_inv s" "sb_items s = []" "sb_head s = -1" "sb_capacity s = c"
    using NewSmartBuffer_ok [OF assms(1,2)] assms(3) by auto
  then obtain ins outs r where r: "ring.run ops s = Some (ins, outs, r)" "sb_capacity r = c"
    using ring_run_total [of s ops] assms(4) by auto
  have inv: "sb_inv r" and eq: "ins = outs @ sb_items r"
    using ring.run_inv [OF s(1) r(1)] ring.run_conserves [OF s(1) r(1)] s(2) by auto
  have "int (length (sb_items r)) \<le> c" using sb_items_length [OF inv] inv r(2) by (simp add: sb_inv_def)
  moreover have "Len r = int (length (sb_items r))" using sb_items_length [OF inv] by (simp add: Len_def)
  ultimately show ?thesis using r(1) eq by auto
qed

theorem ring_is_bounded_fifo_witness:
  "\<exists>s ins outs r. NewSmartBuffer 2 = Inr s \<and>
     ring.run [Put \<lparr>bi_Ptr = UserMem 1, bi_Size = 5\<rparr>, Put \<lparr>bi_Ptr = UserMem 2, bi_Size = 6\<rparr>, Take] s =
       Some (ins, outs, r) \<and> ins = outs @ sb_items r"
proof -
  obtain s where s: "NewSmartBuffer 2 = Inr s" using NewSmartBuffer_ok [of 2] by auto
  have "\<exists>ins outs r. ring.run [Put \<lparr>bi_Ptr = UserMem 1, bi_Size = 5\<rparr>,
      Put \<lparr>bi_Ptr = UserMem 2, bi_Size = 6\<rparr>, Take] s = Some (ins, outs, r) \<and> ins = outs @ sb_items r \<and>
      int (length (sb_items r)) \<le> 2 \<and> Len r = int (length ins) - int (length outs)"
    by (rule ring_is_bounded_fifo [OF _ _ s]) simp_all
  with s show ?thesis by blast
qed

text \<open>
  C19: the outcome of a push is decided by state and count alone. It is accepted exactly when the
  buffer is not read-only and not full; then the item is the newest. Otherwise the caller gets
  \<open>ErrBufferReadOnly\<close>, nothing is stored and a full writable buffer becomes read-only.
\<close>

theorem push_outcome:
  assumes "sb_inv s" "sb_head s < 2 ^ 31 - 1"
  shows "\<exists>err s'. Push x s = Inr (err, s') \<and> sb_inv s' \<and>
    (if sb_state s \<noteq> ReadOnly \<and> Len s < sb_capacity s
     then err = None \<and> sb_items s' = sb_items s @ [x] \<and> GetState s' = GetState s
     else err = Some ErrBufferReadOnly \<and> sb_items s' = sb_items s \<and>
          (GetState s = WriteOnly \<longrightarrow> GetState s' = ReadOnly))"
proof (cases "sb_state s \<noteq> ReadOnly \<and> Len s < sb_capacity s")
  case True
  then have "Push x s = Inr (None, pushed x s)" using assms by (intro Push_accepted) (auto simp: Len_def)
  then show ?thesis
    using True assms sb_items_pushed [of s x] sb_inv_pushed [of s x] by (auto simp: Len_def GetState_def pushed_def)
next
  case False
  then have "sb_state s = ReadOnly \<or> sb_count s = sb_capacity s"
    using assms(1) by (auto simp: Len_def sb_inv_def)
  then show ?thesis
    using False Push_refused [OF assms(1), of x] assms(1)
    by (auto simp: GetState_def sb_inv_def sb_items_def)
qed

theorem push_outcome_witness:
  "\<exists>s err s'. NewSmartBuffer 0 = Inr s \<and> Push \<lparr>bi_Ptr = UserMem 1, bi_Size = 5\<rparr> s = Inr (err, s') \<and>
     err = Some ErrBufferReadOnly \<and> GetState s' = ReadOnly"
proof -
  obtain s where s: "NewSmartBuffer 0 = Inr s" "sb_inv s" "sb_capacity s = 0" "sb_state s = WriteOnly"
      "sb_head s = -1" "sb_items s = []"
    using NewSmartBuffer_ok [of 0] by auto
  have "\<not> Len s < sb_capacity s" using s(2,3) by (simp add: Len_def sb_inv_def)
  then show ?thesis
    using push_outcome [OF s(2), of "\<lparr>bi_Ptr = UserMem 1, bi_Size = 5\<rparr>"] s by (auto simp: GetState_def)
qed

text \<open>
  The indices are \<open>int32\<close> values that are never reduced, and where they overflow the slot jumps
  unless the capacity divides \<open>2\<^sup>3\<^sup>2\<close>: an empty ring of capacity 3 whose indices stand at
  \<open>2\<^sup>3\<^sup>1 - 1\<close> accepts two items and hands out the second one first.
\<close>

theorem index_overflow_breaks_fifo:
  "let s = \<lparr>sb_buf = [empty_item, empty_item, empty_item], sb_head = 2 ^ 31 - 1, sb_tail = 2 ^ 31 - 1,
            sb_count = 0, sb_capacity = 3, sb_state = WriteOnly, sb_sem_closed = False\<rparr>;
       a = \<lparr>bi_Ptr = UserMem 1, bi_Size = 1\<rparr>; b = \<lparr>bi_Ptr = UserMem 2, bi_Size = 2\<rparr>
   in sb_inv s \<and>
      (case Push a s of
         Inr (None, s1) \<Rightarrow>
           (case Push b s1 of
              Inr (None, s2) \<Rightarrow> (case Pop s2 of Inr (x, s3) \<Rightarrow> x = (UserMem 2, 2) | _ \<Rightarrow> False)
            | _ \<Rightarrow> False)
       | _ \<Rightarrow> False)"
  by code_simp

end
