(* ===== verification/Prio_Spec.thy ===== *)
theory Prio_Spec
  imports TS_Prelude
begin

text \<open>
  The contract of a priority queue of key-value pairs, as a locale over an abstraction to
  multisets. \<open>Min_Heap\<close> implements it; \<open>Double_Buffer\<close> relies on it to pick switched-out buffers.
  Inside the locale: repeated picking returns everything, in key order, and the least key is picked
  first even when it is pushed back in between.
\<close>

locale prio_queue =
  fixes push :: "'k::linorder \<times> 'v \<Rightarrow> 'q \<Rightarrow> 'q"
    and pick :: "'q \<Rightarrow> (('k \<times> 'v) \<times> 'q) option"
    and elems :: "'q \<Rightarrow> ('k \<times> 'v) multiset"
    and inv :: "'q \<Rightarrow> bool"
  assumes push_elems: "inv q \<Longrightarrow> elems (push x q) = add_mset x (elems q)"
    and push_inv: "inv q \<Longrightarrow> inv (push x q)"
    and pick_elems: "inv q \<Longrightarrow> pick q = Some (x, q') \<Longrightarrow> elems q = add_mset x (elems q')"
    and pick_inv: "inv q \<Longrightarrow> pick q = Some (x, q') \<Longrightarrow> inv q'"
    and pick_min: "inv q \<Longrightarrow> pick q = Some (x, q') \<Longrightarrow> y \<in># elems q \<Longrightarrow> fst x \<le> fst y"
    and pick_none: "inv q \<Longrightarrow> pick q = None \<longleftrightarrow> elems q = {#}"
begin

fun drain :: "nat \<Rightarrow> 'q \<Rightarrow> ('k \<times> 'v) list" where
  "drain 0 q = []"
| "drain (Suc n) q = (case pick q of None \<Rightarrow> [] | Some (x, q') \<Rightarrow> x # drain n q')"

lemma drain_mset: "inv q \<Longrightarrow> size (elems q) \<le> n \<Longrightarrow> mset (drain n q) = elems q"
proof (induction n arbitrary: q)
  case 0
  then show ?case by simp
next
  case (Suc n)
  then show ?case
    using pick_none [of q] pick_elems [of q] pick_inv [of q]
    by (cases "pick q") fastforce+
qed

theorem drain_sorted: "inv q \<Longrightarrow> size (elems q) \<le> n \<Longrightarrow> sorted (map fst (drain n q))"
proof (induction n arbitrary: q)
  case 0
  then show ?case by simp
next
  case (Suc n)
  show ?case
  proof (cases "pick q")
    case None
    then show ?thesis by simp
  next
    case (Some p)
    obtain x q' where p: "p = (x, q')" by (cases p)
    note pq = Suc.prems(1) Some [unfolded p]
    have inv': "inv q'" and el: "elems q = add_mset x (elems q')"
      using pick_inv [OF pq] pick_elems [OF pq] by auto
    then have sz: "size (elems q') \<le> n" using Suc.prems(2) by simp
    have "set (drain n q') = set_mset (elems q')"
      using drain_mset [OF inv' sz] by (metis set_mset_mset)
    then have "\<forall>y \<in> set (drain n q'). fst x \<le> fst y"
      using pick_min [OF pq] el by auto
    then show ?thesis using Suc.IH [OF inv' sz] Some p by simp
  qed
qed

lemma pick_unique_min:
  assumes "inv q" "x \<in># elems q" "\<And>y. y \<in># elems q \<Longrightarrow> y \<noteq> x \<Longrightarrow> fst x < fst y"
  shows "\<exists>q'. pick q = Some (x, q')"
proof (cases "pick q")
  case None
  with pick_none [OF assms(1)] assms(2) show ?thesis by simp
next
  case (Some p)
  obtain y q' where p: "p = (y, q')" by (cases p)
  have "y \<in># elems q" using pick_elems [OF assms(1) Some [unfolded p]] by simp
  moreover have "fst y \<le> fst x" using pick_min [OF assms(1) Some [unfolded p] assms(2)] .
  ultimately have "y = x" using assms(3) [of y] by (cases "y = x") auto
  with Some p show ?thesis by simp
qed

text \<open>Picking an element that is not wanted yet and pushing it back changes nothing observable.\<close>

lemma pick_push_back:
  assumes "inv q" "pick q = Some (x, q')"
  shows "inv (push x q') \<and> elems (push x q') = elems q"
  using assms pick_inv pick_elems push_inv push_elems by auto

end

end
