(* ===== verification/Min_Heap.thy ===== *)
theory Min_Heap
  imports TS_Consts Prio_Spec
begin

text \<open>
  \<open>src/core/min_heap.go\<close>: the heap of switched-out buffers ordered by sequence number, with the
  parts of the standard package \<open>container/heap\<close> it calls (\<open>Push\<close>, \<open>Pop\<close>, \<open>up\<close>, \<open>down\<close>).
  A heap is the list of its items in array order; the field \<open>index\<close>, which the items carry and
  \<open>Swap\<close>, \<open>Push\<close> and \<open>Pop\<close> maintain, is part of the model. Indices are natural numbers: the
  algorithms only form indices below the length, which fits an \<open>int\<close>.

  Shown: the heap order and the index field are preserved, no element is lost or duplicated, and
  \<open>Pick\<close> returns an item of least sequence number (interpretation of \<open>prio_queue\<close>).
\<close>

section \<open>Data and the sort interface\<close>

record 'b min_heap_item =
  mhi_sequence :: int
  mhi_buf :: 'b
  mhi_index :: int

type_synonym 'b min_heap = "'b min_heap_item list"

definition MinHeap_Len :: "'b min_heap \<Rightarrow> int" where
  "MinHeap_Len m = int (length m)"

definition MinHeap_Less :: "'b min_heap \<Rightarrow> nat \<Rightarrow> nat \<Rightarrow> bool" where
  "MinHeap_Less m i j \<longleftrightarrow> mhi_sequence (m ! i) < mhi_sequence (m ! j)"

definition MinHeap_Swap :: "'b min_heap \<Rightarrow> nat \<Rightarrow> nat \<Rightarrow> 'b min_heap" where
  "MinHeap_Swap m i j =
     (let m1 = m[i := m ! j, j := m ! i];
          m2 = m1[i := (m1 ! i)\<lparr>mhi_index := int i\<rparr>]
      in m2[j := (m2 ! j)\<lparr>mhi_index := int j\<rparr>])"

definition MinHeap_Push :: "'b min_heap \<Rightarrow> 'b min_heap_item \<Rightarrow> 'b min_heap" where
  "MinHeap_Push m item = m @ [item\<lparr>mhi_index := int (length m)\<rparr>]"

definition MinHeap_Pop :: "'b min_heap \<Rightarrow> ('b min_heap_item \<times> 'b min_heap) go" where
  "MinHeap_Pop old =
     (if old = [] then Inl IndexOutOfRange
      else Inr ((last old)\<lparr>mhi_index := -1\<rparr>, butlast old))"

section \<open>The algorithms of \<open>container/heap\<close>\<close>

function heap_up :: "'b min_heap \<Rightarrow> nat \<Rightarrow> 'b min_heap" where
  "heap_up m j =
     (let i = (j - 1) div 2
      in if i = j \<or> \<not> MinHeap_Less m j i then m else heap_up (MinHeap_Swap m i j) i)"
  by pat_completeness auto
termination
  by (relation "measure snd") auto

function heap_down :: "'b min_heap \<Rightarrow> nat \<Rightarrow> nat \<Rightarrow> 'b min_heap" where
  "heap_down m i n =
     (let j1 = 2 * i + 1
      in if j1 \<ge> n then m
         else let j = (if j1 + 1 < n \<and> MinHeap_Less m (j1 + 1) j1 then j1 + 1 else j1)
              in if \<not> MinHeap_Less m j i then m else heap_down (MinHeap_Swap m i j) j n)"
  by pat_completeness auto
termination
  by (relation "measure (\<lambda>(m, i, n). n - i)") (auto simp: Let_def split: if_splits)

declare heap_up.simps [simp del] heap_down.simps [simp del]

definition heap_Push :: "'b min_heap \<Rightarrow> 'b min_heap_item \<Rightarrow> 'b min_heap" where
  "heap_Push m x = heap_up (MinHeap_Push m x) (length (MinHeap_Push m x) - 1)"

definition heap_Pop :: "'b min_heap \<Rightarrow> ('b min_heap_item \<times> 'b min_heap) go" where
  "heap_Pop m = (let n = length m - 1 in MinHeap_Pop (heap_down (MinHeap_Swap m 0 n) 0 n))"

section \<open>The locked wrapper\<close>

definition NewWrapHeap :: "'b min_heap" where
  "NewWrapHeap = []"

definition WrapHeap_Len :: "'b min_heap \<Rightarrow> int" where
  "WrapHeap_Len h = MinHeap_Len h"

definition WrapHeap_Push :: "'b min_heap_item \<Rightarrow> 'b min_heap \<Rightarrow> 'b min_heap" where
  "WrapHeap_Push item h = heap_Push h item"

definition WrapHeap_Pick :: "'b min_heap \<Rightarrow> ('b min_heap_item option \<times> 'b min_heap) go" where
  "WrapHeap_Pick h =
     (if MinHeap_Len h = 0 then Inr (None, h)
      else case heap_Pop h of
             Inl p \<Rightarrow> Inl p
           | Inr (item, h') \<Rightarrow> Inr (Some item, h'))"

definition WrapHeap_PeekFirst :: "'b min_heap \<Rightarrow> 'b min_heap_item go" where
  "WrapHeap_PeekFirst h = (case h of [] \<Rightarrow> Inl IndexOutOfRange | x # _ \<Rightarrow> Inr x)"

section \<open>Heap order, index field, contents\<close>

abbreviation seq_at :: "'b min_heap \<Rightarrow> nat \<Rightarrow> int" where
  "seq_at m i \<equiv> mhi_sequence (m ! i)"

definition parent :: "nat \<Rightarrow> nat" where
  "parent i = (i - 1) div 2"

definition heap_ordered :: "'b min_heap \<Rightarrow> nat \<Rightarrow> bool" where
  "heap_ordered m n \<longleftrightarrow> (\<forall>c < n. 0 < c \<longrightarrow> seq_at m (parent c) \<le> seq_at m c)"

definition indexed :: "'b min_heap \<Rightarrow> bool" where
  "indexed m \<longleftrightarrow> (\<forall>i < length m. mhi_index (m ! i) = int i)"

definition mh_inv :: "'b min_heap \<Rightarrow> bool" where
  "mh_inv m \<longleftrightarrow> heap_ordered m (length m) \<and> indexed m"

definition entry :: "'b min_heap_item \<Rightarrow> int \<times> 'b" where
  "entry x = (mhi_sequence x, mhi_buf x)"

definition mh_elems :: "'b min_heap \<Rightarrow> (int \<times> 'b) multiset" where
  "mh_elems m = mset (map entry m)"

lemma parent_less [simp]: "0 < i \<Longrightarrow> parent i < i"
  by (auto simp: parent_def)

lemma parent_bound [simp]: "i < n \<Longrightarrow> parent i < n"
  by (auto simp: parent_def)

lemma parent_fix [simp]: "parent i = i \<longleftrightarrow> i = 0"
  by (auto simp: parent_def)

lemma parent_eq_iff: "0 < c \<Longrightarrow> parent c = i \<longleftrightarrow> c = 2 * i + 1 \<or> c = 2 * i + 2"
  by (auto simp: parent_def)

lemma heap_up_unfold:
  "heap_up m j =
     (if parent j = j \<or> \<not> MinHeap_Less m j (parent j) then m
      else heap_up (MinHeap_Swap m (parent j) j) (parent j))"
  unfolding parent_def by (subst heap_up.simps) (simp add: Let_def)

section \<open>Swap\<close>

lemma length_Swap [simp]: "length (MinHeap_Swap m i j) = length m"
  by (simp add: MinHeap_Swap_def Let_def)

lemma seq_Swap:
  "i < length m \<Longrightarrow> j < length m \<Longrightarrow> k < length m \<Longrightarrow>
   seq_at (MinHeap_Swap m i j) k =
     (if k = i then seq_at m j else if k = j then seq_at m i else seq_at m k)"
  by (auto simp: MinHeap_Swap_def Let_def nth_list_update)

lemma indexed_Swap: "indexed m \<Longrightarrow> i < length m \<Longrightarrow> j < length m \<Longrightarrow> indexed (MinHeap_Swap m i j)"
  by (auto simp: indexed_def MinHeap_Swap_def Let_def nth_list_update)

lemma entry_index [simp]: "entry (x\<lparr>mhi_index := k\<rparr>) = entry x"
  by (simp add: entry_def)

lemma map_entry_Swap:
  assumes "i < length m" "j < length m"
  shows "map entry (MinHeap_Swap m i j) = (map entry m)[i := map entry m ! j, j := map entry m ! i]"
  using assms by (auto simp: MinHeap_Swap_def Let_def map_update list_update_overwrite
      nth_list_update intro!: nth_equalityI)

lemma elems_Swap: "i < length m \<Longrightarrow> j < length m \<Longrightarrow> mh_elems (MinHeap_Swap m i j) = mh_elems m"
  using mset_swap [of j "map entry m" i] by (simp add: mh_elems_def map_entry_Swap)

section \<open>Sifting up\<close>

text \<open>The heap order holds except between \<open>j\<close> and its parent.\<close>

definition up_defect :: "'b min_heap \<Rightarrow> nat \<Rightarrow> bool" where
  "up_defect m j \<longleftrightarrow> j < length m \<and>
     (\<forall>c < length m. 0 < c \<longrightarrow> c \<noteq> j \<longrightarrow> seq_at m (parent c) \<le> seq_at m c) \<and>
     (0 < j \<longrightarrow> (\<forall>c < length m. 0 < c \<longrightarrow> parent c = j \<longrightarrow> seq_at m (parent j) \<le> seq_at m c))"

lemma up_defect_done:
  "up_defect m j \<Longrightarrow> parent j = j \<or> seq_at m (parent j) \<le> seq_at m j \<Longrightarrow> heap_ordered m (length m)"
  by (auto simp: up_defect_def heap_ordered_def)

lemma up_defect_step:
  assumes d: "up_defect m j" and j: "parent j \<noteq> j" and lt: "seq_at m j < seq_at m (parent j)"
  shows "up_defect (MinHeap_Swap m (parent j) j) (parent j)"
proof -
  let ?p = "parent j" and ?m = "MinHeap_Swap m (parent j) j"
  have bounds: "j < length m" "?p < length m" "0 < j" "?p < j"
    using d j by (auto simp: up_defect_def)
  have seq: "seq_at ?m k = (if k = ?p then seq_at m j else if k = j then seq_at m ?p else seq_at m k)"
    if "k < length m" for k
    using seq_Swap [OF bounds(2,1) that] .
  have order: "seq_at m (parent c) \<le> seq_at m c" if "c < length m" "0 < c" "c \<noteq> j" for c
    using d that by (auto simp: up_defect_def)
  have kids: "seq_at m ?p \<le> seq_at m c" if "c < length m" "0 < c" "parent c = j" for c
    using d that bounds by (auto simp: up_defect_def)
  have "seq_at ?m (parent c) \<le> seq_at ?m c" if c: "c < length m" "0 < c" "c \<noteq> ?p" for c
  proof -
    have "parent c < length m" using c parent_less [of c] by linarith
    then show ?thesis
      using c order [of c] kids [of c] lt bounds seq [of c] seq [of "parent c"] by auto
  qed
  moreover have "seq_at ?m (parent ?p) \<le> seq_at ?m c"
    if p: "0 < ?p" and c: "c < length m" "0 < c" "parent c = ?p" for c
  proof -
    have "parent ?p < ?p" using p by simp
    then have "parent ?p \<noteq> j" using bounds by linarith
    moreover have "parent ?p < length m" "parent ?p \<noteq> ?p" "c \<noteq> ?p"
      using p c bounds by auto
    ultimately have "parent ?p < length m" "parent ?p \<noteq> ?p" "parent ?p \<noteq> j" "c \<noteq> ?p" by auto
    then show ?thesis
      using p c order [of ?p] order [of c] bounds seq [of c] seq [of "parent ?p"] by auto
  qed
  ultimately show ?thesis using bounds by (simp add: up_defect_def)
qed

lemma heap_up_keeps:
  "j < length m \<Longrightarrow> length (heap_up m j) = length m \<and> mh_elems (heap_up m j) = mh_elems m \<and>
     (indexed m \<longrightarrow> indexed (heap_up m j))"
proof (induction m j rule: heap_up.induct [folded parent_def])
  case (1 m j)
  show ?case
  proof (cases "parent j = j \<or> \<not> MinHeap_Less m j (parent j)")
    case True
    then show ?thesis by (auto simp: heap_up_unfold [of m j])
  next
    case False
    then show ?thesis
      using 1 by (auto simp: heap_up_unfold [of m j] elems_Swap indexed_Swap)
  qed
qed

lemma heap_up_ordered: "up_defect m j \<Longrightarrow> heap_ordered (heap_up m j) (length m)"
proof (induction m j rule: heap_up.induct [folded parent_def])
  case (1 m j)
  show ?case
  proof (cases "parent j = j \<or> \<not> MinHeap_Less m j (parent j)")
    case True
    then show ?thesis
      using up_defect_done [OF 1(2)] by (auto simp: heap_up_unfold [of m j] MinHeap_Less_def)
  next
    case False
    then have "up_defect (MinHeap_Swap m (parent j) j) (parent j)"
      using up_defect_step [OF 1(2)] by (simp add: MinHeap_Less_def)
    then show ?thesis
      using 1(1) [OF refl False] False by (auto simp: heap_up_unfold [of m j])
  qed
qed

section \<open>Sifting down\<close>

text \<open>
  Among the first \<open>n\<close> items the heap order holds except between \<open>i\<close> and its children.
\<close>

definition down_defect :: "'b min_heap \<Rightarrow> nat \<Rightarrow> nat \<Rightarrow> bool" where
  "down_defect m i n \<longleftrightarrow> n \<le> length m \<and>
     (\<forall>c < n. 0 < c \<longrightarrow> parent c \<noteq> i \<longrightarrow> seq_at m (parent c) \<le> seq_at m c) \<and>
     (0 < i \<longrightarrow> (\<forall>c < n. 0 < c \<longrightarrow> parent c = i \<longrightarrow> seq_at m (parent i) \<le> seq_at m c))"

definition least_child :: "'b min_heap \<Rightarrow> nat \<Rightarrow> nat \<Rightarrow> nat" where
  "least_child m i n =
     (if 2 * i + 2 < n \<and> MinHeap_Less m (2 * i + 2) (2 * i + 1) then 2 * i + 2 else 2 * i + 1)"

lemma heap_down_unfold:
  "heap_down m i n =
     (if 2 * i + 1 \<ge> n \<or> \<not> MinHeap_Less m (least_child m i n) i then m
      else heap_down (MinHeap_Swap m i (least_child m i n)) (least_child m i n) n)"
  by (subst heap_down.simps) (simp add: Let_def least_child_def)

lemma least_child:
  assumes "2 * i + 1 < n"
  shows "least_child m i n < n" "parent (least_child m i n) = i" "i < least_child m i n"
    "\<And>c. c < n \<Longrightarrow> 0 < c \<Longrightarrow> parent c = i \<Longrightarrow> seq_at m (least_child m i n) \<le> seq_at m c"
  using assms by (auto simp: least_child_def MinHeap_Less_def parent_eq_iff dest: not_less_iff_gr_or_eq [THEN iffD1])

lemma down_defect_done:
  assumes "down_defect m i n"
    and "2 * i + 1 \<ge> n \<or> \<not> MinHeap_Less m (least_child m i n) i"
  shows "heap_ordered m n"
  unfolding heap_ordered_def
proof (intro allI impI)
  fix c assume c: "c < n" "0 < c"
  show "seq_at m (parent c) \<le> seq_at m c"
  proof (cases "parent c = i")
    case True
    then have "2 * i + 1 < n" using c by (auto simp: parent_eq_iff)
    then show ?thesis
      using assms(2) least_child(4) [of i n c m] c True by (auto simp: MinHeap_Less_def)
  next
    case False
    then show ?thesis using assms(1) c by (auto simp: down_defect_def)
  qed
qed

lemma down_defect_step:
  assumes d: "down_defect m i n" and i: "2 * i + 1 < n"
    and lt: "MinHeap_Less m (least_child m i n) i"
  shows "down_defect (MinHeap_Swap m i (least_child m i n)) (least_child m i n) n"
proof -
  let ?j = "least_child m i n" and ?m = "MinHeap_Swap m i (least_child m i n)"
  note j = least_child [where i = i and n = n and m = m, OF i]
  have len: "n \<le> length m" "i < length m" "?j < length m" using d i j by (auto simp: down_defect_def)
  have seq: "seq_at ?m k = (if k = i then seq_at m ?j else if k = ?j then seq_at m i else seq_at m k)"
    if "k < n" for k
    using seq_Swap [OF len(2,3)] that len by simp
  have order: "seq_at m (parent c) \<le> seq_at m c" if "c < n" "0 < c" "parent c \<noteq> i" for c
    using d that by (auto simp: down_defect_def)
  have up: "seq_at m (parent i) \<le> seq_at m c" if "0 < i" "c < n" "0 < c" "parent c = i" for c
    using d that by (auto simp: down_defect_def)
  have "seq_at ?m (parent c) \<le> seq_at ?m c" if c: "c < n" "0 < c" "parent c \<noteq> ?j" for c
  proof -
    have "parent c < n" using c parent_less [of c] by linarith
    then show ?thesis
      using c lt j(1-3) j(4) [of c] order [of c] up [of ?j] seq [of c] seq [of "parent c"]
      by (auto simp: MinHeap_Less_def split: if_splits)
  qed
  moreover have "seq_at ?m (parent ?j) \<le> seq_at ?m c" if c: "c < n" "0 < c" "parent c = ?j" for c
    using c j(1-3) order [of c] seq [of c] seq [of i] i by (auto split: if_splits)
  ultimately show ?thesis using len by (auto simp: down_defect_def)
qed

lemma heap_down_keeps:
  "n \<le> length m \<Longrightarrow> length (heap_down m i n) = length m \<and> mh_elems (heap_down m i n) = mh_elems m \<and>
     (indexed m \<longrightarrow> indexed (heap_down m i n)) \<and> (\<forall>k. n \<le> k \<longrightarrow> k < length m \<longrightarrow> heap_down m i n ! k = m ! k)"
proof (induction m i n rule: heap_down.induct)
  case (1 m i n)
  show ?case
  proof (cases "2 * i + 1 \<ge> n \<or> \<not> MinHeap_Less m (least_child m i n) i")
    case True
    then show ?thesis by (auto simp: heap_down_unfold [of m i n])
  next
    case False
    let ?j = "least_child m i n"
    have j: "i < length m" "?j < length m" "?j < n" "i < n"
      using False 1(2) least_child(1,3) [of i n m] by auto
    moreover have "\<forall>k. n \<le> k \<longrightarrow> k < length m \<longrightarrow> MinHeap_Swap m i ?j ! k = m ! k"
      using j by (auto simp: MinHeap_Swap_def Let_def)
    ultimately show ?thesis
      using 1(1) [OF refl _ _ , of ?j] False 1(2)
      by (auto simp: heap_down_unfold [of m i n] elems_Swap indexed_Swap least_child_def)
  qed
qed

lemma heap_down_ordered: "down_defect m i n \<Longrightarrow> heap_ordered (heap_down m i n) n"
proof (induction m i n rule: heap_down.induct)
  case (1 m i n)
  show ?case
  proof (cases "2 * i + 1 \<ge> n \<or> \<not> MinHeap_Less m (least_child m i n) i")
    case True
    then show ?thesis using down_defect_done [OF 1(2) True] by (simp add: heap_down_unfold [of m i n])
  next
    case False
    then have "down_defect (MinHeap_Swap m i (least_child m i n)) (least_child m i n) n"
      using down_defect_step [OF 1(2)] by simp
    then show ?thesis
      using 1(1) [OF refl _ _, of "least_child m i n"] False
      by (auto simp: heap_down_unfold [of m i n] least_child_def)
  qed
qed

section \<open>Push and Pick\<close>

lemma up_defect_append:
  assumes "heap_ordered m (length m)"
  shows "up_defect (MinHeap_Push m x) (length m)"
proof -
  let ?m = "MinHeap_Push m x"
  have nth: "?m ! k = m ! k" if "k < length m" for k
    using that by (simp add: MinHeap_Push_def nth_append)
  have "seq_at ?m (parent c) \<le> seq_at ?m c" if "c < length m" "0 < c" for c
    using assms that by (auto simp: heap_ordered_def nth)
  moreover have "parent c \<noteq> length m" if "c \<le> length m" "0 < c" for c
    using parent_less [OF that(2)] that(1) by linarith
  ultimately show ?thesis
    by (auto simp: up_defect_def MinHeap_Push_def less_Suc_eq_le)
qed

lemma heap_Push_correct:
  assumes "mh_inv m"
  shows "mh_inv (heap_Push m x) \<and> mh_elems (heap_Push m x) = add_mset (entry x) (mh_elems m)"
proof -
  let ?m = "MinHeap_Push m x"
  have len: "length ?m = Suc (length m)" by (simp add: MinHeap_Push_def)
  have "indexed ?m"
    using assms by (auto simp: mh_inv_def indexed_def MinHeap_Push_def nth_append less_Suc_eq)
  moreover have "mh_elems ?m = add_mset (entry x) (mh_elems m)"
    by (simp add: mh_elems_def MinHeap_Push_def)
  moreover have "up_defect ?m (length m)"
    using assms by (intro up_defect_append) (simp add: mh_inv_def)
  ultimately show ?thesis
    using heap_up_ordered [of ?m "length m"] heap_up_keeps [of "length m" ?m] len
    by (auto simp: heap_Push_def mh_inv_def)
qed

lemma heap_root_least:
  assumes "heap_ordered m n" "i < n"
  shows "seq_at m 0 \<le> seq_at m i"
  using assms(2)
proof (induction i rule: less_induct)
  case (less i)
  show ?case
  proof (cases "i = 0")
    case False
    then have "seq_at m 0 \<le> seq_at m (parent i)" using less by simp
    also have "\<dots> \<le> seq_at m i" using assms(1) False less.prems by (auto simp: heap_ordered_def)
    finally show ?thesis .
  qed simp
qed

lemma down_defect_swap:
  assumes "heap_ordered m (length m)" "m \<noteq> []"
  shows "down_defect (MinHeap_Swap m 0 (length m - 1)) 0 (length m - 1)"
proof -
  let ?n = "length m - 1"
  have n: "?n < length m" "0 < length m" using assms(2) by auto
  have "seq_at (MinHeap_Swap m 0 ?n) (parent c) \<le> seq_at (MinHeap_Swap m 0 ?n) c"
    if "c < ?n" "0 < c" "parent c \<noteq> 0" for c
  proof -
    have "parent c < ?n" using that(1) by (rule parent_bound)
    then have "parent c \<noteq> ?n" by (rule less_imp_neq)
    then show ?thesis
      using assms(1) that n by (auto simp: seq_Swap heap_ordered_def)
  qed
  then show ?thesis using n by (simp add: down_defect_def)
qed

lemma last_nth_length: "xs \<noteq> [] \<Longrightarrow> last xs = xs ! (length xs - 1)"
  by (rule last_conv_nth)

lemma mset_entry_butlast:
  "m \<noteq> [] \<Longrightarrow> mh_elems m = add_mset (entry (last m)) (mh_elems (butlast m))"
  by (cases m rule: rev_cases) (simp_all add: mh_elems_def)

lemma mh_inv_butlast:
  "heap_ordered d n \<Longrightarrow> indexed d \<Longrightarrow> length d = Suc n \<Longrightarrow> mh_inv (butlast d)"
  by (auto simp: mh_inv_def heap_ordered_def indexed_def nth_butlast)

lemma heap_Pop_correct:
  assumes "mh_inv m" "m \<noteq> []"
  shows "\<exists>x m'. heap_Pop m = Inr (x, m') \<and> mh_inv m' \<and> mhi_index x = -1 \<and>
           mh_elems m = add_mset (entry x) (mh_elems m') \<and> entry x = entry (m ! 0)"
proof -
  let ?n = "length m - 1"
  let ?s = "MinHeap_Swap m 0 ?n"
  let ?d = "heap_down ?s 0 ?n"
  have n: "?n < length m" "0 < length m" "?n \<le> length ?s" using assms(2) by auto
  have keeps: "length ?d = length m" "mh_elems ?d = mh_elems m" "indexed ?d" "?d ! ?n = ?s ! ?n"
    using heap_down_keeps [OF n(3), of 0] assms(1) n
    by (auto simp: elems_Swap indexed_Swap mh_inv_def)
  have ord: "heap_ordered ?d ?n"
    using assms by (intro heap_down_ordered down_defect_swap) (auto simp: mh_inv_def)
  have d: "?d \<noteq> []" using keeps(1) assms(2) by auto
  have "mh_inv (butlast ?d)"
    using mh_inv_butlast [OF ord keeps(3)] keeps(1) assms(2) by simp
  moreover have "entry (last ?d) = entry (m ! 0)"
    using keeps(1,4) d n map_entry_Swap [of 0 m ?n, THEN arg_cong [where f = "\<lambda>xs. xs ! ?n"]]
    by (simp add: last_nth_length nth_list_update split: if_splits)
  moreover have "mh_elems m = add_mset (entry (last ?d)) (mh_elems (butlast ?d))"
    using mset_entry_butlast [OF d] keeps(2) by simp
  ultimately show ?thesis
    using d by (simp add: heap_Pop_def Let_def MinHeap_Pop_def)
qed

definition mh_pick :: "'b min_heap \<Rightarrow> ((int \<times> 'b) \<times> 'b min_heap) option" where
  "mh_pick h = (case WrapHeap_Pick h of Inr (Some x, h') \<Rightarrow> Some (entry x, h') | _ \<Rightarrow> None)"

definition mh_push :: "int \<times> 'b \<Rightarrow> 'b min_heap \<Rightarrow> 'b min_heap" where
  "mh_push x h = WrapHeap_Push \<lparr>mhi_sequence = fst x, mhi_buf = snd x, mhi_index = 0\<rparr> h"

lemma Pick_empty: "WrapHeap_Pick [] = Inr (None, [])"
  by (simp add: WrapHeap_Pick_def MinHeap_Len_def)

lemma Pick_nonempty:
  assumes "mh_inv h" "h \<noteq> []"
  shows "\<exists>x h'. WrapHeap_Pick h = Inr (Some x, h') \<and> mh_inv h' \<and> mhi_index x = -1 \<and>
           mh_elems h = add_mset (entry x) (mh_elems h') \<and>
           (\<forall>y \<in># mh_elems h. mhi_sequence x \<le> fst y)"
proof -
  obtain x h' where x: "heap_Pop h = Inr (x, h')" "mh_inv h'" "mhi_index x = -1"
      "mh_elems h = add_mset (entry x) (mh_elems h')" "entry x = entry (h ! 0)"
    using heap_Pop_correct [OF assms] by blast
  have "mhi_sequence x \<le> mhi_sequence y" if "y \<in> set h" for y
    using that heap_root_least [of h "length h"] assms x(5)
    by (auto simp: mh_inv_def entry_def in_set_conv_nth)
  then have "\<forall>y \<in># mh_elems h. mhi_sequence x \<le> fst y"
    by (auto simp: mh_elems_def entry_def)
  then show ?thesis using x(1-4) assms(2) by (simp add: WrapHeap_Pick_def MinHeap_Len_def)
qed

lemma mh_elems_empty_iff: "mh_elems h = {#} \<longleftrightarrow> h = []"
  by (simp add: mh_elems_def)

interpretation pending: prio_queue mh_push mh_pick mh_elems mh_inv
proof unfold_locales
  fix q :: "'b min_heap" and x
  assume "mh_inv q"
  then show "mh_elems (mh_push x q) = add_mset x (mh_elems q)" and "mh_inv (mh_push x q)"
    using heap_Push_correct [of q "\<lparr>mhi_sequence = fst x, mhi_buf = snd x, mhi_index = 0\<rparr>"]
    by (simp_all add: mh_push_def WrapHeap_Push_def entry_def)
next
  fix q q' :: "'b min_heap" and x
  assume q: "mh_inv q" and p: "mh_pick q = Some (x, q')"
  have "q \<noteq> []" using p by (auto simp: mh_pick_def Pick_empty)
  from Pick_nonempty [OF q this] p
  have *: "mh_inv q' \<and> mh_elems q = add_mset x (mh_elems q') \<and> (\<forall>y \<in># mh_elems q. fst x \<le> fst y)"
    by (fastforce simp: mh_pick_def entry_def)
  then show "mh_elems q = add_mset x (mh_elems q')" and "mh_inv q'"
    by auto
  fix y assume "y \<in># mh_elems q"
  with * show "fst x \<le> fst y" by auto
next
  fix q :: "'b min_heap"
  assume "mh_inv q"
  then show "mh_pick q = None \<longleftrightarrow> mh_elems q = {#}"
    using Pick_nonempty [of q] by (cases "q = []") (auto simp: mh_pick_def Pick_empty mh_elems_def)
qed

section \<open>Properties\<close>

lemma mh_inv_Nil: "mh_inv []"
  by (simp add: mh_inv_def heap_ordered_def indexed_def)

lemma fold_push: "mh_inv h \<Longrightarrow> mh_inv (fold mh_push xs h) \<and> mh_elems (fold mh_push xs h) = mset xs + mh_elems h"
  by (induction xs arbitrary: h) (simp_all add: pending.push_inv pending.push_elems)

text \<open>
  C15: buffers pushed in any order come out by sequence number: picking until the heap is empty
  returns exactly what was pushed, sorted.
\<close>

theorem heap_sorts_by_sequence:
  "mset (pending.drain (length xs) (fold mh_push xs NewWrapHeap)) = mset xs \<and>
   sorted (map fst (pending.drain (length xs) (fold mh_push xs NewWrapHeap)))"
proof -
  have f: "mh_inv (fold mh_push xs NewWrapHeap)" "mh_elems (fold mh_push xs NewWrapHeap) = mset xs"
    using fold_push [OF mh_inv_Nil, of xs] by (simp_all add: NewWrapHeap_def mh_elems_def)
  then have "size (mh_elems (fold mh_push xs NewWrapHeap)) \<le> length xs" by simp
  with f show ?thesis using pending.drain_mset [OF f(1)] pending.drain_sorted [OF f(1)] by auto
qed

text \<open>
  A pick from a nonempty heap removes one item whose sequence number is least, keeps the rest,
  and maintains the index field: the items inside know their position, the removed one has index -1.
\<close>

theorem pick_least:
  assumes "mh_inv h" "h \<noteq> NewWrapHeap"
  shows "\<exists>x h'. WrapHeap_Pick h = Inr (Some x, h') \<and> mh_inv h' \<and>
    mh_elems h = add_mset (entry x) (mh_elems h') \<and> WrapHeap_Len h' = WrapHeap_Len h - 1 \<and>
    (\<forall>y \<in> set h. mhi_sequence x \<le> mhi_sequence y) \<and>
    mhi_index x = -1 \<and> (\<forall>i < length h'. mhi_index (h' ! i) = int i)"
proof -
  obtain x h' where p: "WrapHeap_Pick h = Inr (Some x, h')" "mh_inv h'" "mhi_index x = -1"
      "mh_elems h = add_mset (entry x) (mh_elems h')" "\<forall>y \<in># mh_elems h. mhi_sequence x \<le> fst y"
    using Pick_nonempty [OF assms(1)] assms(2) by (auto simp: NewWrapHeap_def)
  have "size (mh_elems h) = length h" "size (mh_elems h') = length h'" by (simp_all add: mh_elems_def)
  then have len: "length h = Suc (length h')" using p(4) by simp
  have "mhi_sequence x \<le> mhi_sequence y" if "y \<in> set h" for y
    using p(5) that by (force simp: mh_elems_def entry_def)
  moreover have "\<forall>i < length h'. mhi_index (h' ! i) = int i" using p(2) by (simp add: mh_inv_def indexed_def)
  ultimately show ?thesis using p len by (auto simp: WrapHeap_Len_def MinHeap_Len_def)
qed

theorem pick_least_witness:
  "\<exists>x h'. WrapHeap_Pick (mh_push (2, ()) (mh_push (3, ()) NewWrapHeap)) = Inr (Some x, h') \<and> mhi_index x = -1"
proof -
  let ?h = "mh_push (2, ()) (mh_push (3, ()) NewWrapHeap)"
  have "mh_inv ?h" "mh_elems ?h = {#(2, ()), (3, ())#}"
    using fold_push [OF mh_inv_Nil, of "[(3, ()), (2, ())]"] by (simp_all add: NewWrapHeap_def mh_elems_def)
  moreover from this(2) have "?h \<noteq> NewWrapHeap" by (auto simp: NewWrapHeap_def mh_elems_def)
  ultimately show ?thesis using pick_least [of ?h] by blast
qed

end
