(* ===== verification/Waiters.thy ===== *)
theory Waiters
  imports TS_Consts "HOL-Library.AList"
begin

text \<open>
  \<open>src/core/waiters.go\<close>: the registry of blocked readers. Each waiter has a channel of capacity
  one; \<open>notify\<close> sends one token to some of them and forgets them; \<open>unregister\<close> gives the channel
  back to a \<open>sync.Pool\<close>.

  Channels are references into a store (token present or not, closed or not), because the waiter
  keeps the reference after \<open>notify\<close> has removed it from the map. The map \<open>ws\<close> is an association
  list with distinct keys; the order of the list is the iteration order that \<open>range\<close> picks, which
  Go leaves open, so every statement is for every order. The choice that \<open>sync.Pool.Get\<close> makes
  (some pooled channel or a new one) is an argument.
\<close>

section \<open>State\<close>

record waiter_manager =
  wm_ws :: "(int \<times> nat) list"
  wm_pool :: "nat list"
  wm_currentID :: int
  wm_closed :: bool
  wm_token :: "nat \<Rightarrow> bool"
  wm_chan_closed :: "nat \<Rightarrow> bool"
  wm_next_chan :: nat

definition newWaiterManager :: waiter_manager where
  "newWaiterManager =
     \<lparr>wm_ws = [], wm_pool = [], wm_currentID = 0, wm_closed = False,
      wm_token = (\<lambda>_. False), wm_chan_closed = (\<lambda>_. False), wm_next_chan = 0\<rparr>"

section \<open>Operations\<close>

text \<open>
  \<open>pool.Get()\<close>: \<open>Some k\<close> asks for the \<open>k\<close>-th pooled channel; otherwise, or when there is none,
  \<open>New\<close> makes one.
\<close>

definition chan_pool_get :: "nat option \<Rightarrow> waiter_manager \<Rightarrow> nat \<times> waiter_manager" where
  "chan_pool_get choice w =
     (case choice of
        Some k \<Rightarrow>
          if k < length (wm_pool w)
          then (wm_pool w ! k, w\<lparr>wm_pool := take k (wm_pool w) @ drop (Suc k) (wm_pool w)\<rparr>)
          else (wm_next_chan w, w\<lparr>wm_next_chan := Suc (wm_next_chan w)\<rparr>)
      | None \<Rightarrow> (wm_next_chan w, w\<lparr>wm_next_chan := Suc (wm_next_chan w)\<rparr>))"

definition register :: "nat option \<Rightarrow> waiter_manager \<Rightarrow> (int \<times> nat) \<times> waiter_manager" where
  "register choice w =
     (let wid = wrap64 (wm_currentID w + 1);
          w1 = w\<lparr>wm_currentID := wid\<rparr>;
          (ch, w2) = chan_pool_get choice w1
      in ((wid, ch), w2\<lparr>wm_ws := AList.update wid ch (wm_ws w2)\<rparr>))"

definition unregister :: "int \<Rightarrow> waiter_manager \<Rightarrow> waiter_manager" where
  "unregister wid w =
     (case map_of (wm_ws w) wid of
        None \<Rightarrow> w
      | Some ch \<Rightarrow> w\<lparr>wm_pool := wm_pool w @ [ch], wm_ws := AList.delete wid (wm_ws w)\<rparr>)"

fun min_values :: "int list \<Rightarrow> int go" where
  "min_values [] = Inl IndexOutOfRange"
| "min_values (m # vs) = Inr (foldl (\<lambda>m v. if v < m then v else m) m vs)"

text \<open>
  The non-blocking sends of one batch: a channel that has no token gets one and \<open>remaining\<close>
  drops by one, a full channel takes the \<open>default\<close> branch, a closed channel panics.
\<close>

fun send_batch :: "nat list \<Rightarrow> waiter_manager \<Rightarrow> int \<Rightarrow> (waiter_manager \<times> int) go" where
  "send_batch [] w remaining = Inr (w, remaining)"
| "send_batch (c # cs) w remaining =
     (if wm_chan_closed w c then Inl SendOnClosedChannel
      else if wm_token w c then send_batch cs w remaining
      else send_batch cs (w\<lparr>wm_token := (wm_token w)(c := True)\<rparr>) (remaining - 1))"

definition MaxWaitersPerBatch :: int where "MaxWaitersPerBatch = 64"
definition MaxTotalWaiters :: int where "MaxTotalWaiters = 1024"

lemma send_batch_ws:
  "send_batch cs w r = Inr (w', r') \<Longrightarrow> wm_ws w' = wm_ws w"
  by (induction cs w r rule: send_batch.induct) (auto split: if_splits)

lemma notify_shrinks:
  assumes "wm_ws w \<noteq> []" "0 < k"
  shows "length (filter (\<lambda>(wid, _). wid \<notin> set (d @ map fst (take k (wm_ws w)))) (wm_ws w))
           < length (wm_ws w)"
proof -
  obtain x xs where x: "wm_ws w = x # xs" using assms(1) by (cases "wm_ws w") auto
  then have "fst x \<in> set (map fst (take k (wm_ws w)))" using assms(2) by (cases k) auto
  then show ?thesis using x by (auto simp: case_prod_unfold less_Suc_eq_le)
qed

text \<open>
  The loop of \<open>notify\<close>: take the next batch of waiters in iteration order, send, delete every
  waiter met so far (\<open>shouldDelete\<close>), stop when \<open>remaining\<close> is used up or no waiter is left.
\<close>

function notify_loop :: "int \<Rightarrow> int list \<Rightarrow> waiter_manager \<Rightarrow> waiter_manager go" where
  "notify_loop remaining shouldDelete w =
     (if remaining > 0 then
        (let batchSize = (if remaining < MaxTotalWaiters then remaining else MaxTotalWaiters);
             seen = take (nat batchSize) (wm_ws w);
             shouldDelete = shouldDelete @ map fst seen
         in case send_batch (map snd seen) w remaining of
              Inl p \<Rightarrow> Inl p
            | Inr (w1, remaining) \<Rightarrow>
                let w2 = w1\<lparr>wm_ws := filter (\<lambda>(wid, _). wid \<notin> set shouldDelete) (wm_ws w1)\<rparr>
                in if wm_ws w2 = [] then Inr w2 else notify_loop remaining shouldDelete w2)
      else Inr w)"
  by pat_completeness auto
termination
proof (relation "measure (\<lambda>(r, d, w). length (wm_ws w))", goal_cases)
  case 1
  show ?case by simp
next
  case (2 remaining shouldDelete w batchSize seen sd y w1 r w2)
  have ws: "wm_ws w1 = wm_ws w" using 2(5,6) by (auto dest: send_batch_ws)
  have ws2: "wm_ws w2 = filter (\<lambda>(wid, _). wid \<notin> set sd) (wm_ws w)" using 2(7) ws by simp
  have "wm_ws w \<noteq> []" using 2(8) ws2 by auto
  moreover have "0 < nat batchSize" using 2(1,2) by (simp add: MaxTotalWaiters_def)
  ultimately show ?case
    using notify_shrinks [of w "nat batchSize" shouldDelete] by (simp add: ws2 2(3,4))
qed

declare notify_loop.simps [simp del]

definition notify :: "int \<Rightarrow> waiter_manager \<Rightarrow> waiter_manager go" where
  "notify dataSize w =
     (if wm_ws w = [] \<or> wm_closed w then Inr w
      else case min_values [MaxWaitersPerBatch, dataSize, MaxTotalWaiters] of
             Inl p \<Rightarrow> Inl p
           | Inr totalToNotify \<Rightarrow>
               if totalToNotify \<le> 0 then Inr w else notify_loop totalToNotify [] w)"

fun close_all :: "nat list \<Rightarrow> waiter_manager \<Rightarrow> waiter_manager go" where
  "close_all [] w = Inr w"
| "close_all (c # cs) w =
     (if wm_chan_closed w c then Inl CloseOfClosedChannel
      else close_all cs (w\<lparr>wm_chan_closed := (wm_chan_closed w)(c := True)\<rparr>))"

definition Close_wm :: "waiter_manager \<Rightarrow> waiter_manager go" where
  "Close_wm w = close_all (map snd (wm_ws w)) (w\<lparr>wm_closed := True\<rparr>)"

text \<open>
  The receive \<open>\<leftarrow>ch\<close> of a waiter: it can proceed when the channel holds a token (which it takes)
  or is closed.
\<close>

definition chan_recv :: "nat \<Rightarrow> waiter_manager \<Rightarrow> waiter_manager option" where
  "chan_recv ch w =
     (if wm_token w ch then Some (w\<lparr>wm_token := (wm_token w)(ch := False)\<rparr>)
      else if wm_chan_closed w ch then Some w else None)"

section \<open>Invariant\<close>

text \<open>
  The identifiers of the registered waiters are distinct and at most \<open>currentID\<close>; no two
  registered or pooled channels are the same; none of them holds a token; as long as the manager
  is open none of them is closed.
\<close>

definition wm_inv :: "waiter_manager \<Rightarrow> bool" where
  "wm_inv w \<longleftrightarrow>
     distinct (map fst (wm_ws w)) \<and>
     (\<forall>wid \<in> set (map fst (wm_ws w)). wid \<le> wm_currentID w) \<and> 0 \<le> wm_currentID w \<and>
     distinct (map snd (wm_ws w) @ wm_pool w) \<and>
     (\<forall>c \<in> set (map snd (wm_ws w) @ wm_pool w).
        c < wm_next_chan w \<and> \<not> wm_token w c \<and> (\<not> wm_closed w \<longrightarrow> \<not> wm_chan_closed w c)) \<and>
     (\<forall>c \<ge> wm_next_chan w. \<not> wm_token w c \<and> \<not> wm_chan_closed w c)"

lemma wm_inv_new: "wm_inv newWaiterManager"
  by (simp add: wm_inv_def newWaiterManager_def)

section \<open>Registering and unregistering\<close>

abbreviation wm_chans :: "waiter_manager \<Rightarrow> nat list" where
  "wm_chans w \<equiv> map snd (wm_ws w) @ wm_pool w"

lemma wm_inv_chan:
  "wm_inv w \<Longrightarrow> c \<in> set (wm_chans w) \<Longrightarrow>
   c < wm_next_chan w \<and> \<not> wm_token w c \<and> (\<not> wm_closed w \<longrightarrow> \<not> wm_chan_closed w c)"
  by (simp add: wm_inv_def)

lemma chan_pool_get_inv:
  assumes "wm_inv w" "chan_pool_get choice w = (c, w')"
  shows "distinct (c # wm_chans w') \<and> wm_ws w' = wm_ws w \<and> set (wm_chans w') \<subseteq> set (wm_chans w) \<and>
    (c \<in> set (wm_chans w) \<or> c = wm_next_chan w) \<and> c < wm_next_chan w' \<and>
    wm_next_chan w \<le> wm_next_chan w' \<and> wm_token w' = wm_token w \<and>
    wm_chan_closed w' = wm_chan_closed w \<and> wm_closed w' = wm_closed w \<and> wm_currentID w' = wm_currentID w"
proof (cases "\<exists>k. choice = Some k \<and> k < length (wm_pool w)")
  case True
  then obtain k where k: "choice = Some k" "k < length (wm_pool w)" by blast
  have pool: "wm_pool w = take k (wm_pool w) @ wm_pool w ! k # drop (Suc k) (wm_pool w)"
    using k(2) by (simp add: Cons_nth_drop_Suc)
  have d: "distinct (map snd (wm_ws w) @ take k (wm_pool w) @ wm_pool w ! k # drop (Suc k) (wm_pool w))"
    using assms(1) pool by (simp add: wm_inv_def)
  have "wm_pool w ! k < wm_next_chan w" using assms(1) k(2) by (auto simp: wm_inv_def)
  moreover have "set (take k (wm_pool w)) \<subseteq> set (wm_pool w)" "set (drop (Suc k) (wm_pool w)) \<subseteq> set (wm_pool w)"
    by (auto dest: in_set_takeD in_set_dropD)
  moreover have "c = wm_pool w ! k"
      "w' = w\<lparr>wm_pool := take k (wm_pool w) @ drop (Suc k) (wm_pool w)\<rparr>"
    using assms(2) k by (simp_all add: chan_pool_get_def)
  ultimately show ?thesis using d k(2) by auto
next
  case False
  then have "c = wm_next_chan w" "w' = w\<lparr>wm_next_chan := Suc (wm_next_chan w)\<rparr>"
    using assms(2) by (auto simp: chan_pool_get_def split: option.splits if_splits)
  moreover have "wm_next_chan w \<notin> set (wm_chans w)" and "distinct (wm_chans w)"
    using assms(1) by (auto simp: wm_inv_def)
  ultimately show ?thesis by auto
qed

lemma register_inv:
  assumes "wm_inv w" "wm_currentID w < 2 ^ 63 - 1" "register choice w = ((wid, c), w')"
  shows "wm_inv w' \<and> wid = wm_currentID w + 1 \<and> wm_ws w' = wm_ws w @ [(wid, c)] \<and>
    \<not> wm_token w' c \<and> (\<not> wm_closed w \<longrightarrow> \<not> wm_chan_closed w' c) \<and> wm_closed w' = wm_closed w"
proof -
  let ?w1 = "w\<lparr>wm_currentID := wm_currentID w + 1\<rparr>"
  have wid: "wrap64 (wm_currentID w + 1) = wm_currentID w + 1"
    using assms(1,2) by (simp add: wm_inv_def)
  obtain c' w2 where g: "chan_pool_get choice ?w1 = (c', w2)" by fastforce
  have inv1: "wm_inv ?w1" using assms(1) by (auto simp: wm_inv_def)
  note facts = chan_pool_get_inv [OF inv1 g]
  have new: "wm_currentID w + 1 \<notin> set (map fst (wm_ws w))" using assms(1) by (force simp: wm_inv_def)
  have w': "wid = wm_currentID w + 1" "c = c'" "w' = w2\<lparr>wm_ws := AList.update wid c (wm_ws w2)\<rparr>"
    using assms(3) g wid by (auto simp: register_def Let_def)
  have upd: "AList.update wid c xs = xs @ [(wid, c)]" if "wid \<notin> set (map fst xs)" for xs
    using that by (induction xs) auto
  have ws: "wm_ws w' = wm_ws w @ [(wid, c)]" using w' facts new upd by simp
  have c: "\<not> wm_token w c" "\<not> wm_closed w \<longrightarrow> \<not> wm_chan_closed w c"
    using facts inv1 w'(2) by (auto simp: wm_inv_def)
  have same: "wm_token w' = wm_token w" "wm_chan_closed w' = wm_chan_closed w"
      "wm_closed w' = wm_closed w" "wm_currentID w' = wid" "wm_pool w' = wm_pool w2"
      "wm_next_chan w' = wm_next_chan w2"
    using facts w' by simp_all
  have snd_ws: "map snd (wm_ws w') = map snd (wm_ws w2) @ [c]" using ws facts by simp
  have "distinct (c # map snd (wm_ws w2) @ wm_pool w2)" using facts w'(2) by metis
  then have chans: "set (wm_chans w') = insert c (set (wm_chans w2))" "distinct (wm_chans w')"
    unfolding snd_ws same(5) by (simp_all only: distinct.simps distinct_append set_append) auto
  have live: "d < wm_next_chan w' \<and> \<not> wm_token w' d \<and> (\<not> wm_closed w' \<longrightarrow> \<not> wm_chan_closed w' d)"
    if d: "d \<in> set (wm_chans w')" for d
  proof (cases "d = c")
    case True
    moreover have "c < wm_next_chan w'" using facts w'(2) same(6) by simp
    ultimately show ?thesis using c unfolding same(1-3) by simp
  next
    case False
    then have "d \<in> set (wm_chans w)" using d chans(1) facts by auto
    then have "d < wm_next_chan w \<and> \<not> wm_token w d \<and> (\<not> wm_closed w \<longrightarrow> \<not> wm_chan_closed w d)"
      using assms(1) by (simp add: wm_inv_def)
    moreover have "wm_next_chan w \<le> wm_next_chan w'" using facts same(6) by simp
    ultimately show ?thesis unfolding same(1-3) by linarith
  qed
  have keys: "distinct (map fst (wm_ws w'))" "\<forall>i \<in> set (map fst (wm_ws w')). i \<le> wid" "0 \<le> wid"
    using ws new inv1 w'(1) by (auto simp: wm_inv_def)
  have fresh: "\<not> wm_token w' d \<and> \<not> wm_chan_closed w' d" if "wm_next_chan w' \<le> d" for d
  proof -
    have "wm_next_chan w \<le> d" using that facts same(6) by simp
    then show ?thesis using assms(1) unfolding same(1-2) by (simp add: wm_inv_def)
  qed
  have "wm_inv w'" unfolding wm_inv_def using keys chans(2) live fresh same(4) by simp
  then show ?thesis using w' ws c same by simp
qed

lemma unregister_inv: "wm_inv w \<Longrightarrow> wm_inv (unregister wid w)"
proof (cases "map_of (wm_ws w) wid")
  case None
  then show "wm_inv w \<Longrightarrow> ?thesis" by (simp add: unregister_def)
next
  case (Some c)
  assume inv: "wm_inv w"
  from Some have "(wid, c) \<in> set (wm_ws w)" by (rule map_of_SomeD)
  then obtain us vs where ws: "wm_ws w = us @ (wid, c) # vs" by (meson split_list)
  have "wid \<notin> set (map fst us)" "wid \<notin> set (map fst vs)" using inv ws by (auto simp: wm_inv_def)
  then have "filter (\<lambda>(k', _). wid \<noteq> k') us = us" "filter (\<lambda>(k', _). wid \<noteq> k') vs = vs"
    by (force simp: filter_id_conv)+
  then have "AList.delete wid (wm_ws w) = us @ vs"
    using ws by (simp add: AList.delete_eq)
  then show ?thesis
    using inv Some ws by (auto simp: wm_inv_def unregister_def)
qed

section \<open>Notification\<close>

lemma send_batch_all:
  assumes "distinct cs" "\<forall>c \<in> set cs. \<not> wm_token w c \<and> \<not> wm_chan_closed w c"
  shows "send_batch cs w r =
    Inr (w\<lparr>wm_token := (\<lambda>c. wm_token w c \<or> c \<in> set cs)\<rparr>, r - int (length cs))"
  using assms
proof (induction cs w r rule: send_batch.induct)
  case (1 w r)
  then show ?case by simp
next
  case (2 c cs w r)
  let ?w1 = "w\<lparr>wm_token := (wm_token w)(c := True)\<rparr>"
  have "send_batch cs ?w1 (r - 1) =
      Inr (?w1\<lparr>wm_token := (\<lambda>d. wm_token ?w1 d \<or> d \<in> set cs)\<rparr>, r - 1 - int (length cs))"
    by (rule 2) (use 2(3,4) in auto)
  moreover have "(\<lambda>d. wm_token ?w1 d \<or> d \<in> set cs) = (\<lambda>d. wm_token w d \<or> d \<in> set (c # cs))"
    by auto
  ultimately have "send_batch cs ?w1 (r - 1) =
      Inr (w\<lparr>wm_token := (\<lambda>d. wm_token w d \<or> d \<in> set (c # cs))\<rparr>, r - int (length (c # cs)))"
    by (simp only:) simp
  then show ?case using 2(4) by simp
qed

lemma filter_keys_drop:
  "distinct (map fst xs) \<Longrightarrow>
   filter (\<lambda>(i, _). i \<notin> set (map fst (take k xs))) xs = drop k xs"
proof -
  assume d: "distinct (map fst xs)"
  let ?a = "take k xs" and ?b = "drop k xs"
  have "distinct (map fst ?a @ map fst ?b)" using d by (metis append_take_drop_id map_append)
  then have dis: "fst x \<notin> set (map fst ?a)" if "x \<in> set ?b" for x
    using that by fastforce
  let ?P = "\<lambda>(i, _). i \<notin> set (map fst ?a)"
  have "filter ?P ?a = []" by (force simp: filter_empty_conv)
  moreover have "filter ?P ?b = ?b" using dis by (fastforce simp: filter_id_conv)
  ultimately show ?thesis by (metis append_Nil append_take_drop_id filter_append)
qed

lemma min_values_three: "min_values [a, b, c] = Inr (min (min a b) c)"
  by (simp add: min_def)

text \<open>The state after waking the first \<open>k\<close> registered waiters.\<close>

definition woken :: "nat \<Rightarrow> waiter_manager \<Rightarrow> waiter_manager" where
  "woken k w = w\<lparr>wm_ws := drop k (wm_ws w),
     wm_token := (\<lambda>c. wm_token w c \<or> c \<in> set (map snd (take k (wm_ws w))))\<rparr>"

lemma notify_loop_once:
  assumes "wm_inv w" "\<not> wm_closed w" "0 < r" "r \<le> MaxTotalWaiters"
  shows "notify_loop r [] w = Inr (woken (nat r) w)"
proof -
  let ?seen = "take (nat r) (wm_ws w)"
  have split: "wm_ws w = ?seen @ drop (nat r) (wm_ws w)" by simp
  then have ws: "map snd (wm_ws w) = map snd ?seen @ map snd (drop (nat r) (wm_ws w))"
    by (metis map_append)
  have d: "distinct (map snd ?seen)" "\<forall>c \<in> set (map snd ?seen). \<not> wm_token w c \<and> \<not> wm_chan_closed w c"
    using assms(1,2) ws by (auto simp: wm_inv_def dest: in_set_takeD)
  have bs: "(if r < MaxTotalWaiters then r else MaxTotalWaiters) = r" using assms(4) by auto
  have send: "send_batch (map snd ?seen) w r =
      Inr (w\<lparr>wm_token := (\<lambda>c. wm_token w c \<or> c \<in> set (map snd ?seen))\<rparr>, r - int (length ?seen))"
    using send_batch_all [OF d, of r] by simp
  have del: "filter (\<lambda>(wid, _). wid \<notin> set ([] @ map fst ?seen)) (wm_ws w) = drop (nat r) (wm_ws w)"
    using assms(1) filter_keys_drop [of "wm_ws w" "nat r"] by (simp add: wm_inv_def)
  have rem: "drop (nat r) (wm_ws w) \<noteq> [] \<Longrightarrow> r - int (length ?seen) = 0"
    using assms(3) by simp
  show ?thesis
  proof (cases "drop (nat r) (wm_ws w) = []")
    case True
    then show ?thesis
      using assms(3) send del by (subst notify_loop.simps) (simp add: Let_def bs woken_def)
  next
    case False
    with rem have z: "r - int (length ?seen) = 0" by blast
    have "notify_loop 0 d w' = Inr w'" for d w' by (simp add: notify_loop.simps)
    then show ?thesis
      using assms(3) send [unfolded z] del False
      by (subst notify_loop.simps) (simp add: Let_def bs woken_def)
  qed
qed

lemma woken_inv: "wm_inv w \<Longrightarrow> wm_inv (woken k w)"
proof -
  assume inv: "wm_inv w"
  let ?a = "take k (wm_ws w)" and ?b = "drop k (wm_ws w)"
  have ab: "map f (wm_ws w) = map f ?a @ map f ?b" for f :: "int \<times> nat \<Rightarrow> 'c"
    by (metis append_take_drop_id map_append)
  have sub: "set ?a \<subseteq> set (wm_ws w)" "set ?b \<subseteq> set (wm_ws w)"
    by (auto dest: in_set_takeD in_set_dropD)
  have keys: "distinct (map fst ?b)" "\<forall>i \<in> set (map fst ?b). i \<le> wm_currentID w"
    using inv sub(2) ab [of fst] by (auto simp: wm_inv_def)
  have d: "distinct (map snd ?a @ map snd ?b @ wm_pool w)"
    using inv ab [of snd] by (simp add: wm_inv_def)
  have live: "c < wm_next_chan w \<and> \<not> wm_token w c \<and> (\<not> wm_closed w \<longrightarrow> \<not> wm_chan_closed w c)"
    if "c \<in> set (map snd ?a @ map snd ?b @ wm_pool w)" for c
    using inv that ab [of snd] by (auto simp: wm_inv_def)
  have fresh: "\<not> wm_token w c \<and> \<not> wm_chan_closed w c \<and> c \<notin> set (map snd ?a)"
    if "wm_next_chan w \<le> c" for c
    using inv that live [of c] by (auto simp: wm_inv_def)
  have "0 \<le> wm_currentID w" using inv by (simp add: wm_inv_def)
  then show ?thesis
    unfolding wm_inv_def woken_def using keys d live fresh by simp blast
qed

lemma woken_nothing: "k = 0 \<or> wm_ws w = [] \<Longrightarrow> woken k w = w"
  by (cases w) (auto simp: woken_def)

lemma notify_open:
  assumes "wm_inv w" "\<not> wm_closed w"
  shows "notify n w = Inr (woken (nat (min 64 n)) w)"
proof (cases "wm_ws w = [] \<or> n \<le> 0")
  case True
  then show ?thesis
    using assms(2) woken_nothing [of "nat (min 64 n)" w]
    by (auto simp: notify_def min_values_three MaxWaitersPerBatch_def MaxTotalWaiters_def
        simp del: min_values.simps)
next
  case False
  then have n: "\<not> min 64 n \<le> 0" "min (min 64 n) 1024 = min 64 n" by auto
  then have "notify_loop (min 64 n) [] w = Inr (woken (nat (min 64 n)) w)"
    by (intro notify_loop_once [OF assms]) (auto simp: MaxTotalWaiters_def)
  then show ?thesis
    using assms(2) False n
    by (simp add: notify_def min_values_three MaxWaitersPerBatch_def MaxTotalWaiters_def
        del: min_values.simps)
qed

section \<open>Closing\<close>

lemma close_all_open:
  assumes "distinct cs" "\<forall>c \<in> set cs. \<not> wm_chan_closed w c"
  shows "close_all cs w = Inr (w\<lparr>wm_chan_closed := (\<lambda>c. wm_chan_closed w c \<or> c \<in> set cs)\<rparr>)"
  using assms
proof (induction cs w rule: close_all.induct)
  case (1 w)
  then show ?case by simp
next
  case (2 c cs w)
  let ?w1 = "w\<lparr>wm_chan_closed := (wm_chan_closed w)(c := True)\<rparr>"
  have "close_all cs ?w1 =
      Inr (?w1\<lparr>wm_chan_closed := (\<lambda>d. wm_chan_closed ?w1 d \<or> d \<in> set cs)\<rparr>)"
    by (rule 2) (use 2(2,3) in auto)
  moreover have "(\<lambda>d. wm_chan_closed ?w1 d \<or> d \<in> set cs) = (\<lambda>d. wm_chan_closed w d \<or> d \<in> set (c # cs))"
    by auto
  ultimately have "close_all cs ?w1 =
      Inr (w\<lparr>wm_chan_closed := (\<lambda>d. wm_chan_closed w d \<or> d \<in> set (c # cs))\<rparr>)"
    by (simp only:) simp
  then show ?case using 2(3) by simp
qed

lemma Close_wm_open:
  assumes "wm_inv w" "\<not> wm_closed w"
  shows "Close_wm w = Inr (w\<lparr>wm_closed := True,
    wm_chan_closed := (\<lambda>c. wm_chan_closed w c \<or> c \<in> set (map snd (wm_ws w)))\<rparr>)"
proof -
  have "distinct (map snd (wm_ws w))" and "\<forall>c \<in> set (map snd (wm_ws w)). \<not> wm_chan_closed w c"
    using assms by (simp_all add: wm_inv_def)
  then show ?thesis
    using close_all_open [of "map snd (wm_ws w)" "w\<lparr>wm_closed := True\<rparr>"] by (simp add: Close_wm_def)
qed

lemma Close_wm_inv:
  assumes "wm_inv w" "\<not> wm_closed w" "Close_wm w = Inr w'"
  shows "wm_inv w'"
proof -
  have w': "w' = w\<lparr>wm_closed := True,
      wm_chan_closed := (\<lambda>c. wm_chan_closed w c \<or> c \<in> set (map snd (wm_ws w)))\<rparr>"
    using assms(3) Close_wm_open [OF assms(1,2)] by simp
  have fresh: "c \<notin> set (map snd (wm_ws w))" if "wm_next_chan w \<le> c" for c
    using wm_inv_chan [OF assms(1), of c] that by auto
  show ?thesis
    using assms(1) fresh unfolding wm_inv_def w' by simp
qed

section \<open>Histories\<close>

lemma wm_inv_token_cleared:
  assumes "wm_inv w"
  shows "wm_inv (w\<lparr>wm_token := (wm_token w)(ch := False)\<rparr>)"
proof -
  have "\<not> ((wm_token w)(ch := False)) c" if "\<not> wm_token w c" for c using that by simp
  then show ?thesis using assms unfolding wm_inv_def by simp
qed

lemma chan_recv_inv: "wm_inv w \<Longrightarrow> chan_recv ch w = Some w' \<Longrightarrow> wm_inv w' \<and> wm_closed w' = wm_closed w"
  using wm_inv_token_cleared [of w ch] by (auto simp: chan_recv_def split: if_splits)

datatype wm_op = Register "nat option" | Unregister int | Notify int | Receive nat

fun wm_step :: "wm_op \<Rightarrow> waiter_manager \<Rightarrow> waiter_manager go" where
  "wm_step (Register choice) w = Inr (snd (register choice w))"
| "wm_step (Unregister wid) w = Inr (unregister wid w)"
| "wm_step (Notify n) w = notify n w"
| "wm_step (Receive ch) w = Inr (case chan_recv ch w of None \<Rightarrow> w | Some w' \<Rightarrow> w')"

fun wm_run :: "wm_op list \<Rightarrow> waiter_manager \<Rightarrow> waiter_manager go" where
  "wm_run [] w = Inr w"
| "wm_run (op # ops) w = (case wm_step op w of Inl p \<Rightarrow> Inl p | Inr w' \<Rightarrow> wm_run ops w')"

lemma register_currentID: "wm_currentID (snd (register choice w)) = wrap64 (wm_currentID w + 1)"
  by (auto simp: register_def chan_pool_get_def Let_def split: option.splits)

lemma wm_step_ok:
  assumes "wm_inv w" "\<not> wm_closed w" "wm_currentID w < 2 ^ 63 - 1"
  shows "\<exists>w'. wm_step op w = Inr w' \<and> wm_inv w' \<and> \<not> wm_closed w' \<and> wm_currentID w' \<le> wm_currentID w + 1"
proof (cases op)
  case (Register choice)
  obtain i c w' where r: "register choice w = ((i, c), w')" by (metis prod.exhaust)
  have "0 \<le> wm_currentID w" using assms(1) by (simp add: wm_inv_def)
  then show ?thesis
    using Register r register_inv [OF assms(1,3) r] assms(2,3) register_currentID [of choice w] by simp
next
  case (Unregister wid)
  then show ?thesis
    using unregister_inv [OF assms(1)] assms(2) by (auto simp: unregister_def split: option.splits)
next
  case (Notify n)
  then show ?thesis
    using notify_open [OF assms(1,2)] woken_inv [OF assms(1)] assms(2) by (simp add: woken_def)
next
  case (Receive ch)
  then show ?thesis
    using chan_recv_inv [OF assms(1), of ch] assms by (auto simp: chan_recv_def)
qed

lemma wm_run_ok:
  assumes "wm_inv w" "\<not> wm_closed w" "wm_currentID w + int (length ops) \<le> 2 ^ 63 - 1"
  shows "\<exists>w'. wm_run ops w = Inr w' \<and> wm_inv w' \<and> \<not> wm_closed w' \<and>
    wm_currentID w' \<le> wm_currentID w + int (length ops)"
  using assms
proof (induction ops arbitrary: w)
  case Nil
  then show ?case by simp
next
  case (Cons op ops)
  then obtain w1 where "wm_step op w = Inr w1" "wm_inv w1" "\<not> wm_closed w1" "wm_currentID w1 \<le> wm_currentID w + 1"
    using wm_step_ok [of w op] by auto
  with Cons.IH [of w1] Cons.prems show ?case by fastforce
qed

section \<open>Properties\<close>



text \<open>
  C17: no stale wake-ups and no shared channels. After any history of registrations, cancellations,
  notifications and receives (the manager not closed), none of which panics, a new registration gets
  an identifier that is not in use and a channel that is open, empty and not registered or pooled
  elsewhere.
\<close>

theorem register_fresh_channel:
  assumes "int (length ops) < 2 ^ 63 - 1"
  shows "\<exists>w. wm_run ops newWaiterManager = Inr w \<and>
    (case register choice w of ((wid, ch), w') \<Rightarrow>
       wid \<notin> fst ` set (wm_ws w) \<and> ch \<notin> snd ` set (wm_ws w) \<and> ch \<notin> set (wm_pool w') \<and>
       \<not> wm_token w' ch \<and> \<not> wm_chan_closed w' ch \<and> map_of (wm_ws w') wid = Some ch)"
proof -
  obtain w where w: "wm_run ops newWaiterManager = Inr w" "wm_inv w" "\<not> wm_closed w"
      "wm_currentID w \<le> wm_currentID newWaiterManager + int (length ops)"
    using wm_run_ok [OF wm_inv_new, of ops] assms by (auto simp: newWaiterManager_def)
  then have lim: "wm_currentID w < 2 ^ 63 - 1" using assms by (simp add: newWaiterManager_def)
  obtain wid ch w' where r: "register choice w = ((wid, ch), w')" by (metis prod.exhaust)
  note g = register_inv [OF w(2) lim r]
  have "distinct (map fst (wm_ws w'))" "distinct (map snd (wm_ws w') @ wm_pool w')"
    using conjunct1 [OF g] unfolding wm_inv_def by blast+
  note dist = this
  moreover have "(wid, ch) \<in> set (wm_ws w')" using g by simp
  ultimately have "map_of (wm_ws w') wid = Some ch" by (intro map_of_is_SomeI)
  moreover have "wid \<notin> fst ` set (wm_ws w)" "ch \<notin> snd ` set (wm_ws w)" "ch \<notin> set (wm_pool w')"
    using g dist by auto
  moreover have "\<not> wm_token w' ch" "\<not> wm_chan_closed w' ch" using g w(3) by auto
  ultimately show ?thesis using w(1) r by auto
qed

theorem register_fresh_channel_witness:
  "\<exists>w. wm_run [Register None, Notify 1, Receive 0, Register (Some 0), Unregister 2] newWaiterManager = Inr w \<and>
     (case register (Some 0) w of ((wid, ch), w') \<Rightarrow> \<not> wm_token w' ch)"
  using register_fresh_channel [of "[Register None, Notify 1, Receive 0, Register (Some 0), Unregister 2]" "Some 0"]
  by (auto simp del: wm_run.simps)

text \<open>
  \<open>Close\<close> leaves the registrations in place, so closing a second time while a waiter has not
  unregistered closes its channel again and panics.
\<close>

theorem waiters_double_close_panics:
  assumes "wm_inv w" "\<not> wm_closed w" "wm_ws w \<noteq> []"
  shows "\<exists>w'. Close_wm w = Inr w' \<and> Close_wm w' = Inl CloseOfClosedChannel"
proof -
  obtain x xs where "wm_ws w = x # xs" using assms(3) by (cases "wm_ws w") auto
  then show ?thesis using Close_wm_open [OF assms(1,2)] by (simp add: Close_wm_def)
qed

theorem waiters_double_close_panics_witness:
  "\<exists>w'. Close_wm (snd (register None newWaiterManager)) = Inr w' \<and> Close_wm w' = Inl CloseOfClosedChannel"
proof (rule waiters_double_close_panics)
  obtain w where "wm_run [Register None] newWaiterManager = Inr w" "wm_inv w" "\<not> wm_closed w"
    using wm_run_ok [OF wm_inv_new, of "[Register None]"] by (auto simp: newWaiterManager_def)
  then show "wm_inv (snd (register None newWaiterManager))" "\<not> wm_closed (snd (register None newWaiterManager))"
    by simp_all
  show "wm_ws (snd (register None newWaiterManager)) \<noteq> []" by code_simp
qed

end
