(* ===== verification/Switch_Config.thy ===== *)
theory Switch_Config
  imports TS_Consts
begin

text \<open>
  \<open>src/config/config.go\<close>: the switch configuration that can be replaced while a double buffer is
  running. The one-element notification channel is a flag (a token is waiting or not); a
  \<open>time.Duration\<close> is a number of nanoseconds.

  Shown: only valid configurations are ever stored, a rejected update changes nothing, versions
  count the accepted updates, and a reader that sees the notification finds the latest
  configuration.
\<close>

section \<open>Data and operations\<close>

record switch_config =
  sc_version :: int
  sc_PercentThreshold :: int
  sc_TimeThreshold :: int
  sc_timeThresholdMillis :: int

record switch_condition =
  scd_config :: switch_config
  scd_notify :: bool
  scd_version :: int

text \<open>\<open>Duration.Milliseconds\<close> divides by a million, towards zero.\<close>

definition Milliseconds :: "int \<Rightarrow> int" where
  "Milliseconds d = go_quot d 1000000"

definition validate :: "switch_config \<Rightarrow> ts_error option" where
  "validate sc =
     (if sc_PercentThreshold sc < 0 \<or> sc_PercentThreshold sc > 100 then Some ErrPercentThreshold
      else if sc_TimeThreshold sc < 0 then Some ErrTimeThreshold
      else None)"

definition NewSwitchCondition :: "switch_config \<Rightarrow> ts_error + switch_condition" where
  "NewSwitchCondition config =
     (case validate config of
        Some err \<Rightarrow> Inl err
      | None \<Rightarrow>
          Inr \<lparr>scd_config = config\<lparr>sc_timeThresholdMillis := Milliseconds (sc_TimeThreshold config),
                                    sc_version := 1\<rparr>,
               scd_notify = True, scd_version = 1\<rparr>)"

definition UpdateConfig :: "switch_config \<Rightarrow> switch_condition \<Rightarrow> ts_error option \<times> switch_condition" where
  "UpdateConfig sc s =
     (case validate sc of
        Some err \<Rightarrow> (Some err, s)
      | None \<Rightarrow>
          let v = wrap64 (scd_version s + 1)
          in (None, s\<lparr>scd_version := v,
                      scd_config := sc\<lparr>sc_version := v,
                                      sc_timeThresholdMillis := Milliseconds (sc_TimeThreshold sc)\<rparr>,
                      scd_notify := True\<rparr>))"

definition GetConfig :: "switch_condition \<Rightarrow> switch_config" where
  "GetConfig s = scd_config s"

text \<open>
  \<open>Register\<close> hands out the notification channel; \<open>poll_notify\<close> is the non-blocking receive that
  \<open>needSwitch\<close> performs on it: the token, if any, is consumed.
\<close>

definition poll_notify :: "switch_condition \<Rightarrow> bool \<times> switch_condition" where
  "poll_notify s = (scd_notify s, s\<lparr>scd_notify := False\<rparr>)"

section \<open>Invariant\<close>

definition config_ok :: "switch_config \<Rightarrow> bool" where
  "config_ok c \<longleftrightarrow> 0 \<le> sc_PercentThreshold c \<and> sc_PercentThreshold c \<le> 100 \<and> 0 \<le> sc_TimeThreshold c"

definition scd_inv :: "switch_condition \<Rightarrow> bool" where
  "scd_inv s \<longleftrightarrow> config_ok (scd_config s) \<and> sc_version (scd_config s) = scd_version s \<and>
     sc_timeThresholdMillis (scd_config s) = sc_TimeThreshold (scd_config s) div 1000000"

lemma validate_iff: "validate sc = None \<longleftrightarrow> config_ok sc"
  by (auto simp: validate_def config_ok_def)

lemma Milliseconds_nonneg: "0 \<le> d \<Longrightarrow> Milliseconds d = d div 1000000"
  by (simp add: Milliseconds_def go_quot_nonneg)

lemma NewSwitchCondition_inv: "NewSwitchCondition c = Inr s \<Longrightarrow> scd_inv s"
  by (auto simp: NewSwitchCondition_def scd_inv_def config_ok_def validate_iff Milliseconds_nonneg
      validate_def split: option.splits if_splits)

lemma UpdateConfig_inv: "scd_inv s \<Longrightarrow> scd_inv (snd (UpdateConfig c s))"
  by (auto simp: UpdateConfig_def scd_inv_def config_ok_def Let_def Milliseconds_nonneg
      validate_def split: option.splits if_splits)

text \<open>A sequence of updates, as several callers may issue them.\<close>

fun updates :: "switch_config list \<Rightarrow> switch_condition \<Rightarrow> switch_condition" where
  "updates [] s = s"
| "updates (c # cs) s = updates cs (snd (UpdateConfig c s))"

lemma updates_inv: "scd_inv s \<Longrightarrow> scd_inv (updates cs s)"
  by (induction cs s rule: updates.induct) (auto intro: UpdateConfig_inv)

lemma updates_version:
  "0 \<le> scd_version s \<Longrightarrow> scd_version s + int (length cs) < 2 ^ 63 \<Longrightarrow>
   scd_version (updates cs s) = scd_version s + int (length (filter config_ok cs))"
proof (induction cs s rule: updates.induct)
  case (2 c cs s)
  have v: "scd_version (snd (UpdateConfig c s)) = scd_version s + (if config_ok c then 1 else 0)"
    using 2(2,3) by (auto simp: UpdateConfig_def Let_def validate_iff [symmetric] split: option.splits)
  then show ?case using 2 by simp
qed simp

lemma updates_notify: "scd_notify s \<Longrightarrow> scd_notify (updates cs s)"
  by (induction cs s rule: updates.induct) (auto simp: UpdateConfig_def Let_def split: option.splits)

text \<open>
  After any sequence of updates that ends with a valid configuration, a reader that polls the
  notification channel finds the token, and the configuration it then reads is the last one, with
  its version and its millisecond field set; later invalid updates do not disturb this.
\<close>

theorem update_visible:
  assumes "scd_inv s" "config_ok c" "\<forall>b \<in> set bad. \<not> config_ok b"
  shows "let s' = updates (cs @ c # bad) s
         in fst (poll_notify s') \<and>
            sc_TimeThreshold (GetConfig s') = sc_TimeThreshold c \<and>
            sc_PercentThreshold (GetConfig s') = sc_PercentThreshold c \<and>
            sc_timeThresholdMillis (GetConfig s') = sc_TimeThreshold c div 1000000 \<and>
            sc_version (GetConfig s') = scd_version s' \<and> scd_inv s'"
proof -
  have app: "updates (xs @ ys) t = updates ys (updates xs t)" for xs ys t
    by (induction xs t rule: updates.induct) auto
  have skip: "updates bad t = t" for t
    using assms(3)
    by (induction bad arbitrary: t) (auto simp: UpdateConfig_def validate_iff [symmetric] split: option.splits)
  let ?t = "snd (UpdateConfig c (updates cs s))"
  have "updates (cs @ c # bad) s = ?t" by (simp add: app skip)
  moreover have "scd_inv ?t" using assms(1) by (intro UpdateConfig_inv updates_inv)
  moreover have "validate c = None" using assms(2) by (simp add: validate_iff)
  ultimately show ?thesis
    by (simp add: Let_def poll_notify_def GetConfig_def UpdateConfig_def scd_inv_def config_ok_def)
qed

theorem update_visible_witness:
  "let s = \<lparr>scd_config = \<lparr>sc_version = 1, sc_PercentThreshold = 80, sc_TimeThreshold = 5000000,
                         sc_timeThresholdMillis = 5\<rparr>, scd_notify = False, scd_version = 1\<rparr>;
       c = \<lparr>sc_version = 0, sc_PercentThreshold = 50, sc_TimeThreshold = 7000000,
            sc_timeThresholdMillis = 0\<rparr>;
       b = c\<lparr>sc_PercentThreshold := 101\<rparr>;
       s' = updates ([b] @ c # [b]) s
   in fst (poll_notify s') \<and> sc_timeThresholdMillis (GetConfig s') = 7"
  using update_visible
    [of "\<lparr>scd_config = \<lparr>sc_version = 1, sc_PercentThreshold = 80, sc_TimeThreshold = 5000000,
            sc_timeThresholdMillis = 5\<rparr>, scd_notify = False, scd_version = 1\<rparr>"
        "\<lparr>sc_version = 0, sc_PercentThreshold = 50, sc_TimeThreshold = 7000000,
            sc_timeThresholdMillis = 0\<rparr>"
        "[\<lparr>sc_version = 0, sc_PercentThreshold = 101, sc_TimeThreshold = 7000000,
            sc_timeThresholdMillis = 0\<rparr>]"
        "[\<lparr>sc_version = 0, sc_PercentThreshold = 101, sc_TimeThreshold = 7000000,
            sc_timeThresholdMillis = 0\<rparr>]"]
  by (simp add: Let_def scd_inv_def config_ok_def del: updates.simps)

end
