(* ===== verification/Float64.thy ===== *)
theory Float64
  imports TS_Prelude Complex_Main "HOL-Library.Log_Nat"
begin

text \<open>
  Go's \<open>float64\<close>: IEEE 754 binary64 with round-to-nearest-even, as the extended rationals that the
  format can represent. Finite values are rationals; \<open>round64\<close> rounds to 53 significant bits with
  the gradual underflow of exponents below -1022, and a rounded magnitude of \<open>2 ^ 1024\<close> or more is
  an infinity. The sign of a zero is not kept: no operation of the modelled sources divides by a
  negative zero or inspects a sign.

  Shown: rounding is monotone, exact on representable numbers that occur as constants, and has a
  relative error of at most \<open>2 ^ -53\<close> in the normal range.
\<close>

section \<open>Rounding\<close>

definition pow2 :: "int \<Rightarrow> rat" where
  "pow2 e = (if 0 \<le> e then 2 ^ nat e else 1 / 2 ^ nat (- e))"

text \<open>The exponent \<open>e\<close> of a positive rational, \<open>2 ^ e \<le> x < 2 ^ (e + 1)\<close>.\<close>

definition expo :: "rat \<Rightarrow> int" where
  "expo x = (let (p, q) = quotient_of x; e = bitlen p - bitlen q
             in if pow2 e \<le> x then e else e - 1)"

text \<open>Nearest integer, ties to even.\<close>

definition rne :: "rat \<Rightarrow> int" where
  "rne x = (let f = \<lfloor>x\<rfloor>; d = x - of_int f
            in if d < 1 / 2 then f else if d > 1 / 2 then f + 1
               else if even f then f else f + 1)"

text \<open>Spacing of the representable numbers around \<open>x\<close>.\<close>

definition ulp :: "rat \<Rightarrow> rat" where
  "ulp x = pow2 (max (expo \<bar>x\<bar> - 52) (- 1074))"

definition round64 :: "rat \<Rightarrow> rat" where
  "round64 x = (if x = 0 then 0 else of_int (rne (x / ulp x)) * ulp x)"

section \<open>Values and operations\<close>

datatype f64 = Fin rat | PInf | NInf | NaN

definition to_f64 :: "rat \<Rightarrow> f64" where
  "to_f64 x = (let r = round64 x
               in if r \<ge> pow2 1024 then PInf else if r \<le> - pow2 1024 then NInf else Fin r)"

definition f64_of_int :: "int \<Rightarrow> f64" where
  "f64_of_int n = to_f64 (of_int n)"

fun f64_neg :: "f64 \<Rightarrow> f64" where
  "f64_neg (Fin x) = Fin (- x)"
| "f64_neg PInf = NInf"
| "f64_neg NInf = PInf"
| "f64_neg NaN = NaN"

fun f64_add :: "f64 \<Rightarrow> f64 \<Rightarrow> f64" where
  "f64_add (Fin x) (Fin y) = to_f64 (x + y)"
| "f64_add NaN _ = NaN"
| "f64_add _ NaN = NaN"
| "f64_add PInf NInf = NaN"
| "f64_add NInf PInf = NaN"
| "f64_add PInf _ = PInf"
| "f64_add _ PInf = PInf"
| "f64_add NInf _ = NInf"
| "f64_add _ NInf = NInf"

definition inf_sign :: "rat \<Rightarrow> f64" where
  "inf_sign x = (if x = 0 then NaN else if x > 0 then PInf else NInf)"

fun f64_mul :: "f64 \<Rightarrow> f64 \<Rightarrow> f64" where
  "f64_mul (Fin x) (Fin y) = to_f64 (x * y)"
| "f64_mul NaN _ = NaN"
| "f64_mul _ NaN = NaN"
| "f64_mul (Fin x) PInf = inf_sign x"
| "f64_mul (Fin x) NInf = inf_sign (- x)"
| "f64_mul PInf (Fin x) = inf_sign x"
| "f64_mul NInf (Fin x) = inf_sign (- x)"
| "f64_mul PInf PInf = PInf"
| "f64_mul NInf NInf = PInf"
| "f64_mul PInf NInf = NInf"
| "f64_mul NInf PInf = NInf"

fun f64_div :: "f64 \<Rightarrow> f64 \<Rightarrow> f64" where
  "f64_div (Fin x) (Fin y) = (if y = 0 then inf_sign x else to_f64 (x / y))"
| "f64_div NaN _ = NaN"
| "f64_div _ NaN = NaN"
| "f64_div (Fin x) _ = Fin 0"
| "f64_div PInf (Fin x) = (if x \<ge> 0 then PInf else NInf)"
| "f64_div NInf (Fin x) = (if x \<ge> 0 then NInf else PInf)"
| "f64_div _ _ = NaN"

fun f64_ge :: "f64 \<Rightarrow> f64 \<Rightarrow> bool" where
  "f64_ge (Fin x) (Fin y) = (x \<ge> y)"
| "f64_ge NaN _ = False"
| "f64_ge _ NaN = False"
| "f64_ge PInf _ = True"
| "f64_ge _ PInf = False"
| "f64_ge _ NInf = True"
| "f64_ge NInf _ = False"

text \<open>
  The conversion \<open>int64(x)\<close>: truncation towards zero. The language leaves the result open when the
  value does not fit, which is \<open>None\<close> here.
\<close>

fun f64_to_int64 :: "f64 \<Rightarrow> int option" where
  "f64_to_int64 (Fin x) =
     (let n = (if x \<ge> 0 then \<lfloor>x\<rfloor> else \<lceil>x\<rceil>) in if is_int64 n then Some n else None)"
| "f64_to_int64 _ = None"

section \<open>Powers of two and exponents\<close>

lemma pow2_pos [simp]: "0 < pow2 e"
  by (simp add: pow2_def)

lemma pow2_nonneg [simp]: "0 \<le> pow2 e" and pow2_nonzero [simp]: "pow2 e \<noteq> 0"
  using pow2_pos [of e] by linarith+

lemma abs_pow2 [simp]: "\<bar>pow2 e\<bar> = pow2 e"
  by (simp add: less_imp_le)

lemma pow2_powi: "pow2 e = 2 powi e"
  by (simp add: pow2_def power_int_def inverse_eq_divide power_one_over)

lemma pow2_add: "pow2 (a + b) = pow2 a * pow2 b"
  by (simp add: pow2_powi power_int_add)

lemma pow2_mono: "a \<le> b \<Longrightarrow> pow2 a \<le> pow2 b"
  by (simp add: pow2_powi power_int_increasing)

lemma pow2_int: "0 \<le> e \<Longrightarrow> pow2 e = of_int (2 ^ nat e)"
  by (simp add: pow2_def)

lemma pow2_less_iff: "pow2 a < pow2 b \<longleftrightarrow> a < b"
  by (metis linorder_not_le pow2_mono pow2_powi power_int_strict_increasing one_less_numeral_iff
      semiring_norm(76) verit_comp_simplify1(3))

lemma bitlen_pow2:
  assumes "0 < n"
  shows "pow2 (bitlen n - 1) \<le> of_int n" "of_int n < pow2 (bitlen n)"
proof -
  have b: "1 \<le> bitlen n" using assms by (metis bitlen_le_iff_power bitlen_nonneg int_one_le_iff_zero_less
      linorder_not_le nat_0_iff power_0 verit_la_disequality zero_less_one_class.zero_le_one)
  have "2 ^ nat (bitlen n - 1) \<le> n" "n < 2 ^ nat (bitlen n)"
    using bitlen_bounds [OF assms] by auto
  then have "(of_int (2 ^ nat (bitlen n - 1)) :: rat) \<le> of_int n" "(of_int n :: rat) < of_int (2 ^ nat (bitlen n))"
    by (simp_all only: of_int_le_iff of_int_less_iff)
  then show "pow2 (bitlen n - 1) \<le> of_int n" "of_int n < pow2 (bitlen n)"
    using b by (simp_all add: pow2_def)
qed

lemma expo_bounds:
  assumes "0 < x"
  shows "pow2 (expo x) \<le> x" "x < pow2 (expo x + 1)"
proof -
  obtain p q where pq: "quotient_of x = (p, q)" by (cases "quotient_of x")
  have q: "0 < q" and x: "x = of_int p / of_int q"
    using quotient_of_denom_pos [OF pq] quotient_of_div [OF pq] by auto
  have p: "0 < p" using assms x q by (simp add: zero_less_divide_iff)
  let ?e = "bitlen p - bitlen q"
  have "of_int p / of_int q < pow2 (bitlen p) / pow2 (bitlen q - 1)"
    using bitlen_pow2 [OF p] bitlen_pow2 [OF q] p q by (intro frac_less) auto
  moreover have "pow2 (bitlen p) / pow2 (bitlen q - 1) = pow2 (?e + 1)"
    by (simp add: pow2_powi power_int_diff power_int_add)
  ultimately have up: "x < pow2 (?e + 1)" using x by simp
  have "pow2 (bitlen p - 1) / pow2 (bitlen q) < of_int p / of_int q"
    using bitlen_pow2 [OF p] bitlen_pow2 [OF q] p q by (intro frac_less2) auto
  moreover have "pow2 (bitlen p - 1) / pow2 (bitlen q) = pow2 (?e - 1)"
    by (simp add: pow2_powi power_int_diff)
  ultimately have lo: "pow2 (?e - 1) < x" using x by simp
  show "pow2 (expo x) \<le> x" "x < pow2 (expo x + 1)"
    using up lo by (auto simp: expo_def pq Let_def)
qed

lemma expo_mono: "0 < x \<Longrightarrow> x \<le> y \<Longrightarrow> expo x \<le> expo y"
  using expo_bounds [of x] expo_bounds [of y] pow2_mono [of "expo y + 1" "expo x"] by linarith

section \<open>Rounding to the nearest integer\<close>

lemma rne_of_int [simp]: "rne (of_int n) = n"
  by (simp add: rne_def)

lemma rne_error: "\<bar>of_int (rne x) - x\<bar> \<le> 1 / 2"
  using floor_correct [of x] by (auto simp: rne_def Let_def)

lemma rne_floor: "rne x = \<lfloor>x\<rfloor> \<or> rne x = \<lfloor>x\<rfloor> + 1"
  by (auto simp: rne_def Let_def)

lemma rne_mono:
  assumes "x \<le> y"
  shows "rne x \<le> rne y"
proof (cases "\<lfloor>x\<rfloor> = \<lfloor>y\<rfloor>")
  case True
  then show ?thesis using assms by (auto simp: rne_def Let_def)
next
  case False
  then have "\<lfloor>x\<rfloor> + 1 \<le> \<lfloor>y\<rfloor>" using assms by (metis floor_mono order_le_less zless_imp_add1_zle)
  then show ?thesis using rne_floor [of x] rne_floor [of y] by auto
qed

lemma rne_minus: "rne (- x) = - rne x"
proof (cases "x \<in> \<int>")
  case True
  then obtain n where "x = of_int n" by (auto elim: Ints_cases)
  then show ?thesis by (metis of_int_minus rne_of_int)
next
  case False
  then have fl: "\<lfloor>- x\<rfloor> = - \<lfloor>x\<rfloor> - 1"
    by (metis Ints_of_int ceiling_def ceiling_altdef add_uminus_conv_diff diff_add_cancel
        minus_add_distrib uminus_add_conv_diff add.inverse_inverse)
  show ?thesis unfolding rne_def Let_def fl by (auto simp: algebra_simps)
qed

section \<open>Rounding of rationals\<close>

text \<open>
  A bound that is a multiple of the spacing survives rounding.
\<close>

lemma grid_le: "0 < u \<Longrightarrow> x \<le> of_int k * u \<Longrightarrow> of_int (rne (x / u)) * u \<le> of_int k * u"
proof -
  assume u: "0 < u" and x: "x \<le> of_int k * u"
  then have "x / u \<le> of_int k" by (simp add: divide_le_eq)
  then have "rne (x / u) \<le> rne (of_int k)" by (rule rne_mono)
  then show ?thesis using u by simp
qed

lemma grid_ge: "0 < u \<Longrightarrow> of_int k * u \<le> x \<Longrightarrow> of_int k * u \<le> of_int (rne (x / u)) * u"
proof -
  assume u: "0 < u" and x: "of_int k * u \<le> x"
  then have "of_int k \<le> x / u" by (simp add: le_divide_eq)
  then have "rne (of_int k) \<le> rne (x / u)" by (rule rne_mono)
  then show ?thesis using u by simp
qed

lemma ulp_pos [simp]: "0 < ulp x"
  by (simp add: ulp_def)

lemma ulp_nonneg [simp]: "0 \<le> ulp x" and ulp_nonzero [simp]: "ulp x \<noteq> 0"
  using ulp_pos [of x] by linarith+

lemma abs_ulp [simp]: "\<bar>ulp x\<bar> = ulp x"
  by (simp add: ulp_def)

lemma round64_0 [simp]: "round64 0 = 0"
  by (simp add: round64_def)

lemma round64_minus: "round64 (- x) = - round64 x"
  by (simp add: round64_def ulp_def rne_minus minus_divide_left [symmetric])

lemma pow2_multiple: "a \<le> b \<Longrightarrow> \<exists>k. pow2 b = of_int k * pow2 a"
  using pow2_add [of "b - a" a] pow2_int [of "b - a"] by (auto intro!: exI [of _ "2 ^ nat (b - a)"])

lemma round64_mono_pos:
  assumes "0 < x" "x \<le> y"
  shows "round64 x \<le> round64 y"
proof -
  let ?a = "max (expo x - 52) (- 1074)" and ?b = "max (expo y - 52) (- 1074)"
  have r: "round64 x = of_int (rne (x / pow2 ?a)) * pow2 ?a" "round64 y = of_int (rne (y / pow2 ?b)) * pow2 ?b"
    using assms by (simp_all add: round64_def ulp_def)
  have ab: "expo x \<le> expo y" using expo_mono [OF assms] .
  show ?thesis
  proof (cases "?a = ?b")
    case True
    have "rne (x / pow2 ?b) \<le> rne (y / pow2 ?b)"
      using assms(2) by (intro rne_mono divide_right_mono) (auto intro: less_imp_le)
    then show ?thesis using r True by (simp add: less_imp_le)
  next
    case False
    then have e: "expo x + 1 \<le> expo y" "?a \<le> expo y" "?b \<le> expo y" using ab by auto
    obtain k where k: "pow2 (expo y) = of_int k * pow2 ?a" using pow2_multiple [OF e(2)] by blast
    obtain l where l: "pow2 (expo y) = of_int l * pow2 ?b" using pow2_multiple [OF e(3)] by blast
    have "x \<le> pow2 (expo y)"
      using expo_bounds(2) [OF assms(1)] pow2_mono [OF e(1)] by linarith
    then have "round64 x \<le> pow2 (expo y)" using grid_le [of "pow2 ?a" x k] k r(1) by simp
    moreover have "pow2 (expo y) \<le> y" using expo_bounds(1) assms by simp
    then have "pow2 (expo y) \<le> round64 y" using grid_ge [of "pow2 ?b" l y] l r(2) by simp
    ultimately show ?thesis by linarith
  qed
qed

lemma round64_nonneg: "0 \<le> x \<Longrightarrow> 0 \<le> round64 x"
  using grid_ge [of "ulp x" 0 x] by (auto simp: round64_def)

lemma round64_mono:
  assumes "x \<le> y"
  shows "round64 x \<le> round64 y"
proof -
  consider "0 < x" | "x \<le> 0" "0 \<le> y" | "y < 0" using assms by linarith
  then show ?thesis
  proof cases
    case 1
    then show ?thesis using assms by (rule round64_mono_pos)
  next
    case 2
    then have "0 \<le> round64 (- x)" "0 \<le> round64 y" by (auto intro: round64_nonneg)
    then show ?thesis by (simp add: round64_minus)
  next
    case 3
    then have "round64 (- y) \<le> round64 (- x)" using assms by (intro round64_mono_pos) auto
    then show ?thesis by (simp add: round64_minus)
  qed
qed

text \<open>Relative error, in the normal range.\<close>

lemma round64_error:
  assumes "pow2 (- 1022) \<le> \<bar>x\<bar>"
  shows "\<bar>round64 x - x\<bar> \<le> pow2 (- 53) * \<bar>x\<bar>"
proof -
  have x: "0 < \<bar>x\<bar>" using assms pow2_pos [of "- 1022"] by linarith
  then have x0: "x \<noteq> 0" by simp
  have "- 1022 < expo \<bar>x\<bar> + 1"
    using assms expo_bounds(2) [OF x] pow2_less_iff [of "- 1022" "expo \<bar>x\<bar> + 1"] by linarith
  then have u: "ulp x = pow2 (expo \<bar>x\<bar> - 52)" by (simp add: ulp_def)
  have "ulp x \<noteq> 0" using ulp_pos [of x] by linarith
  then have "round64 x - x = (of_int (rne (x / ulp x)) - x / ulp x) * ulp x"
    using x0 by (simp add: round64_def left_diff_distrib)
  then have "\<bar>round64 x - x\<bar> = \<bar>of_int (rne (x / ulp x)) - x / ulp x\<bar> * ulp x"
    by (simp add: abs_mult)
  also have "\<dots> \<le> 1 / 2 * ulp x"
    using rne_error [of "x / ulp x"] ulp_pos [of x] by (intro mult_right_mono) auto
  also have "\<dots> = pow2 (- 53) * pow2 (expo \<bar>x\<bar>)"
    unfolding u by (simp add: pow2_powi power_int_diff power_int_minus field_simps)
  also have "\<dots> \<le> pow2 (- 53) * \<bar>x\<bar>"
    using expo_bounds(1) [OF x] by (intro mult_left_mono) (auto intro: less_imp_le)
  finally show ?thesis .
qed

text \<open>Numbers of at most 53 significant bits are represented exactly.\<close>

lemma round64_exact:
  assumes "\<bar>k\<bar> \<le> 2 ^ 53" "- 1074 \<le> e"
  shows "round64 (of_int k * pow2 e) = of_int k * pow2 e"
proof (cases "k = 0")
  case False
  let ?x = "of_int k * pow2 e :: rat"
  have ax: "\<bar>?x\<bar> = of_int \<bar>k\<bar> * pow2 e" by (simp add: abs_mult)
  have x: "0 < \<bar>?x\<bar>" using False pow2_pos [of e] by simp
  have "of_int \<bar>k\<bar> \<le> (2 ^ 53 :: rat)"
    using assms(1) by (metis of_int_le_iff of_int_numeral of_int_power)
  then have "\<bar>?x\<bar> \<le> 2 ^ 53 * pow2 e"
    unfolding ax by (intro mult_right_mono) (auto intro: less_imp_le)
  also have "\<dots> = pow2 (53 + e)" unfolding pow2_add by (simp add: pow2_def)
  finally have le: "\<bar>?x\<bar> \<le> pow2 (53 + e)" .
  have bound: "expo \<bar>?x\<bar> \<le> 53 + e"
    using expo_bounds(1) [OF x] le pow2_less_iff [of "53 + e" "expo \<bar>?x\<bar>"] by linarith
  have "\<exists>j. ?x = of_int j * ulp ?x"
  proof (cases "expo \<bar>?x\<bar> = 53 + e")
    case True
    then have "\<bar>?x\<bar> = pow2 (53 + e)" using le expo_bounds(1) [OF x] by simp
    then have "?x = pow2 (53 + e) \<or> ?x = - pow2 (53 + e)" by linarith
    moreover have "ulp ?x = pow2 (1 + e)" using True assms(2) by (simp add: ulp_def)
    moreover obtain j where "pow2 (53 + e) = of_int j * pow2 (1 + e)"
      using pow2_multiple [of "1 + e" "53 + e"] by auto
    ultimately show ?thesis by (metis mult_minus_left of_int_minus)
  next
    case False
    then have "max (expo \<bar>?x\<bar> - 52) (- 1074) \<le> e" using bound assms(2) by simp
    then obtain j where "pow2 e = of_int j * ulp ?x" using pow2_multiple unfolding ulp_def by blast
    then have "?x = of_int (k * j) * ulp ?x" by (simp add: mult.assoc)
    then show ?thesis by blast
  qed
  then obtain j where j: "?x = of_int j * ulp ?x" by blast
  have "?x / ulp ?x = of_int j" using j ulp_pos [of ?x] by (simp add: field_simps)
  then have "round64 ?x = of_int j * ulp ?x" using x by (simp add: round64_def)
  then show ?thesis using j by simp
qed simp

text \<open>A rounded value is representable.\<close>

lemma round64_idem: "round64 (round64 x) = round64 x"
proof (cases "x = 0")
  case False
  let ?m = "max (expo \<bar>x\<bar> - 52) (- 1074)" and ?y = "x / ulp x"
  have "\<bar>x\<bar> < pow2 (expo \<bar>x\<bar> + 1)" using expo_bounds(2) [of "\<bar>x\<bar>"] False by simp
  also have "\<dots> \<le> pow2 (53 + ?m)" by (rule pow2_mono) simp
  also have "\<dots> = 2 ^ 53 * ulp x" unfolding pow2_add ulp_def by (simp add: pow2_def)
  finally have "\<bar>?y\<bar> \<le> of_int (2 ^ 53)" using ulp_pos [of x] by (simp add: divide_le_eq)
  then have y: "?y \<le> of_int (2 ^ 53)" "of_int (- (2 ^ 53)) \<le> ?y" unfolding of_int_minus by linarith+
  have "\<bar>rne ?y\<bar> \<le> 2 ^ 53"
    using rne_mono [OF y(1)] rne_mono [OF y(2)] unfolding rne_of_int by linarith
  then have "round64 (of_int (rne ?y) * pow2 ?m) = of_int (rne ?y) * pow2 ?m" by (rule round64_exact) simp
  then show ?thesis using False by (simp add: round64_def [of x] ulp_def)
qed simp

lemma round64_of_int: "\<bar>k\<bar> \<le> 2 ^ 53 \<Longrightarrow> round64 (of_int k) = of_int k"
  using round64_exact [of k 0] by (simp add: pow2_def)

lemma round64_numeral_bounds:
  "\<bar>k\<bar> \<le> 2 ^ 53 \<Longrightarrow> x \<le> of_int k \<Longrightarrow> round64 x \<le> of_int k"
  "\<bar>k\<bar> \<le> 2 ^ 53 \<Longrightarrow> of_int k \<le> x \<Longrightarrow> of_int k \<le> round64 x"
  using round64_mono [of x "of_int k"] round64_mono [of "of_int k" x] round64_of_int [of k] by auto

text \<open>No overflow below \<open>2 ^ 200\<close>, far above every quantity of the sources.\<close>

lemma to_f64_finite:
  assumes "\<bar>x\<bar> \<le> pow2 200"
  shows "to_f64 x = Fin (round64 x)"
proof -
  have e: "round64 (pow2 200) = pow2 200" using round64_exact [of 1 200] by simp
  have lt: "pow2 200 < pow2 1024" by (simp only: pow2_less_iff)
  have "round64 x \<le> round64 (pow2 200)" "round64 (- pow2 200) \<le> round64 x"
    using assms by (auto intro!: round64_mono)
  then have "round64 x < pow2 1024" "- pow2 1024 < round64 x"
    using e lt by (auto simp: round64_minus)
  then show ?thesis by (simp add: to_f64_def)
qed

lemma f64_of_int_exact:
  assumes "\<bar>n\<bar> \<le> 2 ^ 53"
  shows "f64_of_int n = Fin (of_int n)"
proof -
  have "\<bar>of_int n :: rat\<bar> \<le> 2 ^ 53"
    using assms by (metis of_int_abs of_int_le_iff of_int_numeral of_int_power)
  also have "(2 ^ 53 :: rat) \<le> pow2 200" using pow2_mono [of 53 200] by (simp add: pow2_def)
  finally show ?thesis using assms by (simp add: f64_of_int_def to_f64_finite round64_of_int)
qed

end
