(* ===== verification/Switch_Strategy.thy ===== *)
theory Switch_Strategy
  imports TS_Consts Float64
begin

text \<open>
  \<open>src/core/switch_strategy.go\<close> and the weights of \<open>src/const.go\<close>: when the double buffer is to be
  switched. Counts and sizes are \<open>int32\<close> values, durations \<open>int64\<close> nanoseconds; the combined factor
  is computed in \<open>float64\<close> with one rounding per operation (the Go specification also lets a
  compiler fuse the last multiplication and addition, with one rounding fewer).

  Shown: which conditions force a switch, which exclude it, that the decision is monotone in the
  count and in the elapsed time for every strategy (locale \<open>switch_strategy\<close>), and that it agrees
  with the exact formula \<open>0.4 * elapsed / interval + 0.6 * count / size \<ge> 0.85\<close> outside a band of
  width \<open>2 ^ -49\<close> around the threshold.
\<close>

section \<open>Constants and strategies\<close>

definition SizeWeight :: f64 where "SizeWeight = to_f64 (6 / 10)"
definition TimeWeight :: f64 where "TimeWeight = to_f64 (4 / 10)"
definition FullCapacity :: f64 where "FullCapacity = to_f64 (85 / 100)"

definition MinBufferSize :: int where "MinBufferSize = 1"

definition Default_needSwitch :: "int \<Rightarrow> int \<Rightarrow> int \<Rightarrow> int \<Rightarrow> bool" where
  "Default_needSwitch currentCount bufferSize elapsed interval =
     (let bufferSize = (if bufferSize < MinBufferSize then MinBufferSize else bufferSize)
      in if currentCount \<ge> bufferSize then True
         else if elapsed \<ge> interval then True
         else let countFactor = f64_div (f64_of_int currentCount) (f64_of_int bufferSize);
                  switchFactor = f64_div (f64_of_int elapsed) (f64_of_int interval);
                  combined = f64_add (f64_mul TimeWeight switchFactor) (f64_mul SizeWeight countFactor)
              in f64_ge combined FullCapacity)"

definition SizeOnly_needSwitch :: "int \<Rightarrow> int \<Rightarrow> int \<Rightarrow> int \<Rightarrow> bool" where
  "SizeOnly_needSwitch currentCount bufferSize _ _ \<longleftrightarrow> currentCount \<ge> bufferSize"

definition TimeWindowOnly_needSwitch :: "int \<Rightarrow> int \<Rightarrow> int \<Rightarrow> int \<Rightarrow> bool" where
  "TimeWindowOnly_needSwitch _ _ elapsed interval \<longleftrightarrow> elapsed \<ge> interval"

datatype strategy = DefaultStrategy | SizeOnlyStrategy | TimeWindowOnlyStrategy

fun strategy_needSwitch :: "strategy \<Rightarrow> int \<Rightarrow> int \<Rightarrow> int \<Rightarrow> int \<Rightarrow> bool" where
  "strategy_needSwitch DefaultStrategy = Default_needSwitch"
| "strategy_needSwitch SizeOnlyStrategy = SizeOnly_needSwitch"
| "strategy_needSwitch TimeWindowOnlyStrategy = TimeWindowOnly_needSwitch"

section \<open>The contract of a strategy\<close>

text \<open>
  A strategy is asked again and again while the active buffer fills and time passes. Its contract:
  the answer never changes from yes to no while count and elapsed time grow. A switch that had to
  be skipped is therefore requested again at the next check.
\<close>

locale switch_strategy =
  fixes need :: "int \<Rightarrow> int \<Rightarrow> int \<Rightarrow> int \<Rightarrow> bool"
  assumes need_mono:
    "is_int32 n \<Longrightarrow> 0 < i \<Longrightarrow> is_int64 i \<Longrightarrow> 0 \<le> c \<Longrightarrow> c \<le> c' \<Longrightarrow> is_int32 c' \<Longrightarrow>
     0 \<le> e \<Longrightarrow> e \<le> e' \<Longrightarrow> is_int64 e' \<Longrightarrow> need c n e i \<Longrightarrow> need c' n e' i"
begin

text \<open>Successive observations \<open>(count, elapsed)\<close> of one filling phase.\<close>

fun growing :: "int \<Rightarrow> int \<Rightarrow> (int \<times> int) list \<Rightarrow> bool" where
  "growing c e [] = True"
| "growing c e ((c', e') # obs) =
     (c \<le> c' \<and> e \<le> e' \<and> is_int32 c' \<and> is_int64 e' \<and> growing c' e' obs)"

lemma need_persists:
  assumes "is_int32 n" "0 < i" "is_int64 i"
  shows "0 \<le> c \<Longrightarrow> 0 \<le> e \<Longrightarrow> need c n e i \<Longrightarrow> growing c e obs \<Longrightarrow>
     (c', e') \<in> set obs \<Longrightarrow> need c' n e' i"
proof (induction obs arbitrary: c e)
  case (Cons o1 obs)
  obtain c1 e1 where o1: "o1 = (c1, e1)" by (cases o1)
  with Cons.prems have g: "c \<le> c1" "e \<le> e1" "is_int32 c1" "is_int64 e1" "growing c1 e1 obs"
    by auto
  have n1: "need c1 n e1 i"
    by (rule need_mono [OF assms Cons.prems(1) g(1,3) Cons.prems(2) g(2,4) Cons.prems(3)])
  show ?case
  proof (cases "(c', e') = (c1, e1)")
    case True
    then show ?thesis using n1 by simp
  next
    case False
    then show ?thesis
      using Cons.IH [of c1 e1] Cons.prems g n1 o1 by auto
  qed
qed simp

end

section \<open>The combined factor on rationals\<close>

definition tw :: rat where "tw = round64 (4 / 10)"
definition sw :: rat where "sw = round64 (6 / 10)"
definition fc :: rat where "fc = round64 (85 / 100)"

definition time_part :: "int \<Rightarrow> int \<Rightarrow> rat" where
  "time_part e i = round64 (tw * round64 (round64 (of_int e) / round64 (of_int i)))"

definition size_part :: "int \<Rightarrow> int \<Rightarrow> rat" where
  "size_part c n = round64 (sw * round64 (of_int c / of_int n))"

lemma weights_exact:
  "tw = 3602879701896397 / 9007199254740992" "sw = 5404319552844595 / 9007199254740992"
  "fc = 7656119366529843 / 9007199254740992"
  unfolding tw_def sw_def fc_def by code_simp+

lemma weights_f64: "TimeWeight = Fin tw" "SizeWeight = Fin sw" "FullCapacity = Fin fc"
proof -
  have "(1::rat) \<le> pow2 200" using pow2_mono [of 0 200] by (simp add: pow2_def)
  then show "TimeWeight = Fin tw" "SizeWeight = Fin sw" "FullCapacity = Fin fc"
    unfolding TimeWeight_def SizeWeight_def FullCapacity_def tw_def sw_def fc_def
    by (simp_all add: to_f64_finite)
qed

lemma pow2_200_ge: "x \<le> 2 ^ 64 \<Longrightarrow> x \<le> pow2 200"
  using pow2_mono [of 64 200] by (simp add: pow2_def)

lemma round64_unit: "0 \<le> x \<Longrightarrow> x \<le> 1 \<Longrightarrow> 0 \<le> round64 x \<and> round64 x \<le> 1"
  using round64_numeral_bounds [of 1 x] round64_nonneg [of x] by simp

lemma f64_of_int_range:
  assumes "\<bar>n\<bar> \<le> 2 ^ 63"
  shows "f64_of_int n = Fin (round64 (of_int n))"
proof -
  have "\<bar>of_int n :: rat\<bar> \<le> 2 ^ 63"
    using assms by (metis of_int_abs of_int_le_iff of_int_numeral of_int_power)
  then have "\<bar>of_int n :: rat\<bar> \<le> 2 ^ 64" by simp
  then show ?thesis by (simp add: f64_of_int_def to_f64_finite pow2_200_ge)
qed

lemma interval_round: "0 < i \<Longrightarrow> (1::rat) \<le> round64 (of_int i)"
  using round64_numeral_bounds(2) [of 1 "of_int i"] by simp

lemma factors_unit:
  assumes "0 \<le> c" "c \<le> n" "0 < n" "0 \<le> e" "e \<le> i" "0 < i"
  shows "0 \<le> time_part e i \<and> time_part e i \<le> tw \<and> 0 \<le> size_part c n \<and> size_part c n \<le> sw"
    and "0 \<le> round64 (of_int e) / round64 (of_int i) \<and> round64 (of_int e) / round64 (of_int i) \<le> (1::rat)"
    and "0 \<le> (of_int c / of_int n :: rat) \<and> of_int c / of_int n \<le> (1::rat)"
proof -
  have ri: "(1::rat) \<le> round64 (of_int i)" using interval_round assms(6) .
  have re: "0 \<le> round64 (of_int e :: rat)" "round64 (of_int e) \<le> round64 (of_int i :: rat)"
    using assms by (auto intro!: round64_nonneg round64_mono)
  then show q: "0 \<le> round64 (of_int e) / round64 (of_int i) \<and> round64 (of_int e) / round64 (of_int i) \<le> (1::rat)"
    using ri by (simp add: divide_le_eq)
  show r: "0 \<le> (of_int c / of_int n :: rat) \<and> of_int c / of_int n \<le> (1::rat)"
    using assms by (simp add: divide_le_eq)
  have tw: "0 \<le> tw" "round64 tw = tw" and sw: "0 \<le> sw" "round64 sw = sw"
    using round64_exact [of 3602879701896397 "- 53"] round64_exact [of 5404319552844595 "- 53"]
    by (simp_all add: weights_exact pow2_def)
  have "tw * round64 (round64 (of_int e) / round64 (of_int i)) \<le> tw * 1"
    using q tw(1) round64_unit by (intro mult_left_mono) auto
  then have "time_part e i \<le> tw" using round64_mono tw(2) unfolding time_part_def by fastforce
  moreover have "sw * round64 (of_int c / of_int n) \<le> sw * 1"
    using r sw(1) round64_unit by (intro mult_left_mono) auto
  then have "size_part c n \<le> sw" using round64_mono sw(2) unfolding size_part_def by fastforce
  ultimately show "0 \<le> time_part e i \<and> time_part e i \<le> tw \<and> 0 \<le> size_part c n \<and> size_part c n \<le> sw"
    using q r tw sw round64_unit by (simp add: time_part_def size_part_def round64_nonneg)
qed

lemma Default_below:
  assumes "0 \<le> c" "c < n" "n < 2 ^ 31" "0 \<le> e" "e < i" "i < 2 ^ 63"
  shows "Default_needSwitch c n e i \<longleftrightarrow> fc \<le> round64 (time_part e i + size_part c n)"
proof -
  have u: "0 \<le> time_part e i \<and> time_part e i \<le> tw \<and> 0 \<le> size_part c n \<and> size_part c n \<le> sw"
    and q: "0 \<le> round64 (of_int e) / round64 (of_int i) \<and> round64 (of_int e) / round64 (of_int i) \<le> (1::rat)"
    and r: "0 \<le> (of_int c / of_int n :: rat) \<and> of_int c / of_int n \<le> (1::rat)"
    using factors_unit [of c n e i] assms by auto
  have ri: "(1::rat) \<le> round64 (of_int i)" using interval_round [of i] assms by simp
  have t01: "tw \<le> 1" "0 \<le> tw" "sw \<le> 1" "0 \<le> sw" "tw + sw \<le> 1" by (simp_all add: weights_exact)
  have small: "x \<le> 1 \<Longrightarrow> 0 \<le> x \<Longrightarrow> to_f64 x = Fin (round64 x)" for x
    by (intro to_f64_finite) (auto intro!: pow2_200_ge)
  have prod: "0 \<le> a * round64 x \<and> a * round64 x \<le> 1" if "0 \<le> a" "a \<le> 1" "0 \<le> x" "x \<le> 1" for a x
    using that round64_unit [of x] by (simp add: mult_le_one)
  have ints: "f64_of_int e = Fin (round64 (of_int e))" "f64_of_int i = Fin (round64 (of_int i))"
      "f64_of_int c = Fin (of_int c)" "f64_of_int n = Fin (of_int n)"
    using assms by (auto intro!: f64_of_int_range f64_of_int_exact)
  have "f64_mul TimeWeight (f64_div (f64_of_int e) (f64_of_int i)) = Fin (time_part e i)"
    using ri q t01 prod by (simp add: ints weights_f64 small time_part_def)
  moreover have "f64_mul SizeWeight (f64_div (f64_of_int c) (f64_of_int n)) = Fin (size_part c n)"
    using r t01 prod assms by (simp add: ints weights_f64 small size_part_def)
  moreover have "f64_add (Fin (time_part e i)) (Fin (size_part c n)) = Fin (round64 (time_part e i + size_part c n))"
    using u t01 by (simp add: small)
  ultimately show ?thesis
    using assms by (simp add: Default_needSwitch_def MinBufferSize_def weights_f64)
qed

lemma Default_above:
  "c \<ge> max n 1 \<or> e \<ge> i \<Longrightarrow> Default_needSwitch c n e i"
  by (auto simp: Default_needSwitch_def Let_def MinBufferSize_def)

lemma Default_clamp: "Default_needSwitch c n e i = Default_needSwitch c (max n 1) e i"
  by (auto simp: Default_needSwitch_def Let_def MinBufferSize_def max_def)

lemma parts_mono:
  assumes "e \<le> e'" "0 < i" "c \<le> c'" "0 < n"
  shows "time_part e i \<le> time_part e' i" "size_part c n \<le> size_part c' n"
proof -
  have ri: "(1::rat) \<le> round64 (of_int i)" using interval_round assms(2) .
  have w: "0 \<le> tw" "0 \<le> sw" by (simp_all add: weights_exact)
  have "round64 (of_int e) / round64 (of_int i) \<le> round64 (of_int e') / round64 (of_int i :: rat)"
    using assms(1) ri by (intro divide_right_mono round64_mono) auto
  then show "time_part e i \<le> time_part e' i"
    unfolding time_part_def using w by (intro round64_mono mult_left_mono) auto
  have "of_int c / of_int n \<le> (of_int c' / of_int n :: rat)"
    using assms by (intro divide_right_mono) auto
  then show "size_part c n \<le> size_part c' n"
    unfolding size_part_def using w by (intro round64_mono mult_left_mono) auto
qed

lemma Default_mono:
  assumes "is_int32 n" "0 < i" "is_int64 i" "0 \<le> c" "c \<le> c'" "0 \<le> e" "e \<le> e'"
    "Default_needSwitch c n e i"
  shows "Default_needSwitch c' n e' i"
proof (cases "c' \<ge> max n 1 \<or> e' \<ge> i")
  case True
  then show ?thesis by (rule Default_above)
next
  case False
  define m where "m = max n 1"
  have b: "c' < m" "e' < i" "c < m" "e < i" "m < 2 ^ 31" "0 < m" "0 \<le> c'" "0 \<le> e'" "i < 2 ^ 63"
    using assms False by (auto simp: m_def)
  have "fc \<le> round64 (time_part e i + size_part c m)"
    using assms(4,6,8) b Default_below [of c m e i] Default_clamp [of c n e i] by (simp add: m_def)
  also have "\<dots> \<le> round64 (time_part e' i + size_part c' m)"
    using parts_mono [of e e' i c c' m] assms b by (intro round64_mono add_mono) auto
  finally show ?thesis
    using b Default_below [of c' m e' i] Default_clamp [of c' n e' i] by (simp add: m_def)
qed

interpretation default_strategy: switch_strategy Default_needSwitch
  by unfold_locales (rule Default_mono)

interpretation size_strategy: switch_strategy SizeOnly_needSwitch
  by unfold_locales (auto simp: SizeOnly_needSwitch_def)

interpretation time_strategy: switch_strategy TimeWindowOnly_needSwitch
  by unfold_locales (auto simp: TimeWindowOnly_needSwitch_def)

interpretation any_strategy: switch_strategy "strategy_needSwitch st" for st
  by (cases st) (simp_all add: default_strategy.switch_strategy_axioms
      size_strategy.switch_strategy_axioms time_strategy.switch_strategy_axioms)

section \<open>Agreement with the exact formula\<close>

lemma round64_unit_error:
  assumes "0 \<le> x" "x \<le> 1"
  shows "\<bar>round64 x - x\<bar> \<le> pow2 (- 53)"
proof (cases "x = 0")
  case False
  then have x: "0 < x" using assms by simp
  have "expo x \<le> 0"
    using expo_bounds(1) [OF x] assms(2) pow2_less_iff [of 0 "expo x"] by (simp add: pow2_def)
  then have "ulp x \<le> pow2 (- 52)" using x by (auto simp: ulp_def intro!: pow2_mono)
  moreover have "round64 x - x = (of_int (rne (x / ulp x)) - x / ulp x) * ulp x"
    using False by (simp add: round64_def left_diff_distrib)
  then have "\<bar>round64 x - x\<bar> = \<bar>of_int (rne (x / ulp x)) - x / ulp x\<bar> * ulp x" by (simp add: abs_mult)
  moreover have "\<bar>of_int (rne (x / ulp x)) - x / ulp x\<bar> * ulp x \<le> 1 / 2 * ulp x"
    using rne_error [of "x / ulp x"] by (intro mult_right_mono) auto
  ultimately have "\<bar>round64 x - x\<bar> \<le> 1 / 2 * pow2 (- 52)" by linarith
  then show ?thesis by (simp add: pow2_def)
qed simp

lemma quotient_error:
  assumes "0 \<le> e" "e \<le> i" "0 < i"
  shows "\<bar>round64 (of_int e) / round64 (of_int i) - of_int e / of_int i\<bar> \<le> 4 * pow2 (- 53)"
proof -
  define a b x y u where "a = round64 (of_int e)" and "b = round64 (of_int i)"
    and "x = (of_int e :: rat)" and "y = (of_int i :: rat)" and "u = pow2 (- 53)"
  have big: "pow2 (- 1022) \<le> 1" using pow2_mono [of "- 1022" 0] by (simp add: pow2_def)
  have xy: "0 \<le> x" "x \<le> y" "1 \<le> y" using assms by (simp_all add: x_def y_def)
  have u: "0 < u" "u \<le> 1 / 2" using pow2_mono [of "- 53" "- 1"] by (auto simp: u_def pow2_def)
  have b: "\<bar>b - y\<bar> \<le> u * y"
    using round64_error [of y] xy big by (simp add: b_def y_def [symmetric] u_def)
  have a: "\<bar>a - x\<bar> \<le> u * x"
  proof (cases "e = 0")
    case True
    then show ?thesis by (simp add: a_def x_def)
  next
    case False
    then have "1 \<le> x" using assms(1) by (simp add: x_def)
    then show ?thesis using round64_error [of x] big by (simp add: a_def x_def [symmetric] u_def)
  qed
  have "u * y \<le> 1 / 2 * y" using u xy by (intro mult_right_mono) auto
  then have by2: "y / 2 \<le> b" using b by linarith
  then have bpos: "0 < b" using xy by linarith
  have "a / b - x / y = ((a - x) * y - x * (b - y)) / (b * y)"
    using bpos xy by (simp add: field_simps)
  then have "\<bar>a / b - x / y\<bar> = \<bar>(a - x) * y - x * (b - y)\<bar> / (b * y)"
    using bpos xy by simp
  also have "\<dots> \<le> (2 * u * x * y) / (b * y)"
  proof (rule divide_right_mono)
    have "\<bar>(a - x) * y - x * (b - y)\<bar> \<le> \<bar>a - x\<bar> * y + x * \<bar>b - y\<bar>"
      using abs_triangle_ineq4 [of "(a - x) * y" "x * (b - y)"] xy by (simp add: abs_mult)
    also have "\<dots> \<le> u * x * y + x * (u * y)"
      using a b xy by (intro add_mono mult_right_mono mult_left_mono) auto
    finally show "\<bar>(a - x) * y - x * (b - y)\<bar> \<le> 2 * u * x * y" by (simp add: algebra_simps)
  qed (use bpos xy in simp)
  also have "\<dots> = 2 * u * x / b" using xy by simp
  also have "\<dots> \<le> 2 * u * y / (y / 2)"
    using by2 bpos xy u by (intro frac_le mult_left_mono) auto
  also have "\<dots> = 4 * u" using xy by simp
  finally show ?thesis by (simp add: a_def b_def x_def y_def u_def)
qed

definition exact_factor :: "int \<Rightarrow> int \<Rightarrow> int \<Rightarrow> int \<Rightarrow> rat" where
  "exact_factor c n e i = 4 / 10 * (of_int e / of_int i) + 6 / 10 * (of_int c / of_int n)"

lemma combined_error:
  assumes "0 \<le> c" "c < n" "0 \<le> e" "e < i"
  shows "\<bar>round64 (time_part e i + size_part c n) - exact_factor c n e i\<bar> \<le> 8 * pow2 (- 53)"
proof -
  define q r where "q = round64 (of_int e) / round64 (of_int i)" and "r = (of_int c / of_int n :: rat)"
  define Q R where "Q = round64 q" and "R = round64 r"
  define u where "u = pow2 (- 53)"
  note [simp] = weights_exact
  have un: "0 \<le> time_part e i \<and> time_part e i \<le> tw \<and> 0 \<le> size_part c n \<and> size_part c n \<le> sw"
    and q: "0 \<le> q" "q \<le> 1" and r: "0 \<le> r" "r \<le> 1"
    using factors_unit [of c n e i] assms by (auto simp: q_def r_def)
  have QR: "0 \<le> Q" "Q \<le> 1" "0 \<le> R" "R \<le> 1"
    using round64_unit q r by (auto simp: Q_def R_def)
  have e1: "\<bar>q - of_int e / of_int i\<bar> \<le> 4 * u"
    using quotient_error [of e i] assms by (simp add: q_def u_def)
  have e2: "\<bar>Q - q\<bar> \<le> u" "\<bar>R - r\<bar> \<le> u"
    using round64_unit_error q r by (auto simp: Q_def R_def u_def)
  have e3: "\<bar>time_part e i - tw * Q\<bar> \<le> u" "\<bar>size_part c n - sw * R\<bar> \<le> u"
    using round64_unit_error [of "tw * Q"] round64_unit_error [of "sw * R"] QR
    by (auto simp: time_part_def size_part_def Q_def R_def q_def r_def u_def)
  have e4: "\<bar>round64 (time_part e i + size_part c n) - (time_part e i + size_part c n)\<bar> \<le> u"
    using un unfolding u_def by (intro round64_unit_error) auto
  have "u = 1 / 9007199254740992" by (simp add: u_def pow2_def)
  moreover have "exact_factor c n e i = 4 / 10 * (of_int e / of_int i) + 6 / 10 * r"
    by (simp add: exact_factor_def r_def)
  ultimately show ?thesis
    using e1 e2 e3 e4 QR unfolding u_def [symmetric] by (simp add: abs_le_iff)
qed

section \<open>Properties\<close>

text \<open>
  C20: below the capacity and inside the time window, the default strategy decides by the exact
  weighted formula whenever that formula is not within \<open>2 ^ -49\<close> of the threshold 0.85: the
  roundings of the \<open>float64\<close> computation never flip the decision outside that band.
\<close>

theorem default_strategy_exact:
  assumes "0 \<le> c" "c < n" "n < 2 ^ 31" "0 \<le> e" "e < i" "i < 2 ^ 63"
    and "1 / 2 ^ 49 \<le> \<bar>exact_factor c n e i - 85 / 100\<bar>"
  shows "Default_needSwitch c n e i \<longleftrightarrow> 85 / 100 \<le> exact_factor c n e i"
proof -
  have "\<bar>round64 (time_part e i + size_part c n) - exact_factor c n e i\<bar> \<le> 8 / 2 ^ 53"
    using combined_error [of c n e i] assms by (simp add: pow2_def)
  moreover have "\<bar>fc - 85 / 100\<bar> \<le> 1 / 2 ^ 53" by (simp add: weights_exact)
  ultimately have "fc \<le> round64 (time_part e i + size_part c n) \<longleftrightarrow> 85 / 100 \<le> exact_factor c n e i"
    using assms(7) by (simp add: abs_le_iff abs_if split: if_splits)
  then show ?thesis using Default_below [OF assms(1-6)] by simp
qed

theorem default_strategy_exact_witness: "Default_needSwitch 9 10 4 5 \<and> \<not> Default_needSwitch 1 10 4 5"
  using default_strategy_exact [of 9 10 4 5] default_strategy_exact [of 1 10 4 5]
  by (simp add: exact_factor_def)

text \<open>
  Whatever strategy is installed, once it asks for a switch it keeps asking at every later
  check of the same filling phase (count and elapsed time only grow), so a skipped switch is made
  up for at the next check.
\<close>

theorem strategy_request_persists:
  assumes "is_int32 n" "0 < i" "is_int64 i" "0 \<le> c" "0 \<le> e"
    and "strategy_needSwitch st c n e i"
    and "any_strategy.growing c e obs" "(c', e') \<in> set obs"
  shows "strategy_needSwitch st c' n e' i"
  using any_strategy.need_persists [OF assms(1-5,6-8)] .

theorem strategy_request_persists_witness: "strategy_needSwitch DefaultStrategy 10 10 5 7"
  by (rule strategy_request_persists [of 10 7 10 3 DefaultStrategy "[(10, 5)]"])
    (simp_all add: Default_above)

text \<open>
  Inside the time window an empty buffer is never switched, and right after a switch (elapsed
  time zero) only a full buffer is.
\<close>

theorem default_strategy_quiet:
  assumes "n < 2 ^ 31" "0 < n" "0 < i" "i < 2 ^ 63"
  shows "(\<forall>e. 0 \<le> e \<and> e < i \<longrightarrow> \<not> Default_needSwitch 0 n e i) \<and>
         (\<forall>c. 0 \<le> c \<and> c < n \<longrightarrow> \<not> Default_needSwitch c n 0 i)"
proof -
  have w: "8 / 2 ^ 53 + 6 / 10 < fc" by (simp add: weights_exact)
  have below: "\<not> Default_needSwitch c n e i"
    if r: "0 \<le> c" "c < n" "0 \<le> e" "e < i" and x: "exact_factor c n e i \<le> 6 / 10" for c e
  proof -
    have "\<bar>round64 (time_part e i + size_part c n) - exact_factor c n e i\<bar> \<le> 8 / 2 ^ 53"
      using combined_error [OF r] by (simp add: pow2_def)
    then have "\<not> fc \<le> round64 (time_part e i + size_part c n)" using x w by linarith
    then show ?thesis using Default_below [of c n e i] r assms by simp
  qed
  have "\<not> Default_needSwitch 0 n e i" if e: "0 \<le> e" "e < i" for e
  proof -
    have "of_int e / of_int i \<le> (1::rat)" using e by simp
    then have "exact_factor 0 n e i \<le> 6 / 10"
      by (simp only: exact_factor_def of_int_0 div_0 mult_zero_right)
    then show ?thesis using e assms(2) by (intro below) auto
  qed
  moreover have "\<not> Default_needSwitch c n 0 i" if c: "0 \<le> c" "c < n" for c
  proof -
    have "of_int c / of_int n \<le> (1::rat)" using c by simp
    then have "exact_factor c n 0 i \<le> 6 / 10"
      by (simp only: exact_factor_def of_int_0 div_0 mult_zero_right)
    then show ?thesis using c assms(3) by (intro below) auto
  qed
  ultimately show ?thesis by blast
qed

theorem default_strategy_quiet_witness:
  "\<not> Default_needSwitch 0 10 4 5 \<and> \<not> Default_needSwitch 9 10 0 5"
  using default_strategy_quiet [of 10 5] by simp

end
