(* ===== verification/Life_Cycle.thy ===== *)
theory Life_Cycle
  imports TS_Consts Go_Memory Float64 "HOL-Library.AList"
begin

text \<open>
  \<open>src/pools/life_cycle.go\<close>: the three pools behind a double buffer. Small data is copied into byte
  slices of a \<open>sync.Pool\<close>; for medium data the pool remembers when a pointer was stored; for large
  data it keeps a reference cnt per pointer.

  The two maps are association lists with distinct keys whose order is the iteration order of
  \<open>range\<close>, which Go leaves open; all statements are for every order. Time is in nanoseconds, the
  current time is an argument. The choice of \<open>sync.Pool.Get\<close> is an argument.
\<close>

section \<open>Data\<close>

record big_data_entry =
  bde_size :: int
  bde_owner :: addr
  bde_ref :: int

record medium_pool =
  mp_cache :: "(addr \<times> int) list"

record big_data_pool =
  bp_pool :: "(addr \<times> big_data_entry) list"
  bp_currentSize :: int
  bp_maxSize :: int

record life_cycle_manager =
  lc_SmallPool :: "slice list"
  lc_MediumPool :: medium_pool
  lc_BigDataPool :: big_data_pool

definition Minute :: int where "Minute = 60 * 1000000000"
definition mediumPoolTTL :: int where "mediumPoolTTL = 2 * Minute"
definition initializeBufSize :: nat where "initializeBufSize = 512"
definition maxCleanCounts :: int where "maxCleanCounts = 200"

definition NewBigDataPool :: "int \<Rightarrow> big_data_pool" where
  "NewBigDataPool maxSize = \<lparr>bp_pool = [], bp_currentSize = 0, bp_maxSize = maxSize\<rparr>"

definition NewLifeCycleManager :: life_cycle_manager where
  "NewLifeCycleManager =
     \<lparr>lc_SmallPool = [], lc_MediumPool = \<lparr>mp_cache = []\<rparr>,
      lc_BigDataPool = \<lparr>bp_pool = [], bp_currentSize = 0, bp_maxSize = 0\<rparr>\<rparr>"

section \<open>The small pool\<close>

definition SmallPool_Get ::
    "nat option \<Rightarrow> life_cycle_manager \<Rightarrow> memory \<Rightarrow> slice \<times> life_cycle_manager \<times> memory" where
  "SmallPool_Get choice l m =
     (let pool = lc_SmallPool l
      in case choice of
           Some k \<Rightarrow>
             if k < length pool
             then (pool ! k, l\<lparr>lc_SmallPool := take k pool @ drop (Suc k) pool\<rparr>, m)
             else (let (p, m') = mem_alloc initializeBufSize m
                   in (\<lparr>sl_ptr = p, sl_len = 0, sl_cap = int initializeBufSize\<rparr>, l, m'))
         | None \<Rightarrow>
             (let (p, m') = mem_alloc initializeBufSize m
              in (\<lparr>sl_ptr = p, sl_len = 0, sl_cap = int initializeBufSize\<rparr>, l, m')))"

definition SmallPool_Put :: "slice \<Rightarrow> life_cycle_manager \<Rightarrow> life_cycle_manager" where
  "SmallPool_Put s l = l\<lparr>lc_SmallPool := lc_SmallPool l @ [s]\<rparr>"

fun preload_loop ::
    "nat \<Rightarrow> (nat \<Rightarrow> nat option) \<Rightarrow> life_cycle_manager \<Rightarrow> memory \<Rightarrow> life_cycle_manager \<times> memory" where
  "preload_loop 0 choices l m = (l, m)"
| "preload_loop (Suc k) choices l m =
     (let (s, l1, m1) = SmallPool_Get (choices k) l m in preload_loop k choices (SmallPool_Put s l1) m1)"

text \<open>\<open>int(float64(capacity) * 0.2)\<close> always fits, so the conversion has a value.\<close>

definition preloadSize :: "int \<Rightarrow> int option" where
  "preloadSize capacity = f64_to_int64 (f64_mul (f64_of_int capacity) (to_f64 (2 / 10)))"

definition Preload ::
    "(nat \<Rightarrow> nat option) \<Rightarrow> int \<Rightarrow> life_cycle_manager \<Rightarrow> memory \<Rightarrow> (life_cycle_manager \<times> memory) option" where
  "Preload choices capacity l m =
     (case preloadSize capacity of
        None \<Rightarrow> None
      | Some n \<Rightarrow> Some (preload_loop (nat n) choices l m))"

section \<open>The medium pool\<close>

definition MediumPool_Put :: "addr \<Rightarrow> int \<Rightarrow> medium_pool \<Rightarrow> medium_pool" where
  "MediumPool_Put ptr t mp = mp\<lparr>mp_cache := AList.update ptr t (mp_cache mp)\<rparr>"

definition MediumPool_IsValid :: "int \<Rightarrow> addr \<Rightarrow> medium_pool \<Rightarrow> bool" where
  "MediumPool_IsValid now ptr mp =
     (case map_of (mp_cache mp) ptr of None \<Rightarrow> False | Some t \<Rightarrow> now - t < mediumPoolTTL)"

definition MediumPool_Release :: "addr \<Rightarrow> medium_pool \<Rightarrow> medium_pool" where
  "MediumPool_Release ptr mp = mp\<lparr>mp_cache := AList.delete ptr (mp_cache mp)\<rparr>"

fun medium_clean_loop :: "int \<Rightarrow> int \<Rightarrow> (addr \<times> int) list \<Rightarrow> (addr \<times> int) list" where
  "medium_clean_loop now cnt [] = []"
| "medium_clean_loop now cnt ((ptr, t) # rest) =
     (if now - t > Minute then
        (let cnt = cnt + 1
         in if cnt > maxCleanCounts then rest else medium_clean_loop now cnt rest)
      else (ptr, t) # medium_clean_loop now cnt rest)"

definition MediumPool_cleanup :: "int \<Rightarrow> medium_pool \<Rightarrow> medium_pool" where
  "MediumPool_cleanup now mp =
     (if mp_cache mp = [] then mp else mp\<lparr>mp_cache := medium_clean_loop now 0 (mp_cache mp)\<rparr>)"

section \<open>The pool of large data\<close>

fun big_clean_loop :: "int \<Rightarrow> (addr \<times> big_data_entry) list \<Rightarrow> (addr \<times> big_data_entry) list" where
  "big_clean_loop cnt [] = []"
| "big_clean_loop cnt ((ptr, bd) # rest) =
     (if bde_ref bd \<noteq> 0 then (ptr, bd) # big_clean_loop cnt rest
      else (let cnt = cnt + 1
            in if cnt > maxCleanCounts then rest else big_clean_loop cnt rest))"

definition BigDataPool_cleanup :: "big_data_pool \<Rightarrow> big_data_pool" where
  "BigDataPool_cleanup b =
     (if bp_pool b = [] then b else b\<lparr>bp_pool := big_clean_loop 0 (bp_pool b)\<rparr>)"

definition BigDataPool_Put :: "addr \<Rightarrow> int \<Rightarrow> big_data_pool \<Rightarrow> big_data_pool" where
  "BigDataPool_Put ptr sz b =
     b\<lparr>bp_currentSize := wrap64 (bp_currentSize b + sz),
       bp_pool := AList.update ptr \<lparr>bde_size = sz, bde_owner = ptr, bde_ref = 1\<rparr> (bp_pool b)\<rparr>"

definition BigDataPool_Release :: "addr \<Rightarrow> big_data_pool \<Rightarrow> big_data_pool" where
  "BigDataPool_Release ptr b =
     (case map_of (bp_pool b) ptr of
        None \<Rightarrow> b
      | Some entry \<Rightarrow>
          b\<lparr>bp_pool := AList.update ptr (entry\<lparr>bde_ref := wrap64 (bde_ref entry - 1)\<rparr>) (bp_pool b)\<rparr>)"

definition BigDataPool_Free :: "addr \<Rightarrow> int \<Rightarrow> big_data_pool \<Rightarrow> big_data_pool" where
  "BigDataPool_Free ptr sz b =
     (case map_of (bp_pool b) ptr of
        None \<Rightarrow> b
      | Some entry \<Rightarrow>
          b\<lparr>bp_currentSize := wrap64 (bp_currentSize b - sz),
            bp_pool := AList.delete ptr (bp_pool b)\<rparr>)"

definition LifeCycle_Cleanup :: "int \<Rightarrow> life_cycle_manager \<Rightarrow> life_cycle_manager" where
  "LifeCycle_Cleanup now l =
     l\<lparr>lc_MediumPool := MediumPool_cleanup now (lc_MediumPool l),
       lc_BigDataPool := BigDataPool_cleanup (lc_BigDataPool l)\<rparr>"

section \<open>Cleaning the medium pool\<close>

lemma medium_clean_subset: "set (medium_clean_loop now n xs) \<subseteq> set xs"
  by (induction now n xs rule: medium_clean_loop.induct) (auto simp: Let_def)

lemma medium_clean_fresh:
  "x \<in> set xs \<Longrightarrow> now - snd x \<le> Minute \<Longrightarrow> x \<in> set (medium_clean_loop now n xs)"
  by (induction now n xs rule: medium_clean_loop.induct) (auto simp: Let_def)

lemma medium_clean_count:
  "n \<le> maxCleanCounts \<Longrightarrow>
   int (length xs) - int (length (medium_clean_loop now n xs)) \<le> maxCleanCounts + 1 - n"
  by (induction now n xs rule: medium_clean_loop.induct) (auto simp: Let_def)

lemma medium_clean_complete:
  "n \<le> maxCleanCounts \<Longrightarrow> int (length xs) - int (length (medium_clean_loop now n xs)) < maxCleanCounts + 1 - n \<Longrightarrow>
   x \<in> set (medium_clean_loop now n xs) \<Longrightarrow> now - snd x \<le> Minute"
proof (induction now n xs rule: medium_clean_loop.induct)
  case (2 now n p t rest)
  then show ?case using medium_clean_count [of "n + 1" rest now] by (auto simp: Let_def split: if_splits)
qed simp

lemma big_clean_subset: "set (big_clean_loop n xs) \<subseteq> set xs"
  by (induction n xs rule: big_clean_loop.induct) (auto simp: Let_def)

lemma big_clean_live:
  "x \<in> set xs \<Longrightarrow> bde_ref (snd x) \<noteq> 0 \<Longrightarrow> x \<in> set (big_clean_loop n xs)"
  by (induction n xs rule: big_clean_loop.induct) (auto simp: Let_def)

lemma big_clean_count:
  "n \<le> maxCleanCounts \<Longrightarrow>
   int (length xs) - int (length (big_clean_loop n xs)) \<le> maxCleanCounts + 1 - n"
  by (induction n xs rule: big_clean_loop.induct) (auto simp: Let_def)

section \<open>Properties\<close>

lemma big_clean_complete:
  "n \<le> maxCleanCounts \<Longrightarrow> int (length xs) - int (length (big_clean_loop n xs)) < maxCleanCounts + 1 - n \<Longrightarrow>
   x \<in> set (big_clean_loop n xs) \<Longrightarrow> bde_ref (snd x) \<noteq> 0"
proof (induction n xs rule: big_clean_loop.induct)
  case (2 n p bd rest)
  then show ?case using big_clean_count [of "n + 1" rest] by (auto simp: Let_def split: if_splits)
qed simp

text \<open>
  A cleaning pass over the medium pool removes only entries older than a minute and never more
  than 201 of them; if it removed fewer than that, no older entry is left.
\<close>

theorem medium_cleanup_correct:
  "let old = mp_cache mp; new = mp_cache (MediumPool_cleanup now mp); removed = length old - length new
   in set new \<subseteq> set old \<and> (\<forall>e \<in> set old. now - snd e \<le> Minute \<longrightarrow> e \<in> set new) \<and>
      removed \<le> 201 \<and> (removed < 201 \<longrightarrow> (\<forall>e \<in> set new. now - snd e \<le> Minute))"
proof (cases "mp_cache mp = []")
  case True
  then show ?thesis by (simp add: MediumPool_cleanup_def)
next
  case False
  let ?new = "medium_clean_loop now 0 (mp_cache mp)"
  have cnt: "int (length (mp_cache mp)) - int (length ?new) \<le> 201"
    using medium_clean_count [of 0 "mp_cache mp" now] by (simp add: maxCleanCounts_def)
  have "now - snd e \<le> Minute" if "length (mp_cache mp) - length ?new < 201" "e \<in> set ?new" for e
    using medium_clean_complete [of 0 "mp_cache mp" now e] that by (simp add: maxCleanCounts_def)
  with cnt False medium_clean_subset [of now 0 "mp_cache mp"] medium_clean_fresh [of _ "mp_cache mp" now 0]
  show ?thesis by (auto simp: MediumPool_cleanup_def Let_def)
qed

theorem medium_cleanup_correct_witness:
  "let mp = \<lparr>mp_cache = [(UserMem 1, 0), (UserMem 2, 100 * 1000000000)]\<rparr>
   in (UserMem 2, 100 * 1000000000) \<in> set (mp_cache (MediumPool_cleanup (110 * 1000000000) mp))"
  using medium_cleanup_correct [of "\<lparr>mp_cache = [(UserMem 1, 0), (UserMem 2, 100 * 1000000000)]\<rparr>" "110 * 1000000000"]
  by (simp add: Let_def Minute_def del: One_nat_def)

text \<open>
  C21: a cleaning pass over the pool of large data never drops an entry that is still referenced,
  drops at most 201 entries, and drops every unreferenced one when there are fewer than that.
\<close>

theorem big_cleanup_correct:
  "let old = bp_pool b; new = bp_pool (BigDataPool_cleanup b); removed = length old - length new
   in set new \<subseteq> set old \<and> (\<forall>e \<in> set old. bde_ref (snd e) \<noteq> 0 \<longrightarrow> e \<in> set new) \<and>
      removed \<le> 201 \<and> (removed < 201 \<longrightarrow> (\<forall>e \<in> set new. bde_ref (snd e) \<noteq> 0)) \<and>
      bp_currentSize (BigDataPool_cleanup b) = bp_currentSize b"
proof (cases "bp_pool b = []")
  case True
  then show ?thesis by (simp add: BigDataPool_cleanup_def)
next
  case False
  let ?new = "big_clean_loop 0 (bp_pool b)"
  have cnt: "int (length (bp_pool b)) - int (length ?new) \<le> 201"
    using big_clean_count [of 0 "bp_pool b"] by (simp add: maxCleanCounts_def)
  have "bde_ref (snd e) \<noteq> 0" if "length (bp_pool b) - length ?new < 201" "e \<in> set ?new" for e
    using big_clean_complete [of 0 "bp_pool b" e] that by (simp add: maxCleanCounts_def)
  with cnt False big_clean_subset [of 0 "bp_pool b"] big_clean_live [of _ "bp_pool b" 0]
  show ?thesis by (auto simp: BigDataPool_cleanup_def Let_def)
qed

theorem big_cleanup_correct_witness:
  "let b = \<lparr>bp_pool = [(UserMem 1, \<lparr>bde_size = 5, bde_owner = UserMem 1, bde_ref = 1\<rparr>)],
            bp_currentSize = 5, bp_maxSize = 0\<rparr>
   in (UserMem 1, \<lparr>bde_size = 5, bde_owner = UserMem 1, bde_ref = 1\<rparr>) \<in> set (bp_pool (BigDataPool_cleanup b))"
  using big_cleanup_correct [of "\<lparr>bp_pool = [(UserMem 1, \<lparr>bde_size = 5, bde_owner = UserMem 1, bde_ref = 1\<rparr>)],
            bp_currentSize = 5, bp_maxSize = 0\<rparr>"]
  by (simp add: Let_def)



end
