(* ===== verification/Double_Buffer.thy ===== *)
theory Double_Buffer
  imports Smart_Buffer Min_Heap Waiters Switch_Config Switch_Strategy Life_Cycle
begin

text \<open>
  \<open>src/core/double_buffer.go\<close> and \<open>src/core/chunk.go\<close>: the double buffer itself. One operation of
  the source is one function on the whole state. What other goroutines do asynchronously is in the
  state: \<open>spawned\<close> are the goroutines started by \<open>switchChannel\<close> that have not run yet, \<open>numbered\<close>
  those that have taken a sequence number and not yet pushed their buffer, \<open>notifying\<close> the pending
  \<open>go d.wm.notify(n)\<close>. The theory \<open>Buffer_System\<close> lets these run in any order between operations.

  Arguments that stand for what the run-time system or the clock decide: \<open>choice\<close> (which pooled
  object \<open>sync.Pool.Get\<close> returns, if any), \<open>now\<close> (nanoseconds).
\<close>

section \<open>Data\<close>

datatype free_action = FreeSmall slice | FreeRecycle addr int | FreeBig addr int

record data_chunk =
  dc_data :: slice
  dc_free :: "free_action option"

record double_buffer =
  db_active :: smart_buffer
  db_passive :: smart_buffer
  db_currentBuffer :: "smart_buffer option"
  db_stop :: bool
  db_size :: int
  db_count :: int
  db_state :: int
  db_lastSwitch :: int
  db_pool :: "smart_buffer list"
  db_sequence :: int
  db_currentSequence :: int
  db_pendingHeap :: "smart_buffer min_heap"
  db_enableMetrics :: bool
  db_sc :: switch_config
  db_scd :: switch_condition
  db_sw :: strategy
  db_readMode :: "int option"
  db_wm :: waiter_manager
  db_pm :: life_cycle_manager
  db_mem :: memory
  db_spawned :: "smart_buffer list"
  db_numbered :: "(int \<times> smart_buffer) list"
  db_notifying :: "int list"

definition SmallDataThreshold :: int where "SmallDataThreshold = 1024"
definition LargeDataThreshold :: int where "LargeDataThreshold = 32 * 1024"

definition nil_slice :: slice where
  "nil_slice = \<lparr>sl_ptr = NilPtr, sl_len = 0, sl_cap = 0\<rparr>"

definition empty_chunk :: data_chunk where
  "empty_chunk = \<lparr>dc_data = nil_slice, dc_free = None\<rparr>"

text \<open>Sequencing of operations that may panic.\<close>

definition bind_go :: "'a go \<Rightarrow> ('a \<Rightarrow> 'b go) \<Rightarrow> 'b go" where
  "bind_go r f = (case r of Inl p \<Rightarrow> Inl p | Inr x \<Rightarrow> f x)"

lemma bind_go_simps [simp]: "bind_go (Inl p) f = Inl p" "bind_go (Inr x) f = f x"
  by (simp_all add: bind_go_def)

section \<open>Construction\<close>

text \<open>An option is a function on the buffer under construction; \<open>WithMetrics\<close> is the only one.\<close>

type_synonym option_fun = "double_buffer \<Rightarrow> ts_error + double_buffer"

definition WithMetrics :: "int \<Rightarrow> option_fun" where
  "WithMetrics collector d =
     (if \<not> CollectorType_Validate collector then Inl ErrInvalidMetricsCollector
      else Inr (d\<lparr>db_enableMetrics := True\<rparr>))"

fun apply_options :: "option_fun list \<Rightarrow> double_buffer \<Rightarrow> ts_error + double_buffer" where
  "apply_options [] d = Inr d"
| "apply_options (opt # opts) d =
     (case opt d of Inl err \<Rightarrow> Inl err | Inr d' \<Rightarrow> apply_options opts d')"

definition UnixMilli :: "int \<Rightarrow> int" where
  "UnixMilli now = now div 1000000"

definition NewDoubleBuffer ::
    "int \<Rightarrow> switch_condition \<Rightarrow> option_fun list \<Rightarrow> int \<Rightarrow> memory \<Rightarrow> (ts_error + double_buffer) go" where
  "NewDoubleBuffer size0 sc opts now mem =
     bind_go (NewSmartBuffer size0) (\<lambda>a. bind_go (NewSmartBuffer size0) (\<lambda>p.
       (case apply_options opts
          \<lparr>db_active = a, db_passive = p, db_currentBuffer = None, db_stop = False, db_size = size0,
           db_count = 0, db_state = WritingState, db_lastSwitch = UnixMilli now, db_pool = [],
           db_sequence = 0, db_currentSequence = 1, db_pendingHeap = NewWrapHeap,
           db_enableMetrics = False, db_sc = GetConfig sc, db_scd = sc, db_sw = DefaultStrategy,
           db_readMode = None, db_wm = newWaiterManager, db_pm = NewLifeCycleManager,
           db_mem = mem, db_spawned = [], db_numbered = [], db_notifying = []\<rparr> of
          Inl err \<Rightarrow> Inr (Inl err)
        | Inr d \<Rightarrow>
            bind_go (NewSmartBuffer size0) (\<lambda>a. bind_go (NewSmartBuffer size0) (\<lambda>p.
              Inr (Inr (d\<lparr>db_active := a, db_passive := p\<rparr>)))))))"

section \<open>Switching\<close>

definition buf_pool_get :: "nat option \<Rightarrow> double_buffer \<Rightarrow> (smart_buffer \<times> double_buffer) go" where
  "buf_pool_get choice d =
     (case choice of
        Some k \<Rightarrow>
          if k < length (db_pool d)
          then Inr (db_pool d ! k, d\<lparr>db_pool := take k (db_pool d) @ drop (Suc k) (db_pool d)\<rparr>)
          else bind_go (NewSmartBuffer (db_size d)) (\<lambda>b. Inr (b, d))
      | None \<Rightarrow> bind_go (NewSmartBuffer (db_size d)) (\<lambda>b. Inr (b, d)))"

definition buf_pool_put :: "smart_buffer \<Rightarrow> double_buffer \<Rightarrow> double_buffer" where
  "buf_pool_put b d = d\<lparr>db_pool := db_pool d @ [b]\<rparr>"

definition swapChannels :: "smart_buffer \<Rightarrow> double_buffer \<Rightarrow> smart_buffer \<times> double_buffer" where
  "swapChannels newBuf d =
     (let oldActive = db_active d
      in (oldActive, d\<lparr>db_active := db_passive d, db_passive := newBuf\<rparr>))"

definition switchChannel :: "nat option \<Rightarrow> int \<Rightarrow> double_buffer \<Rightarrow> double_buffer go" where
  "switchChannel choice now d =
     (if db_state d \<noteq> WritingState then Inr d
      else
        let d1 = d\<lparr>db_state := SwitchingState, db_active := SetState ReadOnly (db_active d)\<rparr>
        in bind_go (buf_pool_get choice d1) (\<lambda>(newBuf, d2).
             let (buf, d3) = swapChannels newBuf d2
             in Inr (d3\<lparr>db_count := 0, db_lastSwitch := UnixMilli now,
                        db_spawned := db_spawned d3 @ [buf], db_state := WritingState\<rparr>)))"

text \<open>
  \<open>time.Since\<close> of a time without monotonic reading: the difference of the wall clocks, saturated to
  the range of a \<open>Duration\<close>.
\<close>

definition time_since :: "int \<Rightarrow> int \<Rightarrow> int" where
  "time_since now t = max (- (2 ^ 63)) (min (2 ^ 63 - 1) (now - t))"

definition needSwitch :: "int \<Rightarrow> double_buffer \<Rightarrow> bool \<times> double_buffer" where
  "needSwitch now d =
     (let currentCount = db_count d;
          elapsed = time_since now (db_lastSwitch d * 1000000);
          (token, scd) = poll_notify (db_scd d);
          d1 = (if token then d\<lparr>db_scd := scd, db_sc := GetConfig scd\<rparr> else d)
      in (strategy_needSwitch (db_sw d1) currentCount (db_size d1) elapsed (sc_TimeThreshold (db_sc d1)),
          d1))"

text \<open>One round of the loop of \<open>swapMonitor\<close> when its ticker fires, and of \<open>asyncRecycleWorker\<close>.\<close>

definition swapMonitor_tick :: "nat option \<Rightarrow> int \<Rightarrow> double_buffer \<Rightarrow> double_buffer go" where
  "swapMonitor_tick choice now d =
     (if db_stop d then Inr d
      else let (need, d1) = needSwitch now d
           in if need then switchChannel choice now d1 else Inr d1)"

definition asyncRecycleWorker_tick :: "int \<Rightarrow> double_buffer \<Rightarrow> double_buffer" where
  "asyncRecycleWorker_tick now d =
     (if db_stop d then d else d\<lparr>db_pm := LifeCycle_Cleanup now (db_pm d)\<rparr>)"

section \<open>The goroutines started by a switch\<close>

definition remove_nth :: "nat \<Rightarrow> 'a list \<Rightarrow> 'a list" where
  "remove_nth k xs = take k xs @ drop (Suc k) xs"

text \<open>\<open>item := MinHeapItem\<open>{\<close>sequence: d.sequence.Add(1), buf: buf\<open>}\<close>\<close> of the \<open>k\<close>-th goroutine.\<close>

definition take_number :: "nat \<Rightarrow> double_buffer \<Rightarrow> double_buffer" where
  "take_number k d =
     (if k < length (db_spawned d) then
        let s = wrap64 (db_sequence d + 1)
        in d\<lparr>db_sequence := s, db_spawned := remove_nth k (db_spawned d),
             db_numbered := db_numbered d @ [(s, db_spawned d ! k)]\<rparr>
      else d)"

text \<open>\<open>d.pendingHeap.Push(&item)\<close>, the log line, and \<open>go d.wm.notify(buf.Len())\<close>.\<close>

definition push_pending :: "nat \<Rightarrow> double_buffer \<Rightarrow> double_buffer" where
  "push_pending k d =
     (if k < length (db_numbered d) then
        let (s, b) = db_numbered d ! k
        in d\<lparr>db_numbered := remove_nth k (db_numbered d),
             db_pendingHeap :=
               WrapHeap_Push \<lparr>mhi_sequence = s, mhi_buf = b, mhi_index = 0\<rparr> (db_pendingHeap d),
             db_notifying := db_notifying d @ [Len b]\<rparr>
      else d)"

definition run_notify :: "nat \<Rightarrow> double_buffer \<Rightarrow> double_buffer go" where
  "run_notify k d =
     (if k < length (db_notifying d) then
        bind_go (notify (db_notifying d ! k) (db_wm d)) (\<lambda>w.
          Inr (d\<lparr>db_wm := w, db_notifying := remove_nth k (db_notifying d)\<rparr>))
      else Inr d)"

section \<open>Writing\<close>

text \<open>
  The item that \<open>Write\<close> puts into the ring. The length is converted to \<open>int32\<close>; small data is
  copied into a pooled slice, whose first element is addressed (which panics when the slice is
  empty); the other sizes register the caller's pointer.
\<close>

definition small_copy ::
    "nat option \<Rightarrow> addr \<Rightarrow> int \<Rightarrow> int \<Rightarrow> double_buffer \<Rightarrow> (slice \<times> double_buffer) go" where
  "small_copy choice src len0 sz d =
     (let (buf, pm, mem) = SmallPool_Get choice (db_pm d) (db_mem d);
          (buf, mem) =
            (if wrap32 (sl_cap buf) < sz
             then (let (p, mem') = mem_alloc (nat sz) mem
                   in (\<lparr>sl_ptr = p, sl_len = 0, sl_cap = sz\<rparr>, mem'))
             else (buf, mem))
      in if sz < 0 \<or> sz > sl_cap buf then Inl SliceBoundsOutOfRange
         else Inr (buf\<lparr>sl_len := sz\<rparr>,
                   d\<lparr>db_pm := pm,
                     db_mem := mem_write mem (sl_ptr buf)
                                 (mem_read mem src (nat (min sz len0)))\<rparr>))"

definition make_item ::
    "nat option \<Rightarrow> int \<Rightarrow> slice \<Rightarrow> double_buffer \<Rightarrow> (buffer_item \<times> double_buffer) go" where
  "make_item choice now p d =
     (let sz = wrap32 (sl_len p); ptr = sl_ptr p
      in if sz < SmallDataThreshold then
           bind_go (small_copy choice ptr (sl_len p) sz d) (\<lambda>(buf, d1).
             if sl_len buf = 0 then Inl IndexOutOfRange
             else Inr (\<lparr>bi_Ptr = sl_ptr buf, bi_Size = sz\<rparr>, d1))
         else if sz > LargeDataThreshold then
           Inr (\<lparr>bi_Ptr = ptr, bi_Size = sz\<rparr>,
                d\<lparr>db_pm := (db_pm d)\<lparr>lc_BigDataPool :=
                    BigDataPool_Put ptr sz (lc_BigDataPool (db_pm d))\<rparr>\<rparr>)
         else
           Inr (\<lparr>bi_Ptr = ptr, bi_Size = sz\<rparr>,
                d\<lparr>db_pm := (db_pm d)\<lparr>lc_MediumPool :=
                    MediumPool_Put ptr now (lc_MediumPool (db_pm d))\<rparr>\<rparr>))"

text \<open>\<open>d.active.Write(item)\<close> and the increment of \<open>d.count\<close> on success.\<close>

definition write_active :: "buffer_item \<Rightarrow> double_buffer \<Rightarrow> (ts_error option \<times> double_buffer) go" where
  "write_active item d =
     bind_go (Write_sb item (db_active d)) (\<lambda>(err, a).
       let d1 = d\<lparr>db_active := a\<rparr>
       in case err of
            None \<Rightarrow> Inr (None, d1\<lparr>db_count := wrap32 (db_count d1 + 1)\<rparr>)
          | Some e \<Rightarrow> Inr (Some e, d1))"

definition write_slow ::
    "nat option \<Rightarrow> int \<Rightarrow> buffer_item \<Rightarrow> double_buffer \<Rightarrow> (ts_error option \<times> double_buffer) go" where
  "write_slow choice now item d =
     bind_go (if GetState (db_active d) = ReadOnly then switchChannel choice now d else Inr d)
       (write_active item)"

definition Write ::
    "nat option \<Rightarrow> nat option \<Rightarrow> int \<Rightarrow> slice \<Rightarrow> double_buffer \<Rightarrow> (ts_error option \<times> double_buffer) go" where
  "Write choice bchoice now p d =
     (if db_state d = ClosedState then Inr (Some ErrBufferClose, d)
      else bind_go (make_item choice now p d) (\<lambda>(item, d1).
             if db_state d1 = WritingState then
               bind_go (write_active item d1) (\<lambda>(err, d2).
                 case err of
                   None \<Rightarrow> Inr (None, d2)
                 | Some _ \<Rightarrow> write_slow bchoice now item d2)
             else write_slow bchoice now item d1))"

section \<open>Picking the next buffer\<close>

text \<open>
  One round of the loop of \<open>pickBufferFromHeap\<close>: \<open>Some False\<close> is its \<open>return false\<close> (the heap is
  empty), \<open>Some True\<close> its \<open>break\<close>, \<open>None\<close> goes on to the next round.
\<close>

definition pick_once :: "double_buffer \<Rightarrow> (bool option \<times> double_buffer) go" where
  "pick_once d =
     bind_go (WrapHeap_Pick (db_pendingHeap d)) (\<lambda>(r, h).
       case r of
         None \<Rightarrow> Inr (Some False, d\<lparr>db_pendingHeap := h\<rparr>)
       | Some bufferItem \<Rightarrow>
           if mhi_sequence bufferItem = db_currentSequence d
           then Inr (Some True, d\<lparr>db_pendingHeap := h, db_currentBuffer := Some (mhi_buf bufferItem),
                                  db_currentSequence := wrap64 (db_currentSequence d + 1)\<rparr>)
           else Inr (None, d\<lparr>db_pendingHeap := WrapHeap_Push bufferItem h\<rparr>))"

definition maxRetires :: nat where "maxRetires = 3"

fun pick_loop :: "nat \<Rightarrow> double_buffer \<Rightarrow> (bool \<times> double_buffer) go" where
  "pick_loop 0 d = Inr (db_currentBuffer d \<noteq> None, d)"
| "pick_loop (Suc n) d =
     bind_go (pick_once d) (\<lambda>(r, d1).
       case r of
         Some False \<Rightarrow> Inr (False, d1)
       | Some True \<Rightarrow> Inr (db_currentBuffer d1 \<noteq> None, d1)
       | None \<Rightarrow> pick_loop n d1)"

definition pickBufferFromHeap :: "double_buffer \<Rightarrow> (bool \<times> double_buffer) go" where
  "pickBufferFromHeap d = pick_loop maxRetires d"

section \<open>Reading\<close>

definition RegisterReadMode :: "int \<Rightarrow> double_buffer \<Rightarrow> bool \<times> double_buffer" where
  "RegisterReadMode readMode d =
     (if \<not> ReadMode_Validate readMode then (False, d) else (True, d\<lparr>db_readMode := Some readMode\<rparr>))"

text \<open>\<open>unsafe.Slice\<close> panics on a negative length and on a nil pointer with a positive length.\<close>

definition createByteSliceFromPointer :: "addr \<Rightarrow> int \<Rightarrow> slice go" where
  "createByteSliceFromPointer ptr sz =
     (if sz < 0 \<or> (ptr = NilPtr \<and> sz \<noteq> 0) then Inl UnsafeSliceOutOfRange
      else Inr \<lparr>sl_ptr = ptr, sl_len = sz, sl_cap = sz\<rparr>)"

definition recycle :: "addr \<Rightarrow> int \<Rightarrow> double_buffer \<Rightarrow> double_buffer" where
  "recycle ptr sz d =
     (if ptr = NilPtr \<or> sz \<le> 0 then d
      else if sz < SmallDataThreshold then d
      else if sz > LargeDataThreshold then
        d\<lparr>db_pm := (db_pm d)\<lparr>lc_BigDataPool := BigDataPool_Release ptr (lc_BigDataPool (db_pm d))\<rparr>\<rparr>
      else
        d\<lparr>db_pm := (db_pm d)\<lparr>lc_MediumPool := MediumPool_Release ptr (lc_MediumPool (db_pm d))\<rparr>\<rparr>)"

text \<open>\<open>d.currentBuffer.Pop()\<close>; a nil \<open>currentBuffer\<close> is dereferenced.\<close>

definition pop_current :: "double_buffer \<Rightarrow> ((addr \<times> int) \<times> double_buffer) go" where
  "pop_current d =
     (case db_currentBuffer d of
        None \<Rightarrow> Inl NilDereference
      | Some b \<Rightarrow> bind_go (Pop b) (\<lambda>(r, b'). Inr (r, d\<lparr>db_currentBuffer := Some b'\<rparr>)))"

definition safeRead ::
    "nat option \<Rightarrow> int \<Rightarrow> double_buffer \<Rightarrow> (data_chunk option \<times> double_buffer) go" where
  "safeRead choice now d =
     bind_go (pop_current d) (\<lambda>((ptr, sz), d1).
       if sz = 0 then Inr (None, d1)
       else bind_go (createByteSliceFromPointer ptr sz) (\<lambda>res.
         if sz < SmallDataThreshold then
           bind_go (small_copy choice (sl_ptr res) (sl_len res) sz d1) (\<lambda>(buf, d2).
             Inr (Some \<lparr>dc_data = buf, dc_free = Some (FreeSmall buf)\<rparr>, d2))
         else if sz > LargeDataThreshold then
           Inr (Some \<lparr>dc_data = res, dc_free = Some (FreeRecycle ptr sz)\<rparr>, d1)
         else if MediumPool_IsValid now ptr (lc_MediumPool (db_pm d1)) then
           Inr (Some \<lparr>dc_data = res, dc_free = Some (FreeRecycle ptr sz)\<rparr>, d1)
         else
           let (p, mem) = mem_alloc (nat sz) (db_mem d1);
               mem = mem_write mem p (mem_read mem (sl_ptr res) (nat sz))
           in Inr (Some \<lparr>dc_data = \<lparr>sl_ptr = p, sl_len = sz, sl_cap = sz\<rparr>,
                         dc_free = Some (FreeRecycle ptr sz)\<rparr>, d1\<lparr>db_mem := mem\<rparr>)))"

definition zeroCopyRead :: "double_buffer \<Rightarrow> (data_chunk option \<times> double_buffer) go" where
  "zeroCopyRead d =
     bind_go (pop_current d) (\<lambda>((ptr, sz), d1).
       if ptr = NilPtr then Inr (None, d1)
       else bind_go (createByteSliceFromPointer ptr sz) (\<lambda>res.
         let d2 = (if sz > LargeDataThreshold
                   then d1\<lparr>db_pm := (db_pm d1)\<lparr>lc_BigDataPool :=
                          BigDataPool_Release ptr (lc_BigDataPool (db_pm d1))\<rparr>\<rparr>
                   else d1)
         in Inr (Some \<lparr>dc_data = res, dc_free = Some (FreeBig ptr sz)\<rparr>, d2)))"

text \<open>
  The three parts of \<open>tryRead\<close>: whether a new buffer has to be picked (an exhausted one is reset and
  goes back to the pool), the picking, and the read in the registered mode.
\<close>

definition tryRead_enter :: "double_buffer \<Rightarrow> bool \<times> double_buffer" where
  "tryRead_enter d =
     (case db_currentBuffer d of
        None \<Rightarrow> (True, d)
      | Some b \<Rightarrow>
          if Len b = 0
          then (let uselessBuffer = Reset b
                in (True, buf_pool_put uselessBuffer (d\<lparr>db_currentBuffer := None\<rparr>)))
          else (False, d))"

definition tryRead_mode ::
    "nat option \<Rightarrow> int \<Rightarrow> double_buffer \<Rightarrow> ((ts_error + data_chunk) \<times> double_buffer) go" where
  "tryRead_mode choice now d =
     (case db_readMode d of
        None \<Rightarrow> Inl NilDereference
      | Some readMode \<Rightarrow>
          if readMode = SafeRead then
            bind_go (safeRead choice now d) (\<lambda>(r, d1).
              case r of Some res \<Rightarrow> Inr (Inr res, d1) | None \<Rightarrow> Inr (Inl ErrRead, d1))
          else if readMode = ZeroCopyRead then
            bind_go (zeroCopyRead d) (\<lambda>(r, d1).
              case r of Some res \<Rightarrow> Inr (Inr res, d1) | None \<Rightarrow> Inr (Inl ErrRead, d1))
          else Inr (Inl ErrReadMode, d))"

definition tryRead ::
    "nat option \<Rightarrow> int \<Rightarrow> double_buffer \<Rightarrow> ((ts_error + data_chunk) \<times> double_buffer) go" where
  "tryRead choice now d =
     (let (pick, d1) = tryRead_enter d
      in if pick then
           bind_go (pickBufferFromHeap d1) (\<lambda>(ok, d2).
             if \<not> ok then Inr (Inl ErrNoBuffer, d2) else tryRead_mode choice now d2)
         else tryRead_mode choice now d1)"

text \<open>
  \<open>BlockingRead\<close> up to its \<open>select\<close>: either the first \<open>tryRead\<close> has data, or the reader is registered
  and blocks. \<open>BlockingRead_resume\<close> is the rest, for the branch of the \<open>select\<close> that is taken.
\<close>

datatype wake = Notified | CtxDone ts_error | Stopped

definition BlockingRead_enter ::
    "nat option \<Rightarrow> nat option \<Rightarrow> int \<Rightarrow> double_buffer \<Rightarrow> ((data_chunk + (int \<times> nat)) \<times> double_buffer) go" where
  "BlockingRead_enter choice wchoice now d =
     bind_go (tryRead choice now d) (\<lambda>(r, d1).
       case r of
         Inr data \<Rightarrow> Inr (Inl data, d1)
       | Inl _ \<Rightarrow>
           let (w, wm) = register wchoice (db_wm d1)
           in Inr (Inr w, d1\<lparr>db_wm := wm\<rparr>))"

definition unregister_db :: "int \<Rightarrow> double_buffer \<Rightarrow> double_buffer" where
  "unregister_db wid d = d\<lparr>db_wm := unregister wid (db_wm d)\<rparr>"

text \<open>\<open>None\<close>: the branch cannot be taken now.\<close>

definition BlockingRead_resume ::
    "nat option \<Rightarrow> int \<Rightarrow> wake \<Rightarrow> int \<times> nat \<Rightarrow> double_buffer \<Rightarrow>
     ((ts_error + data_chunk) \<times> double_buffer) go option" where
  "BlockingRead_resume choice now wk w d =
     (case wk of
        Notified \<Rightarrow>
          (case chan_recv (snd w) (db_wm d) of
             None \<Rightarrow> None
           | Some wm \<Rightarrow>
               Some (bind_go (tryRead choice now (d\<lparr>db_wm := wm\<rparr>)) (\<lambda>(r, d1).
                       Inr (r, unregister_db (fst w) d1))))
      | CtxDone err \<Rightarrow> Some (Inr (Inl err, unregister_db (fst w) d))
      | Stopped \<Rightarrow>
          if db_stop d then Some (Inr (Inl ErrBufferClose, unregister_db (fst w) d)) else None)"

text \<open>Two methods that the source leaves as stubs.\<close>

definition RegisterCallback :: "double_buffer \<Rightarrow> (double_buffer \<Rightarrow> double_buffer) \<times> double_buffer" where
  "RegisterCallback d = ((\<lambda>d. d), d)"

definition BatchRead :: "int \<Rightarrow> double_buffer \<Rightarrow> slice list \<times> double_buffer" where
  "BatchRead n d = ([], d)"

section \<open>Releasing a chunk\<close>

definition DataChunk_Bytes :: "data_chunk \<Rightarrow> slice" where
  "DataChunk_Bytes c = dc_data c"

fun run_free :: "free_action \<Rightarrow> double_buffer \<Rightarrow> double_buffer" where
  "run_free (FreeSmall buf) d = d\<lparr>db_pm := SmallPool_Put (buf\<lparr>sl_len := 0\<rparr>) (db_pm d)\<rparr>"
| "run_free (FreeRecycle ptr sz) d = recycle ptr sz d"
| "run_free (FreeBig ptr sz) d =
     d\<lparr>db_pm := (db_pm d)\<lparr>lc_BigDataPool := BigDataPool_Free ptr sz (lc_BigDataPool (db_pm d))\<rparr>\<rparr>"

definition DataChunk_Release :: "data_chunk \<Rightarrow> double_buffer \<Rightarrow> data_chunk \<times> double_buffer" where
  "DataChunk_Release c d =
     (case dc_free c of None \<Rightarrow> (c, d) | Some fr \<Rightarrow> (c\<lparr>dc_free := None\<rparr>, run_free fr d))"

section \<open>Closing\<close>

text \<open>Every round of \<open>drainProcessor\<close> removes one item, so the length of the heap bounds the rounds.\<close>

fun drain_loop :: "nat \<Rightarrow> double_buffer \<Rightarrow> double_buffer go" where
  "drain_loop 0 d = Inr d"
| "drain_loop (Suc n) d =
     (if WrapHeap_Len (db_pendingHeap d) > 0 then
        bind_go (WrapHeap_Pick (db_pendingHeap d)) (\<lambda>(r, h).
          case r of
            None \<Rightarrow> Inl NilDereference
          | Some item \<Rightarrow> drain_loop n (buf_pool_put (mhi_buf item) (d\<lparr>db_pendingHeap := h\<rparr>)))
      else Inr d)"

definition drainProcessor :: "double_buffer \<Rightarrow> double_buffer go" where
  "drainProcessor d = drain_loop (length (db_pendingHeap d)) d"

definition Close :: "double_buffer \<Rightarrow> double_buffer go" where
  "Close d =
     (if db_state d \<noteq> WritingState then Inr d
      else
        let d1 = d\<lparr>db_state := ClosedState\<rparr>
        in if db_stop d1 then Inl CloseOfClosedChannel
           else drainProcessor
                  (buf_pool_put (db_passive d1) (buf_pool_put (db_active d1) (d1\<lparr>db_stop := True\<rparr>))))"

end
