(* ===== verification/Buffer_Invariant.thy ===== *)
theory Buffer_Invariant
  imports Double_Buffer
begin

text \<open>
  The invariant of the double buffer and what each of its operations does to the data it holds.

  \<open>content d\<close> is everything that was accepted and not handed out yet, oldest first: the rest of the
  buffer being read, then the switched-out buffers that have a sequence number (in the heap or about
  to be pushed) by number, then the switched-out buffers whose goroutine has not run, then the active
  buffer. \<open>db_safe\<close> holds in every state of an undisturbed buffer, \<open>db_inv\<close> adds what holds while
  it is open.
\<close>

section \<open>Well-formed buffers\<close>

definition item_ok :: "buffer_item \<Rightarrow> bool" where
  "item_ok x \<longleftrightarrow> bi_Ptr x \<noteq> NilPtr \<and> 0 < bi_Size x"

definition buf_ok :: "int \<Rightarrow> smart_buffer \<Rightarrow> bool" where
  "buf_ok sz b \<longleftrightarrow> sb_inv b \<and> sb_capacity b = sz \<and> (\<forall>x \<in> set (sb_items b). item_ok x)"

definition fresh_buf :: "int \<Rightarrow> smart_buffer \<Rightarrow> bool" where
  "fresh_buf sz b \<longleftrightarrow>
     sb_inv b \<and> sb_capacity b = sz \<and> sb_count b = 0 \<and> sb_head b = -1 \<and> sb_state b = WriteOnly"

lemma fresh_items: "fresh_buf sz b \<Longrightarrow> sb_items b = []"
  by (simp add: fresh_buf_def sb_items_empty_iff)

lemma fresh_ok: "fresh_buf sz b \<Longrightarrow> buf_ok sz b"
  using fresh_items [of sz b] by (simp add: fresh_buf_def buf_ok_def)

lemma fresh_tail: "fresh_buf sz b \<Longrightarrow> sb_tail b = -1"
  by (simp add: fresh_buf_def sb_inv_def)

lemma NewSmartBuffer_fresh:
  "0 \<le> sz \<Longrightarrow> sz < 2 ^ 31 \<Longrightarrow> \<exists>b. NewSmartBuffer sz = Inr b \<and> fresh_buf sz b"
  by (simp add: NewSmartBuffer_def fresh_buf_def sb_inv_def)

lemma Reset_fresh: "buf_ok sz b \<Longrightarrow> fresh_buf sz (Reset b)"
  using Reset_ok [of b] by (auto simp: buf_ok_def fresh_buf_def Reset_def)

lemma SetState_keeps [simp]:
  "sb_items (SetState st b) = sb_items b" "buf_ok sz (SetState st b) = buf_ok sz b"
  "sb_tail (SetState st b) = sb_tail b" "sb_count (SetState st b) = sb_count b"
  by (simp_all add: SetState_def sb_items_def buf_ok_def sb_inv_def)

section \<open>The invariant\<close>

definition heap_bufs :: "double_buffer \<Rightarrow> smart_buffer list" where
  "heap_bufs d = map mhi_buf (db_pendingHeap d)"

definition bufs_ok :: "double_buffer \<Rightarrow> bool" where
  "bufs_ok d \<longleftrightarrow>
     1 \<le> db_size d \<and> db_size d < 2 ^ 31 \<and>
     (\<forall>b \<in> {db_active d, db_passive d} \<union> set_option (db_currentBuffer d) \<union> set (db_pool d) \<union>
            set (heap_bufs d) \<union> snd ` set (db_numbered d) \<union> set (db_spawned d). buf_ok (db_size d) b)"

definition small_ok :: "double_buffer \<Rightarrow> bool" where
  "small_ok d \<longleftrightarrow> (\<forall>s \<in> set (lc_SmallPool (db_pm d)). sl_ptr s \<noteq> NilPtr \<and> 0 \<le> sl_cap s \<and> sl_cap s < 2 ^ 31)"

definition db_safe :: "double_buffer \<Rightarrow> bool" where
  "db_safe d \<longleftrightarrow>
     bufs_ok d \<and> small_ok d \<and> mh_inv (db_pendingHeap d) \<and>
     wm_inv (db_wm d) \<and> \<not> wm_closed (db_wm d) \<and>
     db_state d \<in> {WritingState, ClosedState} \<and> (db_stop d \<longleftrightarrow> db_state d = ClosedState)"

text \<open>The switched-out buffers with a number, and the numbers they must have.\<close>

definition numbered :: "double_buffer \<Rightarrow> (int \<times> smart_buffer) list" where
  "numbered d = map entry (db_pendingHeap d) @ db_numbered d"

definition waiting :: "double_buffer \<Rightarrow> (int \<times> smart_buffer) list" where
  "waiting d = sort_key fst (numbered d)"

definition seq_ok :: "double_buffer \<Rightarrow> bool" where
  "seq_ok d \<longleftrightarrow>
     1 \<le> db_currentSequence d \<and> db_currentSequence d \<le> db_sequence d + 1 \<and> db_sequence d < 2 ^ 63 - 1 \<and>
     mset (map fst (numbered d)) = mset [db_currentSequence d..db_sequence d]"

definition active_ok :: "double_buffer \<Rightarrow> bool" where
  "active_ok d \<longleftrightarrow>
     sb_tail (db_active d) = -1 \<and> db_count d = sb_count (db_active d) \<and>
     (sb_state (db_active d) = WriteOnly \<or>
      sb_state (db_active d) = ReadOnly \<and> sb_count (db_active d) = db_size d)"

definition spare_ok :: "double_buffer \<Rightarrow> bool" where
  "spare_ok d \<longleftrightarrow>
     fresh_buf (db_size d) (db_passive d) \<and> (\<forall>b \<in> set (db_pool d). fresh_buf (db_size d) b)"

definition db_inv :: "double_buffer \<Rightarrow> bool" where
  "db_inv d \<longleftrightarrow> db_safe d \<and> db_state d = WritingState \<and> seq_ok d \<and> active_ok d \<and> spare_ok d"

lemmas db_inv_parts =
  db_inv_def db_safe_def bufs_ok_def small_ok_def seq_ok_def active_ok_def spare_ok_def
  heap_bufs_def numbered_def

section \<open>The data inside\<close>

definition current_items :: "double_buffer \<Rightarrow> buffer_item list" where
  "current_items d = (case db_currentBuffer d of None \<Rightarrow> [] | Some b \<Rightarrow> sb_items b)"

definition content :: "double_buffer \<Rightarrow> buffer_item list" where
  "content d = current_items d @ concat (map (sb_items \<circ> snd) (waiting d)) @
     concat (map sb_items (db_spawned d)) @ sb_items (db_active d)"

lemma state_simps [simp]:
  "WritingState \<noteq> ClosedState" "ClosedState \<noteq> WritingState" "WritingState \<noteq> SwitchingState"
  "ReadOnly \<noteq> WriteOnly" "WriteOnly \<noteq> ReadOnly" "WriteOnly \<noteq> ClosedState" "ReadOnly \<noteq> ClosedState"
  by (simp_all add: WritingState_def ClosedState_def SwitchingState_def ReadOnly_def WriteOnly_def)

section \<open>Switching\<close>

text \<open>The state after a switch with the spare buffer \<open>nb\<close>.\<close>

definition switched :: "smart_buffer \<Rightarrow> smart_buffer list \<Rightarrow> int \<Rightarrow> double_buffer \<Rightarrow> double_buffer" where
  "switched nb pool now d =
     d\<lparr>db_active := db_passive d, db_passive := nb, db_pool := pool, db_count := 0,
       db_lastSwitch := UnixMilli now,
       db_spawned := db_spawned d @ [SetState ReadOnly (db_active d)], db_state := WritingState\<rparr>"

lemma buf_pool_get_ok:
  assumes "0 \<le> db_size d" "db_size d < 2 ^ 31" "\<forall>b \<in> set (db_pool d). fresh_buf (db_size d) b"
  shows "\<exists>nb pool. buf_pool_get choice d = Inr (nb, d\<lparr>db_pool := pool\<rparr>) \<and>
           fresh_buf (db_size d) nb \<and> set pool \<subseteq> set (db_pool d)"
proof (cases "\<exists>k. choice = Some k \<and> k < length (db_pool d)")
  case True
  then obtain k where "choice = Some k" "k < length (db_pool d)" by blast
  then show ?thesis
    using assms(3) set_take_subset [of k "db_pool d"] set_drop_subset [of "Suc k" "db_pool d"]
    by (intro exI [of _ "db_pool d ! k"] exI [of _ "take k (db_pool d) @ drop (Suc k) (db_pool d)"])
       (auto simp: buf_pool_get_def)
next
  case False
  obtain nb where nb: "NewSmartBuffer (db_size d) = Inr nb" "fresh_buf (db_size d) nb"
    using NewSmartBuffer_fresh [OF assms(1,2)] by blast
  have "buf_pool_get choice d = Inr (nb, d\<lparr>db_pool := db_pool d\<rparr>)"
    using False nb(1) by (auto simp: buf_pool_get_def split: option.splits)
  with nb(2) show ?thesis by blast
qed

lemma switchChannel_open:
  assumes "db_inv d"
  shows "\<exists>nb pool. switchChannel choice now d = Inr (switched nb pool now d) \<and>
           fresh_buf (db_size d) nb \<and> set pool \<subseteq> set (db_pool d)"
proof -
  let ?d1 = "d\<lparr>db_state := SwitchingState, db_active := SetState ReadOnly (db_active d)\<rparr>"
  obtain nb pool where g: "buf_pool_get choice ?d1 = Inr (nb, ?d1\<lparr>db_pool := pool\<rparr>)"
      "fresh_buf (db_size d) nb" "set pool \<subseteq> set (db_pool d)"
    using buf_pool_get_ok [of ?d1 choice] assms by (auto simp: db_inv_parts)
  have "switchChannel choice now d = Inr (switched nb pool now d)"
    using assms g(1) by (simp add: switchChannel_def Let_def swapChannels_def switched_def db_inv_def)
  with g(2,3) show ?thesis by blast
qed

lemma switched_inv:
  assumes "db_inv d" "fresh_buf (db_size d) nb" "set pool \<subseteq> set (db_pool d)"
  shows "db_inv (switched nb pool now d)"
proof -
  let ?d = "switched nb pool now d"
  have p: "fresh_buf (db_size d) (db_passive d)" using assms(1) by (simp add: db_inv_parts)
  have "bufs_ok ?d"
    using assms fresh_ok [OF p] fresh_ok [OF assms(2)] unfolding db_inv_parts switched_def by auto
  moreover have "seq_ok ?d" using assms(1) by (simp add: db_inv_parts switched_def)
  moreover have "active_ok ?d"
    using p fresh_tail [OF p] by (simp add: active_ok_def switched_def fresh_buf_def)
  moreover have "spare_ok ?d" using assms by (auto simp: db_inv_parts switched_def)
  ultimately show ?thesis
    using assms(1) by (simp add: db_inv_def db_safe_def small_ok_def switched_def)
qed

lemma switched_content:
  assumes "db_inv d"
  shows "content (switched nb pool now d) = content d"
proof -
  have "sb_items (db_passive d) = []"
    using assms fresh_items by (auto simp: db_inv_def spare_ok_def)
  then show ?thesis
    by (simp add: content_def current_items_def waiting_def numbered_def switched_def)
qed

section \<open>The numbered buffers\<close>

lemma seq_distinct: "seq_ok d \<Longrightarrow> distinct (map fst (numbered d))"
  by (metis distinct_upto mset_eq_imp_distinct_iff seq_ok_def)

text \<open>Only which buffer has which number matters, not where it is.\<close>

lemma waiting_eqI:
  assumes "mset xs = mset (numbered d)" "distinct (map fst xs)" "sorted (map fst xs)"
  shows "waiting d = xs"
proof -
  have "set xs = set (numbered d)" using assms(1) by (metis set_mset_mset)
  moreover have "inj_on fst (set xs)" using assms(2) by (simp add: distinct_map)
  ultimately have "inj_on fst (set (numbered d))" by simp
  then show ?thesis
    unfolding waiting_def using assms by (intro sort_key_inj_key_eq) simp_all
qed

lemma waiting_mset [simp]: "mset (waiting d) = mset (numbered d)"
  by (simp add: waiting_def)

lemma waiting_sorted [simp]: "sorted (map fst (waiting d))"
  by (simp add: waiting_def)

lemma mset_map_eq: "mset xs = mset ys \<Longrightarrow> mset (map f xs) = mset (map f ys)"
  by (metis mset_map)

lemma waiting_keys: "seq_ok d \<Longrightarrow> map fst (waiting d) = [db_currentSequence d..db_sequence d]"
proof -
  assume "seq_ok d"
  then have "mset (map fst (waiting d)) = mset [db_currentSequence d..db_sequence d]"
    using mset_map_eq [OF waiting_mset, of fst d] by (simp add: seq_ok_def del: mset_map)
  then have "sort [db_currentSequence d..db_sequence d] = map fst (waiting d)"
    by (intro properties_for_sort) simp_all
  then show ?thesis by (simp add: sort_key_id_if_sorted)
qed

lemma waiting_distinct: "seq_ok d \<Longrightarrow> distinct (map fst (waiting d))"
  by (simp add: waiting_keys)

lemma waiting_cong: "seq_ok d \<Longrightarrow> mset (numbered d') = mset (numbered d) \<Longrightarrow> waiting d' = waiting d"
  using waiting_eqI [of "waiting d" d'] by (simp add: waiting_distinct)

lemma mset_remove_nth: "k < length xs \<Longrightarrow> mset xs = add_mset (xs ! k) (mset (remove_nth k xs))"
proof -
  assume "k < length xs"
  then have "mset xs = mset (take k xs @ xs ! k # drop (Suc k) xs)" by (simp add: id_take_nth_drop [symmetric])
  then show ?thesis by (simp add: remove_nth_def)
qed

lemma set_remove_nth: "set (remove_nth k xs) \<subseteq> set xs"
  by (auto simp: remove_nth_def dest: in_set_takeD in_set_dropD)

subsection \<open>A goroutine takes its number\<close>

lemma take_number_eq:
  assumes "db_inv d" "k < length (db_spawned d)" "db_sequence d < 2 ^ 63 - 2"
  shows "take_number k d =
    d\<lparr>db_sequence := db_sequence d + 1, db_spawned := remove_nth k (db_spawned d),
      db_numbered := db_numbered d @ [(db_sequence d + 1, db_spawned d ! k)]\<rparr>"
  using assms by (simp add: take_number_def Let_def db_inv_def seq_ok_def)

lemma take_number_inv:
  assumes "db_inv d" "k < length (db_spawned d)" "db_sequence d < 2 ^ 63 - 2"
  shows "db_inv (take_number k d)"
proof -
  let ?d = "take_number k d"
  note eq = take_number_eq [OF assms]
  have inv: "seq_ok d" "db_currentSequence d \<le> db_sequence d + 1"
    using assms(1) by (auto simp: db_inv_def seq_ok_def)
  have "mset (map fst (numbered ?d)) = add_mset (db_sequence d + 1) (mset (map fst (numbered d)))"
    by (simp add: eq numbered_def)
  moreover have "[db_currentSequence d..db_sequence d + 1] =
      [db_currentSequence d..db_sequence d] @ [db_sequence d + 1]"
    using inv(2) by (simp add: upto_rec2)
  ultimately have "seq_ok ?d" using inv assms(3) by (simp add: eq seq_ok_def)
  moreover have "bufs_ok ?d"
    using assms(1,2) set_remove_nth [of k "db_spawned d"]
    unfolding eq db_inv_parts by (auto dest: nth_mem)
  ultimately show ?thesis
    using assms(1) by (simp add: eq db_inv_def db_safe_def small_ok_def active_ok_def spare_ok_def)
qed

lemma waiting_take_number:
  assumes "db_inv d" "k < length (db_spawned d)" "db_sequence d < 2 ^ 63 - 2"
  shows "waiting (take_number k d) = waiting d @ [(db_sequence d + 1, db_spawned d ! k)]"
proof (rule waiting_eqI)
  have seq: "seq_ok d" using assms(1) by (simp add: db_inv_def)
  let ?w = "waiting d @ [(db_sequence d + 1, db_spawned d ! k)]"
  show "mset ?w = mset (numbered (take_number k d))"
    by (simp add: take_number_eq [OF assms] numbered_def)
  show "distinct (map fst ?w)" "sorted (map fst ?w)"
    by (auto simp: waiting_keys [OF seq] sorted_append)
qed

text \<open>In the order of the switches, taking a number does not change the order of the data.\<close>

lemma take_number_content:
  assumes "db_inv d" "db_spawned d \<noteq> []" "db_sequence d < 2 ^ 63 - 2"
  shows "content (take_number 0 d) = content d"
proof -
  have k: "0 < length (db_spawned d)" using assms(2) by simp
  obtain b bs where "db_spawned d = b # bs" using assms(2) by (cases "db_spawned d") auto
  then show ?thesis
    using waiting_take_number [OF assms(1) k assms(3)]
    by (simp add: content_def current_items_def take_number_eq [OF assms(1) k assms(3)] remove_nth_def)
qed

lemma mset_concat_nth:
  "k < length xs \<Longrightarrow> mset (concat (map f xs)) = mset (f (xs ! k)) + mset (concat (map f (remove_nth k xs)))"
proof -
  assume "k < length xs"
  then have "concat (map f xs) = concat (map f (take k xs @ xs ! k # drop (Suc k) xs))"
    by (simp add: id_take_nth_drop [symmetric])
  then show ?thesis by (simp add: remove_nth_def)
qed

lemma take_number_content_mset:
  assumes "db_inv d" "k < length (db_spawned d)" "db_sequence d < 2 ^ 63 - 2"
  shows "mset (content (take_number k d)) = mset (content d)"
  using waiting_take_number [OF assms] mset_concat_nth [OF assms(2), of sb_items]
  by (simp add: content_def current_items_def take_number_eq [OF assms])

subsection \<open>A goroutine pushes its buffer\<close>

lemma push_pending_eq:
  assumes "k < length (db_numbered d)" "db_numbered d ! k = (s, b)"
  shows "push_pending k d =
    d\<lparr>db_numbered := remove_nth k (db_numbered d), db_pendingHeap := mh_push (s, b) (db_pendingHeap d),
      db_notifying := db_notifying d @ [Len b]\<rparr>"
  using assms by (simp add: push_pending_def mh_push_def)

lemma set_heap_bufs: "set (heap_bufs d) = snd ` set_mset (mh_elems (db_pendingHeap d))"
  by (auto simp: heap_bufs_def mh_elems_def entry_def image_iff)

lemma push_pending_numbered:
  assumes "mh_inv (db_pendingHeap d)" "k < length (db_numbered d)"
  shows "mset (numbered (push_pending k d)) = mset (numbered d)"
proof -
  obtain s b where sb: "db_numbered d ! k = (s, b)" by fastforce
  note eq = push_pending_eq [OF assms(2) sb]
  have "mset (map entry (mh_push (s, b) (db_pendingHeap d))) =
      add_mset (s, b) (mset (map entry (db_pendingHeap d)))"
    using pending.push_elems [OF assms(1), of "(s, b)"] by (simp add: mh_elems_def del: mset_map)
  then show ?thesis
    using mset_remove_nth [OF assms(2)] sb by (simp add: eq numbered_def del: mset_map)
qed

lemma push_pending_safe:
  assumes "db_safe d" "k < length (db_numbered d)"
  shows "db_safe (push_pending k d)"
proof -
  obtain s b where sb: "db_numbered d ! k = (s, b)" by fastforce
  note eq = push_pending_eq [OF assms(2) sb]
  have h: "mh_inv (db_pendingHeap d)" using assms(1) by (simp add: db_safe_def)
  have "(s, b) \<in> set (db_numbered d)" using assms(2) sb by (metis nth_mem)
  then have "buf_ok (db_size d) b" using assms(1) by (force simp: db_safe_def bufs_ok_def)
  then have "bufs_ok (push_pending k d)"
    using assms(1) set_remove_nth [of k "db_numbered d"]
    unfolding db_safe_def bufs_ok_def set_heap_bufs eq by (auto simp: pending.push_elems [OF h])
  then show ?thesis
    using assms(1) pending.push_inv [OF h] by (simp add: eq db_safe_def small_ok_def)
qed

lemma push_pending_inv:
  assumes "db_inv d" "k < length (db_numbered d)"
  shows "db_inv (push_pending k d)"
proof -
  obtain s b where sb: "db_numbered d ! k = (s, b)" by fastforce
  note eq = push_pending_eq [OF assms(2) sb]
  have safe: "db_safe d" using assms(1) by (simp add: db_inv_def)
  then have h: "mh_inv (db_pendingHeap d)" by (simp add: db_safe_def)
  have "mset (map fst (numbered (push_pending k d))) = mset (map fst (numbered d))"
    by (rule mset_map_eq [OF push_pending_numbered [OF h assms(2)]])
  then have "seq_ok (push_pending k d)" using assms(1) by (simp add: db_inv_def seq_ok_def eq del: mset_map)
  then show ?thesis
    using assms(1) push_pending_safe [OF safe assms(2)]
    by (simp add: eq db_inv_def active_ok_def spare_ok_def)
qed

lemma push_pending_content:
  assumes "db_inv d" "k < length (db_numbered d)"
  shows "content (push_pending k d) = content d"
proof -
  obtain s b where sb: "db_numbered d ! k = (s, b)" by fastforce
  have "waiting (push_pending k d) = waiting d"
    using assms by (intro waiting_cong push_pending_numbered) (auto simp: db_inv_def db_safe_def)
  then show ?thesis
    by (simp add: content_def current_items_def push_pending_eq [OF assms(2) sb])
qed

subsection \<open>The consumer picks a buffer\<close>

lemma Pick_cases:
  assumes "mh_inv h"
  obtains "h = []" "WrapHeap_Pick h = Inr (None, [])"
  | x h' where "h \<noteq> []" "WrapHeap_Pick h = Inr (Some x, h')" "mh_inv h'"
      "mh_elems h = add_mset (entry x) (mh_elems h')" "\<forall>y \<in># mh_elems h. mhi_sequence x \<le> fst y"
proof (cases "h = []")
  case True
  with that(1) show ?thesis by (simp add: Pick_empty)
next
  case False
  from Pick_nonempty [OF assms False] that(2) [OF False] show ?thesis by blast
qed

text \<open>
  What one round of the loop does: it reports an empty heap, or takes the buffer that is next in
  sequence, or leaves the heap with the same entries.
\<close>

definition same_pending :: "double_buffer \<Rightarrow> double_buffer \<Rightarrow> bool" where
  "same_pending d d' \<longleftrightarrow>
     (\<exists>h. d' = d\<lparr>db_pendingHeap := h\<rparr> \<and> mh_inv h \<and> mh_elems h = mh_elems (db_pendingHeap d))"

definition picked :: "smart_buffer \<Rightarrow> double_buffer \<Rightarrow> double_buffer \<Rightarrow> bool" where
  "picked b d d' \<longleftrightarrow>
     (\<exists>h. d' = d\<lparr>db_pendingHeap := h, db_currentBuffer := Some b,
                 db_currentSequence := wrap64 (db_currentSequence d + 1)\<rparr> \<and> mh_inv h \<and>
          mh_elems (db_pendingHeap d) = add_mset (db_currentSequence d, b) (mh_elems h))"

lemma pick_once_cases:
  assumes "mh_inv (db_pendingHeap d)"
  obtains "pick_once d = Inr (Some False, d)" "db_pendingHeap d = []"
  | b d' where "pick_once d = Inr (Some True, d')" "picked b d d'"
  | d' where "pick_once d = Inr (None, d')" "same_pending d d'"
      "db_currentSequence d \<notin> fst ` set_mset (mh_elems (db_pendingHeap d)) \<or>
       (\<exists>y \<in># mh_elems (db_pendingHeap d). fst y < db_currentSequence d)"
proof (cases rule: Pick_cases [OF assms])
  case 1
  then show ?thesis using that(1) by (simp add: pick_once_def)
next
  case (2 x h')
  show ?thesis
  proof (cases "mhi_sequence x = db_currentSequence d")
    case True
    then have "picked (mhi_buf x) d (d\<lparr>db_pendingHeap := h', db_currentBuffer := Some (mhi_buf x),
        db_currentSequence := wrap64 (db_currentSequence d + 1)\<rparr>)"
      using 2 by (auto simp: picked_def entry_def)
    with True 2 that(2) show ?thesis by (simp add: pick_once_def)
  next
    case False
    have x: "heap_Push h' x = WrapHeap_Push x h'" by (simp add: WrapHeap_Push_def)
    have "same_pending d (d\<lparr>db_pendingHeap := WrapHeap_Push x h'\<rparr>)"
      using heap_Push_correct [OF 2(3), of x] 2(4) unfolding x same_pending_def by auto
    moreover have "db_currentSequence d \<notin> fst ` set_mset (mh_elems (db_pendingHeap d)) \<or>
       (\<exists>y \<in># mh_elems (db_pendingHeap d). fst y < db_currentSequence d)"
    proof (cases "mhi_sequence x < db_currentSequence d")
      case True
      then show ?thesis using 2(4) by (auto simp: entry_def)
    next
      case F: False
      then have "\<forall>y \<in># mh_elems (db_pendingHeap d). db_currentSequence d < fst y"
        using 2(5) False by fastforce
      then show ?thesis by force
    qed
    ultimately show ?thesis using False 2 that(3) by (simp add: pick_once_def)
  qed
qed

lemma same_pending_safe: "same_pending d d' \<Longrightarrow> db_safe d \<Longrightarrow> db_safe d'"
proof -
  assume "same_pending d d'" and safe: "db_safe d"
  then obtain h where h: "d' = d\<lparr>db_pendingHeap := h\<rparr>" "mh_inv h"
      "mh_elems h = mh_elems (db_pendingHeap d)" by (auto simp: same_pending_def)
  have "set (heap_bufs d') = set (heap_bufs d)" unfolding set_heap_bufs by (simp add: h)
  then have "bufs_ok d'" using safe by (simp add: db_safe_def bufs_ok_def h(1))
  with safe h(2) show ?thesis by (simp add: db_safe_def small_ok_def h(1))
qed

lemma same_pending_numbered: "same_pending d d' \<Longrightarrow> mset (numbered d') = mset (numbered d)"
  by (auto simp: same_pending_def numbered_def mh_elems_def)

lemma same_pending_inv:
  assumes "same_pending d d'" "db_inv d"
  shows "db_inv d' \<and> content d' = content d"
proof -
  have n: "mset (numbered d') = mset (numbered d)" by (rule same_pending_numbered [OF assms(1)])
  obtain h where d': "d' = d\<lparr>db_pendingHeap := h\<rparr>" using assms(1) by (auto simp: same_pending_def)
  have "seq_ok d'"
    using assms(2) mset_map_eq [OF n, of fst] by (simp add: d' db_inv_def seq_ok_def del: mset_map)
  moreover have "waiting d' = waiting d" using n assms(2) by (intro waiting_cong) (auto simp: db_inv_def)
  moreover have "db_safe d'" using assms by (auto simp: db_inv_def intro: same_pending_safe)
  ultimately show ?thesis
    using assms(2) by (simp add: d' db_inv_def active_ok_def spare_ok_def content_def current_items_def)
qed

lemma picked_safe:
  assumes "picked b d d'" "db_safe d"
  shows "db_safe d' \<and> buf_ok (db_size d) b"
proof -
  obtain h where h: "d' = d\<lparr>db_pendingHeap := h, db_currentBuffer := Some b,
        db_currentSequence := wrap64 (db_currentSequence d + 1)\<rparr>" "mh_inv h"
      "mh_elems (db_pendingHeap d) = add_mset (db_currentSequence d, b) (mh_elems h)"
    using assms(1) by (auto simp: picked_def)
  have bufs: "set (heap_bufs d) = insert b (set (heap_bufs d'))" unfolding set_heap_bufs by (simp add: h)
  then have "buf_ok (db_size d) b" using assms(2) by (simp add: db_safe_def bufs_ok_def)
  moreover from this have "bufs_ok d'"
    using assms(2) bufs by (simp add: db_safe_def bufs_ok_def h(1))
  ultimately show ?thesis using assms(2) h(2) by (simp add: db_safe_def small_ok_def h(1))
qed

lemma picked_numbered:
  "picked b d d' \<Longrightarrow> mset (numbered d) = add_mset (db_currentSequence d, b) (mset (numbered d'))"
  by (auto simp: picked_def numbered_def mh_elems_def)

lemma picked_waiting:
  assumes "picked b d d'" "seq_ok d"
  shows "waiting d = (db_currentSequence d, b) # waiting d' \<and> seq_ok d' \<and>
    db_currentSequence d' = db_currentSequence d + 1 \<and> db_sequence d' = db_sequence d"
proof -
  obtain h where d': "d' = d\<lparr>db_pendingHeap := h, db_currentBuffer := Some b,
      db_currentSequence := wrap64 (db_currentSequence d + 1)\<rparr>" using assms(1) by (auto simp: picked_def)
  have n: "mset (numbered d) = add_mset (db_currentSequence d, b) (mset (numbered d'))"
    by (rule picked_numbered [OF assms(1)])
  have keys: "mset (map fst (numbered d)) = mset [db_currentSequence d..db_sequence d]"
    using assms(2) by (simp add: seq_ok_def)
  have ms: "mset (map fst (numbered d)) = add_mset (db_currentSequence d) (mset (map fst (numbered d')))"
    using n by simp
  have "db_currentSequence d \<in># mset (map fst (numbered d))" unfolding ms by simp
  then have le: "db_currentSequence d \<le> db_sequence d" unfolding keys by simp
  have "wrap64 (db_currentSequence d + 1) = db_currentSequence d + 1"
    using le assms(2) by (simp add: seq_ok_def)
  then have cs: "db_currentSequence d' = db_currentSequence d + 1" "db_sequence d' = db_sequence d"
    by (simp_all add: d')
  have "mset (map fst (numbered d')) = mset [db_currentSequence d + 1..db_sequence d]"
    using ms keys upto_rec1 [OF le] by (simp del: mset_map)
  then have seq': "seq_ok d'" using le assms(2) cs by (simp add: seq_ok_def)
  have "waiting d = (db_currentSequence d, b) # waiting d'"
    by (rule waiting_eqI) (auto simp: n waiting_keys [OF seq'] cs)
  with seq' cs show ?thesis by simp
qed

lemma picked_inv:
  assumes "picked b d d'" "db_inv d" "db_currentBuffer d = None"
  shows "db_inv d' \<and> content d' = content d"
proof -
  obtain h where d': "d' = d\<lparr>db_pendingHeap := h, db_currentBuffer := Some b,
      db_currentSequence := wrap64 (db_currentSequence d + 1)\<rparr>" using assms(1) by (auto simp: picked_def)
  have seq: "seq_ok d" and safe: "db_safe d" using assms(2) by (auto simp: db_inv_def)
  note w = picked_waiting [OF assms(1) seq]
  have "active_ok d' \<and> spare_ok d' \<and> db_state d' = WritingState"
    using assms(2) by (simp add: d' db_inv_def active_ok_def spare_ok_def)
  then have "db_inv d'" using w picked_safe [OF assms(1) safe] by (simp add: db_inv_def)
  moreover have "current_items d' = sb_items b" "db_spawned d' = db_spawned d" "db_active d' = db_active d"
    by (simp_all add: d' current_items_def)
  ultimately show ?thesis using w assms(3) by (simp add: content_def current_items_def)
qed

section \<open>Waking readers\<close>

lemma run_notify_ok:
  assumes "db_safe d" "k < length (db_notifying d)"
  shows "run_notify k d =
    Inr (d\<lparr>db_wm := woken (nat (min 64 (db_notifying d ! k))) (db_wm d),
           db_notifying := remove_nth k (db_notifying d)\<rparr>)"
  using assms notify_open [of "db_wm d"] by (simp add: run_notify_def db_safe_def)

text \<open>A step that leaves the buffers, their sequence numbers and the state alone.\<close>

definition same_buffers :: "double_buffer \<Rightarrow> double_buffer \<Rightarrow> bool" where
  "same_buffers d d' \<longleftrightarrow>
     db_active d' = db_active d \<and> db_passive d' = db_passive d \<and>
     db_currentBuffer d' = db_currentBuffer d \<and> db_pool d' = db_pool d \<and>
     db_pendingHeap d' = db_pendingHeap d \<and> db_numbered d' = db_numbered d \<and>
     db_spawned d' = db_spawned d \<and> db_size d' = db_size d \<and> db_count d' = db_count d \<and>
     db_state d' = db_state d \<and> db_stop d' = db_stop d \<and>
     db_sequence d' = db_sequence d \<and> db_currentSequence d' = db_currentSequence d"

definition side_step :: "double_buffer \<Rightarrow> double_buffer \<Rightarrow> bool" where
  "side_step d d' \<longleftrightarrow>
     same_buffers d d' \<and> wm_inv (db_wm d') \<and> \<not> wm_closed (db_wm d') \<and> small_ok d'"

lemma side_step_safe: "side_step d d' \<Longrightarrow> db_safe d \<Longrightarrow> db_safe d'"
  by (simp add: side_step_def same_buffers_def db_safe_def bufs_ok_def heap_bufs_def)

lemma side_step_content: "side_step d d' \<Longrightarrow> content d' = content d"
  by (simp add: side_step_def same_buffers_def content_def current_items_def waiting_def numbered_def)

lemma side_step_inv: "side_step d d' \<Longrightarrow> db_inv d \<Longrightarrow> db_inv d'"
  using side_step_safe [of d d']
  by (simp add: side_step_def same_buffers_def db_inv_def seq_ok_def active_ok_def spare_ok_def numbered_def)

lemma side_step_trans: "side_step d d' \<Longrightarrow> side_step d' d'' \<Longrightarrow> side_step d d''"
  by (simp add: side_step_def same_buffers_def)

section \<open>Writing\<close>

text \<open>A slice a caller can pass: not empty, at most \<open>2\<^sup>3\<^sup>1 - 1\<close> bytes.\<close>

definition slice_ok :: "slice \<Rightarrow> bool" where
  "slice_ok p \<longleftrightarrow> sl_ptr p \<noteq> NilPtr \<and> 0 < sl_len p \<and> sl_len p < 2 ^ 31"

subsection \<open>Where the copy of small data goes\<close>

definition mem_extends :: "memory \<Rightarrow> memory \<Rightarrow> bool" where
  "mem_extends m m' \<longleftrightarrow>
     mem_next m \<le> mem_next m' \<and> (\<forall>q. \<not> unallocated m q \<longrightarrow> mem_blocks m' q = mem_blocks m q)"

lemma mem_extends_refl [simp]: "mem_extends m m"
  by (simp add: mem_extends_def)

lemma unallocated_mono: "mem_next m \<le> mem_next m' \<Longrightarrow> unallocated m' q \<Longrightarrow> unallocated m q"
  by (cases q) auto

lemma mem_extends_trans: "mem_extends m m' \<Longrightarrow> mem_extends m' m'' \<Longrightarrow> mem_extends m m''"
  unfolding mem_extends_def by (metis le_trans unallocated_mono)

lemma mem_alloc_facts:
  assumes "mem_alloc n m = (p, m')"
  shows "mem_extends m m'" "unallocated m p" "\<not> unallocated m' p" "length (mem_blocks m' p) = n" "p \<noteq> NilPtr"
proof -
  have "q \<noteq> LibMem (mem_next m)" if "\<not> unallocated m q" for q using that by (cases q) auto
  then show "mem_extends m m'" "unallocated m p" "\<not> unallocated m' p" "length (mem_blocks m' p) = n" "p \<noteq> NilPtr"
    using assms by (auto simp: mem_alloc_def mem_extends_def)
qed

text \<open>
  A slice for \<open>sz\<close> bytes is either new memory or a slice taken from the pool; a pooled slice that is
  too small is dropped.
\<close>

definition slot_from :: "slice list \<Rightarrow> memory \<Rightarrow> slice \<Rightarrow> slice list \<Rightarrow> memory \<Rightarrow> bool" where
  "slot_from pool m buf pool' m' \<longleftrightarrow>
     mem_extends m m' \<and> (pool' = pool \<or> (\<exists>k < length pool. pool' = remove_nth k pool)) \<and>
     (unallocated m (sl_ptr buf) \<and> \<not> unallocated m' (sl_ptr buf) \<and>
        int (length (mem_blocks m' (sl_ptr buf))) = sl_cap buf \<or>
      m' = m \<and> (\<exists>k < length pool. pool' = remove_nth k pool \<and>
                   sl_ptr buf = sl_ptr (pool ! k) \<and> sl_cap buf = sl_cap (pool ! k)))"

lemma slot_from_pool: "slot_from pool m buf pool' m' \<Longrightarrow> set pool' \<subseteq> set pool"
  using set_remove_nth [of _ pool] by (auto simp: slot_from_def)

lemma SmallPool_Get_ok:
  assumes "SmallPool_Get choice l m = (buf, l', m')"
  shows "\<exists>pool'. l' = l\<lparr>lc_SmallPool := pool'\<rparr> \<and> slot_from (lc_SmallPool l) m buf pool' m' \<and>
    (buf \<in> set (lc_SmallPool l) \<or> sl_cap buf = 512 \<and> sl_ptr buf \<noteq> NilPtr)"
proof (cases "\<exists>k. choice = Some k \<and> k < length (lc_SmallPool l)")
  case True
  then obtain k where k: "choice = Some k" "k < length (lc_SmallPool l)" by blast
  then have "buf = lc_SmallPool l ! k" "m' = m"
      "l' = l\<lparr>lc_SmallPool := remove_nth k (lc_SmallPool l)\<rparr>"
    using assms by (simp_all add: SmallPool_Get_def remove_nth_def Let_def)
  with k show ?thesis by (auto simp: slot_from_def intro!: exI [of _ "remove_nth k (lc_SmallPool l)"])
next
  case False
  obtain p m1 where a: "mem_alloc initializeBufSize m = (p, m1)" by fastforce
  have "buf = \<lparr>sl_ptr = p, sl_len = 0, sl_cap = 512\<rparr>" "m' = m1" "l' = l"
    using assms False a
    by (auto simp: SmallPool_Get_def Let_def initializeBufSize_def split: option.splits if_splits)
  then show ?thesis
    using mem_alloc_facts [OF a]
    by (intro exI [of _ "lc_SmallPool l"]) (auto simp: slot_from_def initializeBufSize_def)
qed

lemma slot_from_realloc:
  assumes "slot_from pool m buf pool' m1" "mem_alloc (nat sz) m1 = (p, m2)" "0 \<le> sz"
  shows "slot_from pool m \<lparr>sl_ptr = p, sl_len = n, sl_cap = sz\<rparr> pool' m2"
proof -
  have "mem_extends m m2" using assms(1) mem_alloc_facts(1) [OF assms(2)]
    by (auto simp: slot_from_def intro: mem_extends_trans)
  moreover have "unallocated m p"
    using assms(1) mem_alloc_facts(2) [OF assms(2)] by (auto simp: slot_from_def mem_extends_def dest: unallocated_mono)
  ultimately show ?thesis using assms(1,3) mem_alloc_facts [OF assms(2)] by (auto simp: slot_from_def)
qed

lemma small_copy_ok:
  assumes "small_ok d" "0 < sz" "sz < 2 ^ 31"
  shows "\<exists>buf pool' m0.
    small_copy choice src len0 sz d =
      Inr (buf, d\<lparr>db_pm := (db_pm d)\<lparr>lc_SmallPool := pool'\<rparr>,
                  db_mem := mem_write m0 (sl_ptr buf) (mem_read m0 src (nat (min sz len0)))\<rparr>) \<and>
    sl_len buf = sz \<and> sz \<le> sl_cap buf \<and> sl_cap buf < 2 ^ 31 \<and> sl_ptr buf \<noteq> NilPtr \<and>
    slot_from (lc_SmallPool (db_pm d)) (db_mem d) buf pool' m0"
proof -
  obtain buf l' m1 where g: "SmallPool_Get choice (db_pm d) (db_mem d) = (buf, l', m1)"
    by (metis prod_cases3)
  obtain pool' where p: "l' = (db_pm d)\<lparr>lc_SmallPool := pool'\<rparr>"
      "slot_from (lc_SmallPool (db_pm d)) (db_mem d) buf pool' m1"
      "buf \<in> set (lc_SmallPool (db_pm d)) \<or> sl_cap buf = 512 \<and> sl_ptr buf \<noteq> NilPtr"
    using SmallPool_Get_ok [OF g] by blast
  have cap: "0 \<le> sl_cap buf" "sl_cap buf < 2 ^ 31" "sl_ptr buf \<noteq> NilPtr"
    using p(3) assms(1) by (auto simp: small_ok_def)
  show ?thesis
  proof (cases "sl_cap buf < sz")
    case True
    obtain q m2 where a: "mem_alloc (nat sz) m1 = (q, m2)" by fastforce
    let ?buf = "\<lparr>sl_ptr = q, sl_len = sz, sl_cap = sz\<rparr>"
    have "small_copy choice src len0 sz d =
      Inr (?buf, d\<lparr>db_pm := l', db_mem := mem_write m2 q (mem_read m2 src (nat (min sz len0)))\<rparr>)"
      using True cap assms(2) g a by (simp add: small_copy_def)
    with slot_from_realloc [OF p(2) a, of sz] mem_alloc_facts(5) [OF a] assms p(1) show ?thesis
      by (intro exI [of _ ?buf] exI [of _ pool'] exI [of _ m2]) simp
  next
    case False
    have "small_copy choice src len0 sz d =
      Inr (buf\<lparr>sl_len := sz\<rparr>, d\<lparr>db_pm := l',
             db_mem := mem_write m1 (sl_ptr buf) (mem_read m1 src (nat (min sz len0)))\<rparr>)"
      using False cap assms(2) g by (simp add: small_copy_def)
    moreover have "slot_from (lc_SmallPool (db_pm d)) (db_mem d) (buf\<lparr>sl_len := sz\<rparr>) pool' m1"
      using p(2) by (simp add: slot_from_def)
    ultimately show ?thesis using False cap p(1)
      by (intro exI [of _ "buf\<lparr>sl_len := sz\<rparr>"] exI [of _ pool'] exI [of _ m1]) simp
  qed
qed

subsection \<open>The item and the ring\<close>

lemma make_item_ok:
  assumes "db_safe d" "slice_ok p"
  shows "\<exists>item d1. make_item choice now p d = Inr (item, d1) \<and> item_ok item \<and>
           bi_Size item = sl_len p \<and> side_step d d1"
proof (cases "sl_len p < SmallDataThreshold")
  case True
  have sm: "small_ok d" using assms(1) by (simp add: db_safe_def)
  have len: "wrap32 (sl_len p) = sl_len p" "0 < sl_len p" "sl_len p < 2 ^ 31"
    using assms(2) by (simp_all add: slice_ok_def)
  obtain buf pool' m0 where c: "small_copy choice (sl_ptr p) (sl_len p) (sl_len p) d =
      Inr (buf, d\<lparr>db_pm := (db_pm d)\<lparr>lc_SmallPool := pool'\<rparr>,
        db_mem := mem_write m0 (sl_ptr buf) (mem_read m0 (sl_ptr p) (nat (min (sl_len p) (sl_len p))))\<rparr>)"
      "sl_len buf = sl_len p" "sl_ptr buf \<noteq> NilPtr"
      "slot_from (lc_SmallPool (db_pm d)) (db_mem d) buf pool' m0"
    using small_copy_ok [OF sm len(2,3), of choice "sl_ptr p" "sl_len p"] by blast
  have "set pool' \<subseteq> set (lc_SmallPool (db_pm d))"
    by (rule slot_from_pool [OF c(4)])
  then have "small_ok (d\<lparr>db_pm := (db_pm d)\<lparr>lc_SmallPool := pool'\<rparr>, db_mem := m\<rparr>)" for m
    using sm by (auto simp: small_ok_def)
  then have "side_step d (d\<lparr>db_pm := (db_pm d)\<lparr>lc_SmallPool := pool'\<rparr>, db_mem := m\<rparr>)" for m
    using assms(1) by (simp add: side_step_def same_buffers_def db_safe_def)
  with True len c show ?thesis by (simp add: make_item_def item_ok_def Let_def)
next
  case False
  have len: "wrap32 (sl_len p) = sl_len p" "0 < sl_len p" "sl_ptr p \<noteq> NilPtr"
    using assms(2) by (simp_all add: slice_ok_def)
  have "side_step d (d\<lparr>db_pm := (db_pm d)\<lparr>lc_BigDataPool := x\<rparr>\<rparr>)"
       "side_step d (d\<lparr>db_pm := (db_pm d)\<lparr>lc_MediumPool := y\<rparr>\<rparr>)" for x y
    using assms(1) by (simp_all add: side_step_def same_buffers_def db_safe_def small_ok_def)
  with False len show ?thesis by (simp add: make_item_def item_ok_def Let_def)
qed

lemma db_inv_active:
  assumes "db_inv d"
  shows "sb_inv (db_active d)" "sb_capacity (db_active d) = db_size d" "1 \<le> db_size d" "db_size d < 2 ^ 31"
    "sb_tail (db_active d) = -1" "db_count d = sb_count (db_active d)" "0 \<le> sb_count (db_active d)"
    "\<forall>x \<in> set (sb_items (db_active d)). item_ok x"
    "sb_state (db_active d) = WriteOnly \<or> sb_state (db_active d) = ReadOnly \<and> sb_count (db_active d) = db_size d"
proof -
  have b: "buf_ok (db_size d) (db_active d)" "1 \<le> db_size d" "db_size d < 2 ^ 31" and "active_ok d"
    using assms by (simp_all add: db_inv_def db_safe_def bufs_ok_def)
  then show "sb_inv (db_active d)" "sb_capacity (db_active d) = db_size d" "1 \<le> db_size d" "db_size d < 2 ^ 31"
    "sb_tail (db_active d) = -1" "db_count d = sb_count (db_active d)" "0 \<le> sb_count (db_active d)"
    "\<forall>x \<in> set (sb_items (db_active d)). item_ok x"
    "sb_state (db_active d) = WriteOnly \<or> sb_state (db_active d) = ReadOnly \<and> sb_count (db_active d) = db_size d"
    by (simp_all add: active_ok_def buf_ok_def sb_inv_def)
qed

text \<open>What \<open>write_active\<close> does to an active buffer with room, and to a full one.\<close>

definition appended :: "buffer_item \<Rightarrow> double_buffer \<Rightarrow> double_buffer" where
  "appended item d = d\<lparr>db_active := pushed item (db_active d), db_count := db_count d + 1\<rparr>"

lemma write_active_room:
  assumes "db_inv d" "sb_count (db_active d) < db_size d"
  shows "write_active item d = Inr (None, appended item d)"
proof -
  let ?a = "db_active d"
  have a: "sb_inv ?a" "sb_capacity ?a = db_size d" "db_size d < 2 ^ 31" "sb_tail ?a = -1"
      "db_count d = sb_count ?a" "sb_state ?a = WriteOnly"
    using db_inv_active [OF assms(1)] assms(2) by auto
  then have h: "sb_head ?a < 2 ^ 31 - 1" "0 \<le> sb_count ?a" using assms(2) by (simp_all add: sb_inv_def)
  have "Push item ?a = Inr (None, pushed item ?a)"
    using a assms(2) h by (intro Push_accepted) simp_all
  moreover have "wrap32 (db_count d + 1) = db_count d + 1" using a assms(2) h by simp
  ultimately show ?thesis using a(6) by (simp add: write_active_def Write_sb_def appended_def)
qed

lemma write_active_full:
  assumes "db_inv d" "\<not> sb_count (db_active d) < db_size d"
  shows "write_active item d =
    Inr (Some ErrBufferReadOnly, d\<lparr>db_active := SetState ReadOnly (db_active d)\<rparr>)"
proof -
  let ?a = "db_active d"
  have a: "sb_inv ?a" "sb_capacity ?a = db_size d" "sb_state ?a = WriteOnly \<or> sb_state ?a = ReadOnly"
    using db_inv_active [OF assms(1)] by auto
  then have "sb_count ?a = sb_capacity ?a" using assms(2) by (simp add: sb_inv_def)
  then have "Push item ?a = Inr (Some ErrBufferReadOnly, SetState ReadOnly ?a)"
    using a Push_refused [of ?a item] by (cases ?a) (auto simp: SetState_def)
  then show ?thesis using a(3) by (auto simp: write_active_def Write_sb_def)
qed

lemma appended_inv:
  assumes "db_inv d" "sb_count (db_active d) < db_size d" "item_ok item"
  shows "db_inv (appended item d) \<and> content (appended item d) = content d @ [item] \<and>
    last (sb_items (db_active (appended item d))) = item"
proof -
  let ?a = "db_active d"
  have a: "sb_inv ?a" "sb_capacity ?a = db_size d" "db_size d < 2 ^ 31" "sb_tail ?a = -1"
      "\<forall>x \<in> set (sb_items ?a). item_ok x" "sb_state ?a = WriteOnly"
    using db_inv_active [OF assms(1)] assms(2) by auto
  then have h: "sb_head ?a < 2 ^ 31 - 1" using assms(2) by (simp add: sb_inv_def)
  have it: "sb_items (pushed item ?a) = sb_items ?a @ [item]"
    using sb_items_pushed [OF a(1)] assms(2) a(2) by simp
  have p: "sb_capacity (pushed item ?a) = db_size d" "sb_tail (pushed item ?a) = -1"
      "sb_count (pushed item ?a) = sb_count ?a + 1" "sb_state (pushed item ?a) = WriteOnly"
    using a by (simp_all add: pushed_def)
  have "buf_ok (db_size d) (pushed item ?a)"
    using sb_inv_pushed [OF a(1) _ h] assms(2,3) a p it by (simp add: buf_ok_def)
  then have "bufs_ok (appended item d)"
    using assms(1) by (simp add: db_inv_def db_safe_def bufs_ok_def heap_bufs_def appended_def)
  moreover have "active_ok (appended item d)"
    using assms(1) p by (simp add: db_inv_def active_ok_def appended_def)
  ultimately have "db_inv (appended item d)"
    using assms(1) by (simp add: db_inv_def db_safe_def small_ok_def seq_ok_def spare_ok_def numbered_def appended_def)
  then show ?thesis
    using it by (simp add: content_def current_items_def waiting_def numbered_def appended_def)
qed

lemma set_readonly_inv:
  assumes "db_inv d" "\<not> sb_count (db_active d) < db_size d"
  shows "db_inv (d\<lparr>db_active := SetState ReadOnly (db_active d)\<rparr>) \<and>
    content (d\<lparr>db_active := SetState ReadOnly (db_active d)\<rparr>) = content d"
proof -
  let ?d = "d\<lparr>db_active := SetState ReadOnly (db_active d)\<rparr>"
  have "sb_inv (db_active d)" "sb_capacity (db_active d) = db_size d"
    using db_inv_active [OF assms(1)] by auto
  then have "sb_count (db_active d) = db_size d" using assms(2) by (simp add: sb_inv_def)
  then have "active_ok ?d" using assms(1) by (auto simp: db_inv_def active_ok_def SetState_def)
  moreover have "bufs_ok ?d" using assms(1) by (simp add: db_inv_def db_safe_def bufs_ok_def heap_bufs_def)
  ultimately show ?thesis
    using assms(1) by (simp add: db_inv_def db_safe_def small_ok_def seq_ok_def spare_ok_def
        numbered_def content_def current_items_def waiting_def)
qed

text \<open>The item goes into the active buffer, after a switch when it is full.\<close>

lemma store_item:
  assumes "db_inv d" "item_ok item"
  shows "\<exists>d'. bind_go (write_active item d) (\<lambda>(err, d2).
           case err of None \<Rightarrow> Inr (None, d2) | Some _ \<Rightarrow> write_slow choice now item d2) = Inr (None, d') \<and>
         db_inv d' \<and> content d' = content d @ [item] \<and> last (sb_items (db_active d')) = item \<and>
         db_currentBuffer d' = db_currentBuffer d \<and> db_sequence d' = db_sequence d \<and>
         db_wm d' = db_wm d \<and> db_pm d' = db_pm d \<and> db_mem d' = db_mem d \<and> db_readMode d' = db_readMode d"
proof (cases "sb_count (db_active d) < db_size d")
  case True
  with assms appended_inv [OF assms(1) True assms(2)] show ?thesis
    by (simp add: write_active_room) (simp add: appended_def)
next
  case False
  let ?d = "d\<lparr>db_active := SetState ReadOnly (db_active d)\<rparr>"
  have inv: "db_inv ?d" "content ?d = content d" using set_readonly_inv [OF assms(1) False] by auto
  obtain nb pool where sw: "switchChannel choice now ?d = Inr (switched nb pool now ?d)"
      "fresh_buf (db_size ?d) nb" "set pool \<subseteq> set (db_pool ?d)"
    using switchChannel_open [OF inv(1)] by blast
  let ?s = "switched nb pool now ?d"
  have s: "db_inv ?s" "content ?s = content d"
    using switched_inv [OF inv(1) sw(2,3)] switched_content [OF inv(1)] inv(2) by auto
  have "sb_count (db_active ?s) < db_size ?s"
    using assms(1) by (simp add: switched_def db_inv_parts fresh_buf_def)
  note w = write_active_room [OF s(1) this] appended_inv [OF s(1) this assms(2)]
  have "GetState (db_active ?d) = ReadOnly" by (simp add: GetState_def SetState_def)
  with write_active_full [OF assms(1) False] sw(1) w s(2) show ?thesis
    by (simp add: write_slow_def) (simp add: appended_def switched_def)
qed

lemma Write_open:
  assumes "db_inv d" "slice_ok p"
  shows "\<exists>item d1 d'. make_item choice now p d = Inr (item, d1) \<and> item_ok item \<and>
     bi_Size item = sl_len p \<and>
     Write choice bchoice now p d = Inr (None, d') \<and> db_inv d' \<and> content d' = content d @ [item] \<and>
     last (sb_items (db_active d')) = item \<and> db_currentBuffer d' = db_currentBuffer d \<and>
     db_sequence d' = db_sequence d \<and> db_wm d' = db_wm d1 \<and> db_pm d' = db_pm d1 \<and> db_mem d' = db_mem d1 \<and>
     db_readMode d' = db_readMode d1 \<and> side_step d d1"
proof -
  have safe: "db_safe d" and st: "db_state d = WritingState" using assms(1) by (auto simp: db_inv_def)
  obtain item d1 where m: "make_item choice now p d = Inr (item, d1)" "item_ok item"
      "bi_Size item = sl_len p" "side_step d d1"
    using make_item_ok [OF safe assms(2)] by blast
  have d1: "db_inv d1" "content d1 = content d" "db_sequence d1 = db_sequence d" "db_state d1 = WritingState"
    using side_step_inv [OF m(4) assms(1)] side_step_content [OF m(4)] m(4) st
    by (simp_all add: side_step_def same_buffers_def)
  obtain d' where "bind_go (write_active item d1) (\<lambda>(err, d2).
      case err of None \<Rightarrow> Inr (None, d2) | Some _ \<Rightarrow> write_slow bchoice now item d2) = Inr (None, d')"
      "db_inv d'" "content d' = content d1 @ [item]" "last (sb_items (db_active d')) = item"
      "db_currentBuffer d' = db_currentBuffer d1" "db_sequence d' = db_sequence d1"
      "db_wm d' = db_wm d1" "db_pm d' = db_pm d1" "db_mem d' = db_mem d1" "db_readMode d' = db_readMode d1"
    using store_item [OF d1(1) m(2)] by blast
  moreover have "db_currentBuffer d1 = db_currentBuffer d"
    using m(4) by (simp add: side_step_def same_buffers_def)
  ultimately show ?thesis using m st d1 by (simp add: Write_def)
qed

lemma Write_closed: "db_state d = ClosedState \<Longrightarrow> Write choice bchoice now p d = Inr (Some ErrBufferClose, d)"
  by (simp add: Write_def)

section \<open>Reading\<close>

text \<open>An exhausted buffer goes back to the pool before another one is picked.\<close>

lemma tryRead_enter_cases:
  obtains "db_currentBuffer d = None" "tryRead_enter d = (True, d)"
  | b where "db_currentBuffer d = Some b" "Len b \<noteq> 0" "tryRead_enter d = (False, d)"
  | b where "db_currentBuffer d = Some b" "Len b = 0"
      "tryRead_enter d = (True, d\<lparr>db_currentBuffer := None, db_pool := db_pool d @ [Reset b]\<rparr>)"
  by (cases "db_currentBuffer d") (auto simp: tryRead_enter_def buf_pool_put_def Let_def split: if_splits)

lemma db_safe_current: "db_safe d \<Longrightarrow> db_currentBuffer d = Some b \<Longrightarrow> buf_ok (db_size d) b"
  by (simp add: db_safe_def bufs_ok_def)

lemma recycle_current:
  assumes "db_safe d" "db_currentBuffer d = Some b" "Len b = 0"
  defines "d' \<equiv> d\<lparr>db_currentBuffer := None, db_pool := db_pool d @ [Reset b]\<rparr>"
  shows "db_safe d'" "content d' = content d" "db_inv d \<Longrightarrow> db_inv d'"
proof -
  have ok: "buf_ok (db_size d) b" by (rule db_safe_current [OF assms(1,2)])
  have f: "fresh_buf (db_size d) (Reset b)" by (rule Reset_fresh [OF ok])
  then have "bufs_ok d'"
    using assms(1,2) fresh_ok [OF f] by (simp add: db_safe_def bufs_ok_def heap_bufs_def d'_def)
  then show safe: "db_safe d'" using assms(1) by (simp add: db_safe_def small_ok_def d'_def)
  have "sb_items b = []" using ok assms(3) by (simp add: buf_ok_def Len_def sb_items_empty_iff)
  then show "content d' = content d"
    using assms(2) by (simp add: content_def current_items_def waiting_def numbered_def d'_def)
  show "db_inv d'" if "db_inv d"
    using that safe f by (simp add: db_inv_def seq_ok_def active_ok_def spare_ok_def numbered_def d'_def)
qed

lemma tryRead_enter_keeps:
  assumes "db_safe d" "tryRead_enter d = (pick, d')"
  shows "db_safe d' \<and> content d' = content d \<and> (db_inv d \<longrightarrow> db_inv d') \<and>
    (pick \<longrightarrow> db_currentBuffer d' = None) \<and> (\<not> pick \<longrightarrow> (\<exists>b. db_currentBuffer d' = Some b)) \<and>
    db_wm d' = db_wm d \<and> db_pm d' = db_pm d \<and> db_mem d' = db_mem d \<and> db_readMode d' = db_readMode d \<and>
    db_sequence d' = db_sequence d \<and> db_state d' = db_state d"
  using assms recycle_current [OF assms(1)] by (cases rule: tryRead_enter_cases [of d]) auto

text \<open>\<open>popped_db\<close> is the state after removing the oldest item of a nonempty current buffer.\<close>

definition popped_db :: "smart_buffer \<Rightarrow> double_buffer \<Rightarrow> double_buffer" where
  "popped_db b d = d\<lparr>db_currentBuffer := Some (popped b)\<rparr>"

lemma pop_current_ok:
  assumes "db_safe d" "db_currentBuffer d = Some b" "sb_count b \<noteq> 0"
  shows "pop_current d = Inr ((bi_Ptr (hd (sb_items b)), bi_Size (hd (sb_items b))), popped_db b d)"
  using Pop_nonempty [of b] db_safe_current [OF assms(1,2)] assms(2,3)
  by (simp add: pop_current_def popped_db_def buf_ok_def)

lemma hd_item_ok:
  assumes "db_safe d" "db_currentBuffer d = Some b" "sb_count b \<noteq> 0"
  shows "item_ok (hd (sb_items b))"
proof -
  have ok: "buf_ok (db_size d) b" by (rule db_safe_current [OF assms(1,2)])
  then have "sb_items b \<noteq> []" using assms(3) by (simp add: buf_ok_def sb_items_empty_iff)
  with ok show ?thesis by (simp add: buf_ok_def)
qed

lemma popped_db_keeps:
  assumes "db_safe d" "db_currentBuffer d = Some b" "sb_count b \<noteq> 0"
  shows "db_safe (popped_db b d)" "content d = hd (sb_items b) # content (popped_db b d)"
    "db_inv d \<Longrightarrow> db_inv (popped_db b d)"
proof -
  have ok: "sb_inv b" "buf_ok (db_size d) b"
    using db_safe_current [OF assms(1,2)] by (simp_all add: buf_ok_def)
  note it = sb_items_popped [OF ok(1) assms(3)]
  have "set (sb_items (popped b)) \<subseteq> set (sb_items b)" by (metis it set_subset_Cons)
  moreover have "sb_inv (popped b)" "sb_capacity (popped b) = sb_capacity b"
    using sb_inv_popped [OF ok(1) assms(3)] by (simp_all add: popped_def)
  ultimately have "buf_ok (db_size d) (popped b)" using ok(2) by (auto simp: buf_ok_def)
  then have "bufs_ok (popped_db b d)"
    using assms(1,2) by (simp add: db_safe_def bufs_ok_def heap_bufs_def popped_db_def)
  then show safe: "db_safe (popped_db b d)" using assms(1) by (simp add: db_safe_def small_ok_def popped_db_def)
  show "content d = hd (sb_items b) # content (popped_db b d)"
    using it assms(2) by (simp add: content_def current_items_def waiting_def numbered_def popped_db_def)
  show "db_inv (popped_db b d)" if "db_inv d"
    using that safe by (simp add: db_inv_def seq_ok_def active_ok_def spare_ok_def numbered_def popped_db_def)
qed

lemma createByteSlice_ok:
  "item_ok x \<Longrightarrow> createByteSliceFromPointer (bi_Ptr x) (bi_Size x) =
     Inr \<lparr>sl_ptr = bi_Ptr x, sl_len = bi_Size x, sl_cap = bi_Size x\<rparr>"
  by (simp add: createByteSliceFromPointer_def item_ok_def)

text \<open>The chunk that a read returns for the item \<open>x\<close>.\<close>

definition chunk_for :: "buffer_item \<Rightarrow> data_chunk \<Rightarrow> bool" where
  "chunk_for x c \<longleftrightarrow> sl_len (dc_data c) = bi_Size x \<and> dc_free c \<noteq> None \<and>
     (\<forall>s. dc_free c = Some (FreeSmall s) \<longrightarrow> sl_ptr s \<noteq> NilPtr \<and> 0 \<le> sl_cap s \<and> sl_cap s < 2 ^ 31)"

lemma side_step_pm:
  "db_safe d \<Longrightarrow> side_step d (d\<lparr>db_pm := (db_pm d)\<lparr>lc_BigDataPool := x\<rparr>\<rparr>)"
  "db_safe d \<Longrightarrow> side_step d (d\<lparr>db_pm := (db_pm d)\<lparr>lc_MediumPool := y\<rparr>\<rparr>)"
  "db_safe d \<Longrightarrow> side_step d (d\<lparr>db_mem := m\<rparr>)" "db_safe d \<Longrightarrow> side_step d d"
  by (simp_all add: side_step_def same_buffers_def db_safe_def small_ok_def)

lemma side_step_small:
  assumes "db_safe d" "slot_from (lc_SmallPool (db_pm d)) m buf pool' m0"
  shows "side_step d (d\<lparr>db_pm := (db_pm d)\<lparr>lc_SmallPool := pool'\<rparr>, db_mem := m1\<rparr>)"
  using assms slot_from_pool [OF assms(2)]
  by (auto simp: side_step_def same_buffers_def db_safe_def small_ok_def)

lemma safeRead_small:
  assumes "db_safe d" "db_currentBuffer d = Some b" "sb_count b \<noteq> 0"
    and x: "x = hd (sb_items b)" and small: "bi_Size x < SmallDataThreshold"
  shows "\<exists>buf pool' m0.
    safeRead choice now d =
      Inr (Some \<lparr>dc_data = buf, dc_free = Some (FreeSmall buf)\<rparr>,
        (popped_db b d)\<lparr>db_pm := (db_pm d)\<lparr>lc_SmallPool := pool'\<rparr>,
           db_mem := mem_write m0 (sl_ptr buf) (mem_read m0 (bi_Ptr x) (nat (bi_Size x)))\<rparr>) \<and>
    sl_len buf = bi_Size x \<and> bi_Size x \<le> sl_cap buf \<and> sl_cap buf < 2 ^ 31 \<and> sl_ptr buf \<noteq> NilPtr \<and>
    slot_from (lc_SmallPool (db_pm d)) (db_mem d) buf pool' m0"
proof -
  have ok: "item_ok x" using hd_item_ok [OF assms(1-3)] x by simp
  have sz: "0 < bi_Size x" "bi_Size x < 2 ^ 31" "bi_Size x \<noteq> 0"
    using ok small by (simp_all add: item_ok_def SmallDataThreshold_def)
  have sm: "small_ok (popped_db b d)"
    using popped_db_keeps(1) [OF assms(1-3)] by (simp add: db_safe_def)
  have same: "db_pm (popped_db b d) = db_pm d" "db_mem (popped_db b d) = db_mem d"
    by (simp_all add: popped_db_def)
  obtain buf pool' m0 where c: "small_copy choice (bi_Ptr x) (bi_Size x) (bi_Size x) (popped_db b d) =
      Inr (buf, (popped_db b d)\<lparr>db_pm := (db_pm d)\<lparr>lc_SmallPool := pool'\<rparr>,
        db_mem := mem_write m0 (sl_ptr buf) (mem_read m0 (bi_Ptr x) (nat (min (bi_Size x) (bi_Size x))))\<rparr>)"
      "sl_len buf = bi_Size x" "bi_Size x \<le> sl_cap buf" "sl_cap buf < 2 ^ 31" "sl_ptr buf \<noteq> NilPtr"
      "slot_from (lc_SmallPool (db_pm d)) (db_mem d) buf pool' m0"
    using small_copy_ok [OF sm sz(1,2), of choice "bi_Ptr x" "bi_Size x", unfolded same] by blast
  then show ?thesis
    using pop_current_ok [OF assms(1-3)] sz ok small unfolding x [symmetric]
    by (intro exI [of _ buf] exI [of _ pool'] exI [of _ m0])
       (simp add: safeRead_def createByteSlice_ok)
qed

lemma safeRead_ok:
  assumes "db_safe d" "db_currentBuffer d = Some b" "sb_count b \<noteq> 0"
  shows "\<exists>c d'. safeRead choice now d = Inr (Some c, d') \<and> chunk_for (hd (sb_items b)) c \<and>
           side_step (popped_db b d) d'"
proof (cases "bi_Size (hd (sb_items b)) < SmallDataThreshold")
  case True
  note safe = popped_db_keeps(1) [OF assms]
  have same: "db_pm (popped_db b d) = db_pm d" by (simp add: popped_db_def)
  from safeRead_small [OF assms refl True, of choice now]
  obtain buf pool' m0 where r: "safeRead choice now d =
      Inr (Some \<lparr>dc_data = buf, dc_free = Some (FreeSmall buf)\<rparr>,
        (popped_db b d)\<lparr>db_pm := (db_pm d)\<lparr>lc_SmallPool := pool'\<rparr>, db_mem := mem_write m0 (sl_ptr buf)
          (mem_read m0 (bi_Ptr (hd (sb_items b))) (nat (bi_Size (hd (sb_items b)))))\<rparr>)"
      "sl_len buf = bi_Size (hd (sb_items b))" "bi_Size (hd (sb_items b)) \<le> sl_cap buf"
      "sl_cap buf < 2 ^ 31" "sl_ptr buf \<noteq> NilPtr"
      "slot_from (lc_SmallPool (db_pm d)) (db_mem d) buf pool' m0" by blast
  have "side_step (popped_db b d) ((popped_db b d)\<lparr>db_pm := (db_pm d)\<lparr>lc_SmallPool := pool'\<rparr>, db_mem := m\<rparr>)" for m
    using side_step_small [OF safe, of _ buf pool' m0 m] r(6) unfolding same by blast
  with r hd_item_ok [OF assms] show ?thesis by (auto simp: chunk_for_def item_ok_def)
next
  case False
  note safe = popped_db_keeps(1) [OF assms]
  have ok: "item_ok (hd (sb_items b))" by (rule hd_item_ok [OF assms])
  then have "bi_Size (hd (sb_items b)) \<noteq> 0" by (simp add: item_ok_def)
  with False ok pop_current_ok [OF assms] side_step_pm [OF safe] show ?thesis
    by (auto simp: safeRead_def createByteSlice_ok chunk_for_def Let_def split: prod.splits)
qed

lemma zeroCopyRead_ok:
  assumes "db_safe d" "db_currentBuffer d = Some b" "sb_count b \<noteq> 0"
  shows "\<exists>c d'. zeroCopyRead d = Inr (Some c, d') \<and> chunk_for (hd (sb_items b)) c \<and>
           side_step (popped_db b d) d'"
proof -
  have ok: "item_ok (hd (sb_items b))" by (rule hd_item_ok [OF assms])
  then have "bi_Ptr (hd (sb_items b)) \<noteq> NilPtr" by (simp add: item_ok_def)
  with ok pop_current_ok [OF assms] side_step_pm [OF popped_db_keeps(1) [OF assms]] show ?thesis
    by (auto simp: zeroCopyRead_def createByteSlice_ok chunk_for_def Let_def)
qed

lemma pop_current_empty:
  "db_currentBuffer d = Some b \<Longrightarrow> sb_count b = 0 \<Longrightarrow> pop_current d = Inr ((NilPtr, 0), d)"
  by (cases d) (simp add: pop_current_def Pop_empty)

text \<open>A read in a registered mode: the oldest item, or \<open>ErrRead\<close> when the picked buffer is empty.\<close>

lemma tryRead_mode_ok:
  assumes "db_safe d" "db_currentBuffer d = Some b" "sb_count b \<noteq> 0"
    "db_readMode d = Some m" "ReadMode_Validate m"
  shows "\<exists>c d'. tryRead_mode choice now d = Inr (Inr c, d') \<and> chunk_for (hd (sb_items b)) c \<and>
           side_step (popped_db b d) d'"
proof -
  have "m = SafeRead \<or> m = ZeroCopyRead"
    using assms(5) by (auto simp: ReadMode_Validate_def SafeRead_def ZeroCopyRead_def)
  then show ?thesis
    using safeRead_ok [OF assms(1-3), of choice now] zeroCopyRead_ok [OF assms(1-3)] assms(4)
    by (auto simp: tryRead_mode_def SafeRead_def ZeroCopyRead_def)
qed

lemma tryRead_mode_empty:
  assumes "db_currentBuffer d = Some b" "sb_count b = 0" "db_readMode d = Some m" "ReadMode_Validate m"
  shows "tryRead_mode choice now d = Inr (Inl ErrRead, d)"
proof -
  have "m = SafeRead \<or> m = ZeroCopyRead"
    using assms(4) by (auto simp: ReadMode_Validate_def SafeRead_def ZeroCopyRead_def)
  then show ?thesis
    using pop_current_empty [OF assms(1,2)] assms(3)
    by (auto simp: tryRead_mode_def safeRead_def zeroCopyRead_def SafeRead_def ZeroCopyRead_def)
qed

section \<open>Picking without interference\<close>

lemma seq_ok_heap:
  assumes "seq_ok d" "y \<in># mh_elems (db_pendingHeap d)"
  shows "db_currentSequence d \<le> fst y"
proof -
  have "fst y \<in> set (map fst (numbered d))" using assms(2) by (auto simp: numbered_def mh_elems_def)
  also have "\<dots> = set [db_currentSequence d..db_sequence d]"
    using assms(1) by (metis seq_ok_def set_mset_mset)
  finally show ?thesis by simp
qed

text \<open>
  The loop finds the buffer that is next in sequence exactly when it is in the heap, and its further
  rounds only matter when other goroutines push during its pauses.
\<close>

lemma pick_loop_miss:
  assumes "mh_inv (db_pendingHeap d)" "db_currentBuffer d = None"
    "db_currentSequence d \<notin> fst ` set_mset (mh_elems (db_pendingHeap d))"
  shows "\<exists>d'. pick_loop n d = Inr (False, d') \<and> same_pending d d'"
  using assms
proof (induction n arbitrary: d)
  case 0
  then show ?case by (cases d) (auto simp: same_pending_def)
next
  case (Suc n)
  show ?case
  proof (cases rule: pick_once_cases [OF Suc.prems(1)])
    case 1
    then show ?thesis using Suc.prems(1) by (auto simp: same_pending_def intro!: exI [of _ "db_pendingHeap d"])
  next
    case (2 b d')
    with Suc.prems(3) show ?thesis by (auto simp: picked_def)
  next
    case (3 d')
    then obtain h where h: "d' = d\<lparr>db_pendingHeap := h\<rparr>" "mh_inv h" "mh_elems h = mh_elems (db_pendingHeap d)"
      by (auto simp: same_pending_def)
    then obtain d'' where "pick_loop n d' = Inr (False, d'')" "same_pending d' d''"
      using Suc.IH [of d'] Suc.prems by auto
    with 3 h show ?thesis by (auto simp: same_pending_def)
  qed
qed

lemma pickBufferFromHeap_cases:
  assumes "db_inv d" "db_currentBuffer d = None"
  obtains b d' where "pickBufferFromHeap d = Inr (True, d')" "picked b d d'"
      "db_currentSequence d \<in> fst ` set_mset (mh_elems (db_pendingHeap d))"
  | d' where "pickBufferFromHeap d = Inr (False, d')" "same_pending d d'"
      "db_currentSequence d \<notin> fst ` set_mset (mh_elems (db_pendingHeap d))"
proof -
  have h: "mh_inv (db_pendingHeap d)" and seq: "seq_ok d"
    using assms(1) by (auto simp: db_inv_def db_safe_def)
  show ?thesis
  proof (cases "db_currentSequence d \<in> fst ` set_mset (mh_elems (db_pendingHeap d))")
    case True
    then obtain y where y: "y \<in># mh_elems (db_pendingHeap d)" "db_currentSequence d = fst y" by auto
    show ?thesis
    proof (cases rule: pick_once_cases [OF h])
      case 1
      with y show ?thesis by (simp add: mh_elems_def)
    next
      case (2 b d')
      then have "pickBufferFromHeap d = Inr (True, d')"
        by (auto simp: pickBufferFromHeap_def maxRetires_def numeral_3_eq_3 picked_def)
      with 2 True that(1) show ?thesis by blast
    next
      case (3 d')
      with True seq_ok_heap [OF seq] show ?thesis by fastforce
    qed
  next
    case False
    with pick_loop_miss [OF h assms(2) False] that(2) show ?thesis by (metis pickBufferFromHeap_def)
  qed
qed

section \<open>Closing\<close>

lemma drain_loop_ok:
  assumes "db_safe d" "length (db_pendingHeap d) \<le> n"
  shows "\<exists>pool. drain_loop n d = Inr (d\<lparr>db_pendingHeap := [], db_pool := pool\<rparr>) \<and>
           (\<forall>b \<in> set pool. buf_ok (db_size d) b) \<and>
           mset pool = mset (db_pool d) + mset (heap_bufs d)"
  using assms
proof (induction n arbitrary: d)
  case 0
  then show ?case by (cases d) (auto simp: db_safe_def bufs_ok_def heap_bufs_def)
next
  case (Suc n)
  have h: "mh_inv (db_pendingHeap d)" using Suc.prems by (simp add: db_safe_def)
  show ?case
  proof (cases rule: Pick_cases [OF h])
    case 1
    with Suc.prems show ?thesis
      by (cases d) (auto simp: WrapHeap_Len_def MinHeap_Len_def db_safe_def bufs_ok_def heap_bufs_def)
  next
    case (2 x h')
    let ?d = "buf_pool_put (mhi_buf x) (d\<lparr>db_pendingHeap := h'\<rparr>)"
    have "mset (map snd (map entry (db_pendingHeap d))) = add_mset (mhi_buf x) (mset (map snd (map entry h')))"
      using 2(4) by (simp add: mh_elems_def entry_def image_mset.compositionality del: map_map)
    then have bufs: "mset (heap_bufs d) = add_mset (mhi_buf x) (mset (map mhi_buf h'))"
      by (simp add: heap_bufs_def entry_def comp_def)
    then have sb: "set (heap_bufs d) = insert (mhi_buf x) (mhi_buf ` set h')"
      by (metis image_set set_mset_add_mset_insert set_mset_mset)
    have "bufs_ok ?d"
      using Suc.prems(1) sb by (auto simp: db_safe_def bufs_ok_def buf_pool_put_def heap_bufs_def)
    then have "db_safe ?d"
      using Suc.prems(1) 2(3) by (simp add: db_safe_def small_ok_def buf_pool_put_def)
    moreover have "length (db_pendingHeap d) = Suc (length h')"
      using 2(4) by (metis mh_elems_def length_map size_add_mset size_mset)
    ultimately obtain pool where "drain_loop n ?d = Inr (?d\<lparr>db_pendingHeap := [], db_pool := pool\<rparr>)"
        "\<forall>b \<in> set pool. buf_ok (db_size ?d) b" "mset pool = mset (db_pool ?d) + mset (heap_bufs ?d)"
      using Suc.IH [of ?d] Suc.prems(2) by (auto simp: buf_pool_put_def)
    with 2 bufs show ?thesis
      by (intro exI [of _ pool])
         (auto simp: buf_pool_put_def WrapHeap_Len_def MinHeap_Len_def heap_bufs_def)
  qed
qed

lemma Close_open:
  assumes "db_safe d" "db_state d = WritingState"
  shows "\<exists>pool. Close d = Inr (d\<lparr>db_state := ClosedState, db_stop := True, db_pendingHeap := [], db_pool := pool\<rparr>) \<and>
    mset pool = mset (db_pool d) + {#db_active d, db_passive d#} + mset (heap_bufs d) \<and>
    db_safe (d\<lparr>db_state := ClosedState, db_stop := True, db_pendingHeap := [], db_pool := pool\<rparr>)"
proof -
  let ?d = "buf_pool_put (db_passive d) (buf_pool_put (db_active d) (d\<lparr>db_state := ClosedState, db_stop := True\<rparr>))"
  have "bufs_ok ?d" using assms(1) by (simp add: db_safe_def bufs_ok_def buf_pool_put_def heap_bufs_def)
  then have safe: "db_safe ?d" using assms(1) by (simp add: db_safe_def small_ok_def buf_pool_put_def)
  obtain pool where p: "drainProcessor ?d = Inr (?d\<lparr>db_pendingHeap := [], db_pool := pool\<rparr>)"
      "\<forall>b \<in> set pool. buf_ok (db_size d) b" "mset pool = mset (db_pool ?d) + mset (heap_bufs ?d)"
    using drain_loop_ok [OF safe, of "length (db_pendingHeap ?d)"] by (auto simp: drainProcessor_def buf_pool_put_def)
  let ?d' = "d\<lparr>db_state := ClosedState, db_stop := True, db_pendingHeap := [], db_pool := pool\<rparr>"
  have "bufs_ok ?d'"
    using assms(1) p(2) by (simp add: db_safe_def bufs_ok_def heap_bufs_def ball_Un)
  then have "db_safe ?d'"
    using assms(1) by (simp add: db_safe_def small_ok_def mh_inv_def heap_ordered_def indexed_def)
  moreover have "Close d = Inr ?d'"
    using assms p(1) by (simp add: Close_def db_safe_def buf_pool_put_def)
  ultimately show ?thesis using p(3) by (intro exI [of _ pool]) (simp add: buf_pool_put_def heap_bufs_def)
qed

lemma Close_again: "db_state d \<noteq> WritingState \<Longrightarrow> Close d = Inr d"
  by (simp add: Close_def)

section \<open>The background loops\<close>

lemma needSwitch_side: "db_safe d \<Longrightarrow> needSwitch now d = (r, d') \<Longrightarrow> side_step d d'"
  by (auto simp: needSwitch_def Let_def side_step_def same_buffers_def db_safe_def small_ok_def
      split: prod.splits if_splits)

lemma swapMonitor_tick_open:
  assumes "db_inv d"
  shows "\<exists>d'. swapMonitor_tick choice now d = Inr d' \<and> db_inv d' \<and> content d' = content d \<and>
           db_sequence d' = db_sequence d \<and> db_wm d' = db_wm d \<and> db_pm d' = db_pm d \<and>
           db_mem d' = db_mem d \<and> db_readMode d' = db_readMode d"
proof -
  obtain r d1 where n: "needSwitch now d = (r, d1)" by fastforce
  have safe: "db_safe d" "\<not> db_stop d" using assms by (auto simp: db_inv_def db_safe_def)
  have side: "side_step d d1" by (rule needSwitch_side [OF safe(1) n])
  have same: "db_wm d1 = db_wm d" "db_pm d1 = db_pm d" "db_mem d1 = db_mem d" "db_readMode d1 = db_readMode d"
      "db_sequence d1 = db_sequence d"
    using n by (auto simp: needSwitch_def Let_def split: prod.splits if_splits)
  have d1: "db_inv d1" "content d1 = content d"
    using side_step_inv [OF side assms] side_step_content [OF side] by auto
  show ?thesis
  proof (cases r)
    case False
    with n safe d1 same show ?thesis by (simp add: swapMonitor_tick_def)
  next
    case True
    obtain nb pool where sw: "switchChannel choice now d1 = Inr (switched nb pool now d1)"
        "fresh_buf (db_size d1) nb" "set pool \<subseteq> set (db_pool d1)"
      using switchChannel_open [OF d1(1)] by blast
    show ?thesis
      using True n safe sw(1) switched_inv [OF d1(1) sw(2,3)] switched_content [OF d1(1)] d1(2) same
      by (simp add: swapMonitor_tick_def) (simp add: switched_def)
  qed
qed

lemma asyncRecycleWorker_side: "db_safe d \<Longrightarrow> side_step d (asyncRecycleWorker_tick now d)"
  by (simp add: asyncRecycleWorker_tick_def LifeCycle_Cleanup_def side_step_def same_buffers_def
      db_safe_def small_ok_def)

section \<open>Construction\<close>

lemma WithMetrics_Inr: "WithMetrics c d = Inr d' \<Longrightarrow> d' = d\<lparr>db_enableMetrics := True\<rparr>"
  by (simp add: WithMetrics_def split: if_splits)

lemma apply_WithMetrics:
  assumes "apply_options (map WithMetrics cs) d = Inr d'"
  shows "\<exists>e. d' = d\<lparr>db_enableMetrics := e\<rparr>"
  using assms
proof (induction cs arbitrary: d)
  case Nil
  then show ?case by (cases d) auto
next
  case (Cons c cs)
  then obtain d1 where "WithMetrics c d = Inr d1" "apply_options (map WithMetrics cs) d1 = Inr d'"
    by (auto split: sum.splits)
  with Cons.IH [of d1] WithMetrics_Inr [of c d d1] show ?case by auto
qed

lemma NewDoubleBuffer_inv:
  assumes "1 \<le> sz" "sz < 2 ^ 31" "NewDoubleBuffer sz sc (map WithMetrics cs) now mem = Inr (Inr d)"
  shows "db_inv d \<and> content d = [] \<and> db_sequence d = 0 \<and> db_size d = sz \<and> db_mem d = mem \<and>
    db_currentBuffer d = None \<and> db_wm d = newWaiterManager \<and> db_pm d = NewLifeCycleManager \<and>
    db_readMode d = None \<and> db_state d = WritingState"
proof -
  obtain b where b: "NewSmartBuffer sz = Inr b" "fresh_buf sz b"
    using NewSmartBuffer_fresh [of sz] assms(1,2) by auto
  obtain e where d: "d = \<lparr>db_active = b, db_passive = b, db_currentBuffer = None, db_stop = False,
      db_size = sz, db_count = 0, db_state = WritingState, db_lastSwitch = UnixMilli now, db_pool = [],
      db_sequence = 0, db_currentSequence = 1, db_pendingHeap = NewWrapHeap, db_enableMetrics = e,
      db_sc = GetConfig sc, db_scd = sc, db_sw = DefaultStrategy, db_readMode = None,
      db_wm = newWaiterManager, db_pm = NewLifeCycleManager, db_mem = mem, db_spawned = [],
      db_numbered = [], db_notifying = []\<rparr>"
    using assms(3) b(1) by (auto simp: NewDoubleBuffer_def split: sum.splits dest!: apply_WithMetrics)
  have bufs: "bufs_ok d"
    using assms(1,2) fresh_ok [OF b(2)] by (simp add: d bufs_ok_def heap_bufs_def NewWrapHeap_def)
  have safe: "db_safe d"
    using bufs wm_inv_new by (simp add: d db_safe_def small_ok_def NewLifeCycleManager_def NewWrapHeap_def
        mh_inv_def heap_ordered_def indexed_def newWaiterManager_def)
  have "active_ok d" "spare_ok d" "seq_ok d"
    using b(2) fresh_tail [OF b(2)]
    by (simp_all add: d active_ok_def spare_ok_def seq_ok_def numbered_def NewWrapHeap_def fresh_buf_def)
  with safe have "db_inv d" by (simp add: db_inv_def) (simp add: d)
  then show ?thesis
    using fresh_items [OF b(2)]
    by (simp add: content_def current_items_def waiting_def numbered_def) (simp add: d NewWrapHeap_def fresh_items [OF b(2)])
qed

lemma NewDoubleBuffer_no_options:
  "1 \<le> sz \<Longrightarrow> sz < 2 ^ 31 \<Longrightarrow> \<exists>d. NewDoubleBuffer sz sc [] now mem = Inr (Inr d)"
  by (simp add: NewDoubleBuffer_def NewSmartBuffer_def)

end
