(* ===== verification/Buffer_Laws.thy ===== *)
theory Buffer_Laws
  imports Buffer_Invariant
begin

text \<open>
  The contract of the operations of \<open>DoubleBuffer\<close> for one caller at a time: what \<open>Write\<close>, \<open>tryRead\<close>,
  \<open>pickBufferFromHeap\<close> and \<open>Close\<close> return and do to the data inside, on every branch, and the inputs on
  which they panic or lose information.
\<close>

section \<open>Example states\<close>

definition sample_condition :: switch_condition where
  "sample_condition =
     \<lparr>scd_config = \<lparr>sc_version = 1, sc_PercentThreshold = 80, sc_TimeThreshold = 5000000,
                    sc_timeThresholdMillis = 5\<rparr>, scd_notify = True, scd_version = 1\<rparr>"

definition sample_memory :: memory where
  "sample_memory = \<lparr>mem_blocks = (\<lambda>p. case p of UserMem n \<Rightarrow> [of_nat n, 7] | _ \<Rightarrow> []), mem_next = 0\<rparr>"

lemma sample_exists:
  obtains d where "db_inv d" "NewDoubleBuffer 2 sample_condition [] 0 sample_memory = Inr (Inr d)" "content d = []"
    "db_currentBuffer d = None" "db_readMode d = None" "db_mem d = sample_memory"
proof -
  obtain d where d: "NewDoubleBuffer 2 sample_condition (map WithMetrics []) 0 sample_memory = Inr (Inr d)"
    using NewDoubleBuffer_no_options [of 2 sample_condition 0 sample_memory] by auto
  show ?thesis using that [of d] NewDoubleBuffer_inv [OF _ _ d] d by auto
qed

section \<open>Writing\<close>

lemma wrap32_period: "wrap32 (2 ^ 32 + x) = wrap32 x"
proof -
  have "2 ^ 32 + x + 2 ^ 31 = (x + 2 ^ 31) + 2 ^ 32" by simp
  then show ?thesis unfolding wrap32_def by (metis mod_add_self2)
qed

lemma make_item_large:
  assumes "slice_ok p" "SmallDataThreshold \<le> sl_len p" "make_item choice now p d = Inr (item, d1)"
  shows "bi_Ptr item = sl_ptr p"
  using assms by (auto simp: make_item_def slice_ok_def Let_def split: if_splits)

text \<open>
  C12: an open buffer never refuses a write, even when the active buffer is full: a slice that is not
  empty and shorter than \<open>2\<^sup>3\<^sup>1\<close> is accepted without error, becomes the newest item inside with its
  full length, the invariant is kept (so the active buffer never exceeds its capacity and the counter
  equals its length), and data of 1024 bytes or more is stored by the caller's own pointer.
\<close>

theorem write_accepts:
  assumes "db_inv d" "slice_ok p"
  shows "\<exists>item d'. Write choice bchoice now p d = Inr (None, d') \<and> db_inv d' \<and>
    content d' = content d @ [item] \<and> bi_Size item = sl_len p \<and>
    (SmallDataThreshold \<le> sl_len p \<longrightarrow> bi_Ptr item = sl_ptr p) \<and>
    db_count d' = Len (db_active d') \<and> db_count d' \<le> db_size d'"
proof -
  obtain item d1 d' where w: "make_item choice now p d = Inr (item, d1)" "bi_Size item = sl_len p"
      "Write choice bchoice now p d = Inr (None, d')" "db_inv d'" "content d' = content d @ [item]"
    using Write_open [OF assms, of choice now bchoice] by blast
  moreover have "db_count d' = Len (db_active d')" "db_count d' \<le> db_size d'"
    using db_inv_active [OF w(4)] by (simp_all add: Len_def sb_inv_def)
  ultimately show ?thesis using make_item_large [OF assms(2) _ w(1)] by auto
qed

theorem write_accepts_witness:
  "\<exists>d d'. NewDoubleBuffer 2 sample_condition [] 0 sample_memory = Inr (Inr d) \<and>
     Write None None 0 \<lparr>sl_ptr = UserMem 3, sl_len = 2, sl_cap = 2\<rparr> d = Inr (None, d') \<and> length (content d') = 1"
proof -
  obtain d where d: "db_inv d" "NewDoubleBuffer 2 sample_condition [] 0 sample_memory = Inr (Inr d)" "content d = []"
    by (rule sample_exists)
  have "slice_ok \<lparr>sl_ptr = UserMem 3, sl_len = 2, sl_cap = 2\<rparr>" by (simp add: slice_ok_def)
  from write_accepts [OF d(1) this, of None None 0] d show ?thesis by auto
qed



text \<open>
  Writing an empty slice to a buffer that is not closed panics with an index out of range (the
  address of the first byte of the empty copy is taken).
\<close>

theorem write_empty_panics:
  assumes "db_safe d" "db_state d \<noteq> ClosedState" "sl_len p = 0"
  shows "Write choice bchoice now p d = Inl IndexOutOfRange"
proof -
  obtain buf l m where g: "SmallPool_Get choice (db_pm d) (db_mem d) = (buf, l, m)" by (metis prod_cases3)
  have sm: "small_ok d" using assms(1) by (simp add: db_safe_def)
  have cap: "0 \<le> sl_cap buf" "sl_cap buf < 2 ^ 31"
    using SmallPool_Get_ok [OF g] sm by (auto simp: small_ok_def)
  then have "\<exists>b d1. small_copy choice (sl_ptr p) 0 0 d = Inr (b, d1) \<and> sl_len b = 0"
    using g by (auto simp: small_copy_def)
  then show ?thesis
    using assms(2,3) by (auto simp: Write_def make_item_def SmallDataThreshold_def wrap32_def Let_def)
qed

theorem write_empty_panics_witness:
  "\<exists>d. NewDoubleBuffer 2 sample_condition [] 0 sample_memory = Inr (Inr d) \<and>
     Write None None 0 \<lparr>sl_ptr = UserMem 3, sl_len = 0, sl_cap = 0\<rparr> d = Inl IndexOutOfRange"
proof -
  obtain d where d: "db_inv d" "NewDoubleBuffer 2 sample_condition [] 0 sample_memory = Inr (Inr d)"
    by (rule sample_exists)
  have "db_safe d" "db_state d \<noteq> ClosedState" using d(1) by (auto simp: db_inv_def)
  from write_empty_panics [OF this, of "\<lparr>sl_ptr = UserMem 3, sl_len = 0, sl_cap = 0\<rparr>" None None 0] d(2)
  show ?thesis by simp
qed

text \<open>
  The length is stored as an \<open>int32\<close>, so a slice of \<open>2\<^sup>3\<^sup>2 + n\<close> bytes with \<open>0 < n < 1024\<close> is
  accepted without error as an item of \<open>n\<close> bytes.
\<close>

theorem write_truncates_length:
  assumes "db_inv d" "sl_ptr p \<noteq> NilPtr" "sl_len p = 2 ^ 32 + n" "0 < n" "n < SmallDataThreshold"
  shows "\<exists>item d'. Write choice bchoice now p d = Inr (None, d') \<and>
    content d' = content d @ [item] \<and> bi_Size item = n"
proof -
  have n: "n < 2 ^ 31" using assms(5) by (simp add: SmallDataThreshold_def)
  then have sz: "wrap32 (sl_len p) = n" "n < 2 ^ 31"
    using assms(3,4) wrap32_period [of n] by simp_all
  have safe: "db_safe d" and st: "db_state d = WritingState" and sm: "small_ok d"
    using assms(1) by (auto simp: db_inv_def db_safe_def)
  obtain buf pool' m0 where c: "small_copy choice (sl_ptr p) (sl_len p) n d =
      Inr (buf, d\<lparr>db_pm := (db_pm d)\<lparr>lc_SmallPool := pool'\<rparr>,
        db_mem := mem_write m0 (sl_ptr buf) (mem_read m0 (sl_ptr p) (nat (min n (sl_len p))))\<rparr>)"
      "sl_len buf = n" "sl_ptr buf \<noteq> NilPtr" "slot_from (lc_SmallPool (db_pm d)) (db_mem d) buf pool' m0"
    using small_copy_ok [OF sm assms(4) sz(2), of choice "sl_ptr p" "sl_len p"] by blast
  define d1 where "d1 = d\<lparr>db_pm := (db_pm d)\<lparr>lc_SmallPool := pool'\<rparr>,
        db_mem := mem_write m0 (sl_ptr buf) (mem_read m0 (sl_ptr p) (nat (min n (sl_len p))))\<rparr>"
  let ?item = "\<lparr>bi_Ptr = sl_ptr buf, bi_Size = n\<rparr>"
  have side: "side_step d d1" unfolding d1_def by (rule side_step_small [OF safe c(4)])
  have mk: "make_item choice now p d = Inr (?item, d1)"
    using c assms(4,5) sz by (simp add: make_item_def Let_def d1_def)
  have d1: "db_inv d1" "content d1 = content d" "db_state d1 = WritingState"
    using side_step_inv [OF side assms(1)] side_step_content [OF side] by (auto simp: db_inv_def)
  have "item_ok ?item" using c(3) assms(4) by (simp add: item_ok_def)
  from store_item [OF d1(1) this, of bchoice now] show ?thesis
    using mk st d1 by (auto simp: Write_def)
qed

theorem write_truncates_length_witness:
  "\<exists>d item d'. NewDoubleBuffer 2 sample_condition [] 0 sample_memory = Inr (Inr d) \<and>
     Write None None 0 \<lparr>sl_ptr = UserMem 3, sl_len = 2 ^ 32 + 5, sl_cap = 2 ^ 32 + 5\<rparr> d = Inr (None, d') \<and>
     content d' = content d @ [item] \<and> bi_Size item = 5"
proof -
  obtain d where d: "db_inv d" "NewDoubleBuffer 2 sample_condition [] 0 sample_memory = Inr (Inr d)"
    by (rule sample_exists)
  from write_truncates_length [OF d(1), of "\<lparr>sl_ptr = UserMem 3, sl_len = 2 ^ 32 + 5, sl_cap = 2 ^ 32 + 5\<rparr>" 5 None None 0]
    d(2) show ?thesis by (auto simp: SmallDataThreshold_def)
qed

section \<open>Reading\<close>

lemma pick_result:
  assumes "db_inv d" "db_currentBuffer d = None"
  shows "\<exists>ok d'. pickBufferFromHeap d = Inr (ok, d') \<and> db_inv d' \<and> content d' = content d \<and>
    db_readMode d' = db_readMode d \<and> (ok \<longleftrightarrow> db_currentBuffer d' \<noteq> None) \<and>
    (ok \<longleftrightarrow> db_currentSequence d \<in> mhi_sequence ` set (db_pendingHeap d))"
proof -
  have img: "fst ` set_mset (mh_elems (db_pendingHeap d)) = mhi_sequence ` set (db_pendingHeap d)"
    by (force simp: mh_elems_def entry_def image_iff)
  show ?thesis
  proof (cases rule: pickBufferFromHeap_cases [OF assms])
    case (1 b d')
    then show ?thesis using picked_inv [OF 1(2) assms] img by (auto simp: picked_def)
  next
    case (2 d')
    then show ?thesis using same_pending_inv [OF 2(2) assms(1)] img assms(2) by (auto simp: same_pending_def)
  qed
qed

text \<open>
  C13: buffers are handed to the consumer strictly by sequence number. When a round of the picking
  loop takes a buffer, it is the first of all numbered buffers, its number is \<open>currentSequence\<close>, which
  then grows by one; otherwise no numbered buffer moves. The loop as a whole succeeds exactly when the
  buffer with that number has been pushed.
\<close>

theorem pick_in_sequence:
  assumes "db_inv d" "db_currentBuffer d = None"
  shows "(\<exists>r d'. pick_once d = Inr (r, d') \<and> db_inv d' \<and> content d' = content d \<and>
            (if r = Some True
             then \<exists>b. waiting d = (db_currentSequence d, b) # waiting d' \<and> db_currentBuffer d' = Some b \<and>
                      db_currentSequence d' = db_currentSequence d + 1
             else waiting d' = waiting d \<and> db_currentBuffer d' = None \<and>
                  db_currentSequence d' = db_currentSequence d)) \<and>
    (\<exists>ok d'. pickBufferFromHeap d = Inr (ok, d') \<and>
       (ok \<longleftrightarrow> db_currentSequence d \<in> mhi_sequence ` set (db_pendingHeap d)))"
proof -
  have h: "mh_inv (db_pendingHeap d)" and seq: "seq_ok d"
    using assms(1) by (auto simp: db_inv_def db_safe_def)
  have "\<exists>r d'. pick_once d = Inr (r, d') \<and> db_inv d' \<and> content d' = content d \<and>
            (if r = Some True
             then \<exists>b. waiting d = (db_currentSequence d, b) # waiting d' \<and> db_currentBuffer d' = Some b \<and>
                      db_currentSequence d' = db_currentSequence d + 1
             else waiting d' = waiting d \<and> db_currentBuffer d' = None \<and>
                  db_currentSequence d' = db_currentSequence d)"
  proof (cases rule: pick_once_cases [OF h])
    case 1
    then show ?thesis using assms by auto
  next
    case (2 b d')
    moreover have "db_currentBuffer d' = Some b" using 2(2) by (auto simp: picked_def)
    ultimately show ?thesis using picked_inv [OF 2(2) assms] picked_waiting [OF 2(2) seq] by auto
  next
    case (3 d')
    moreover have "waiting d' = waiting d" by (rule waiting_cong [OF seq same_pending_numbered [OF 3(2)]])
    moreover have "db_currentBuffer d' = None" "db_currentSequence d' = db_currentSequence d"
      using 3(2) assms(2) by (auto simp: same_pending_def)
    ultimately show ?thesis using same_pending_inv [OF 3(2) assms(1)] by auto
  qed
  with pick_result [OF assms] show ?thesis by blast
qed

theorem pick_in_sequence_witness:
  "\<exists>d d'. NewDoubleBuffer 2 sample_condition [] 0 sample_memory = Inr (Inr d) \<and>
     pickBufferFromHeap d = Inr (False, d')"
proof -
  obtain d where d: "db_inv d" "NewDoubleBuffer 2 sample_condition [] 0 sample_memory = Inr (Inr d)"
      "db_currentBuffer d = None" by (rule sample_exists)
  have "db_pendingHeap d = []"
    using d(2) by (auto simp: NewDoubleBuffer_def NewSmartBuffer_def NewWrapHeap_def)
  with pick_in_sequence [OF d(1,3)] d(2) show ?thesis by auto
qed

lemma tryRead_mode_result:
  assumes "db_inv d" "db_readMode d = Some m" "db_currentBuffer d \<noteq> None" "ReadMode_Validate m"
  shows "\<exists>r d'. tryRead_mode choice now d = Inr (r, d') \<and> db_inv d' \<and>
    (case r of Inr c \<Rightarrow> \<exists>x. content d = x # content d' \<and> sl_len (DataChunk_Bytes c) = bi_Size x
     | Inl e \<Rightarrow> content d' = content d \<and> e = ErrRead) \<and> (current_items d \<noteq> [] \<longrightarrow> (\<exists>c. r = Inr c))"
proof -
  obtain b where b: "db_currentBuffer d = Some b" using assms(3) by blast
  have safe: "db_safe d" using assms(1) by (simp add: db_inv_def)
  show ?thesis
  proof (cases "sb_count b = 0")
    case True
    then have "current_items d = []"
      using b db_safe_current [OF safe b] by (simp add: current_items_def buf_ok_def sb_items_empty_iff)
    then show ?thesis using tryRead_mode_empty [OF b True assms(2,4), of choice now] assms(1) by simp
  next
    case False
    then obtain c d' where "tryRead_mode choice now d = Inr (Inr c, d')" "chunk_for (hd (sb_items b)) c"
        "side_step (popped_db b d) d'"
      using tryRead_mode_ok [OF safe b False assms(2,4), of choice now] by blast
    then show ?thesis
      using popped_db_keeps [OF safe b False] side_step_inv side_step_content assms(1)
      by (auto simp: chunk_for_def DataChunk_Bytes_def)
  qed
qed



text \<open>
  Reading data before a read mode was registered dereferences the nil mode and panics.
\<close>

theorem read_without_mode_panics:
  assumes "db_readMode d = None" "db_currentBuffer d = Some b" "Len b \<noteq> 0"
  shows "tryRead choice now d = Inl NilDereference"
  using assms by (simp add: tryRead_def tryRead_enter_def tryRead_mode_def)

theorem read_without_mode_panics_witness:
  "\<exists>d b. NewDoubleBuffer 2 sample_condition [] 0 sample_memory = Inr (Inr d) \<and>
     tryRead None 0 (d\<lparr>db_currentBuffer := Some (b\<lparr>sb_count := 1\<rparr>)\<rparr>) = Inl NilDereference"
proof -
  obtain d where d: "NewDoubleBuffer 2 sample_condition [] 0 sample_memory = Inr (Inr d)" "db_readMode d = None"
    by (rule sample_exists)
  have "tryRead None 0 (d\<lparr>db_currentBuffer := Some ((db_active d)\<lparr>sb_count := 1\<rparr>)\<rparr>) = Inl NilDereference"
    by (rule read_without_mode_panics [where b = "(db_active d)\<lparr>sb_count := 1\<rparr>"]) (simp_all add: d(2) Len_def)
  with d(1) show ?thesis by blast
qed

end
