(* ===== verification/Exec_Spec.thy ===== *)
theory Exec_Spec
  imports TS_Prelude
begin

text \<open>
  Executions of a labelled transition system whose steps are computed: \<open>fire l s\<close> is \<open>None\<close> when the
  step \<open>l\<close> cannot be taken in \<open>s\<close>, \<open>Some (Inl p)\<close> when it panics and \<open>Some (Inr s')\<close> otherwise. Three
  contracts: \<open>safe_system\<close> is an invariant that every step keeps; \<open>terminating_system\<close> adds a rank that
  every step lowers; \<open>guarded_system\<close> one that every allowed
  step keeps as long as a clock, which grows by at most one per step, stays under a limit (the range of
  the counters of the program).
\<close>

inductive exec :: "('l \<Rightarrow> 's \<Rightarrow> 's go option) \<Rightarrow> 'l list \<Rightarrow> 's \<Rightarrow> 's \<Rightarrow> bool"
  for fire :: "'l \<Rightarrow> 's \<Rightarrow> 's go option" where
  exec_done: "exec fire [] s s"
| exec_step: "exec fire ls s s' \<Longrightarrow> fire l s' = Some (Inr s'') \<Longrightarrow> exec fire (ls @ [l]) s s''"

inductive_cases exec_NilE: "exec fire [] s s'"

lemma exec_Cons: "fire l s = Some (Inr s1) \<Longrightarrow> exec fire ls s1 s2 \<Longrightarrow> exec fire (l # ls) s s2"
proof (induction ls arbitrary: s2 rule: rev_induct)
  case Nil
  then have "s2 = s1" by (auto elim: exec_NilE)
  with Nil show ?case using exec_step [OF exec_done, of fire l s s1] by simp
next
  case (snoc l' ls)
  from snoc.prems(2) obtain s' where "exec fire ls s1 s'" "fire l' s' = Some (Inr s2)"
    by (cases rule: exec.cases) auto
  then show ?case using exec_step [OF snoc.IH [OF snoc.prems(1)]] by fastforce
qed

text \<open>The same, as a function.\<close>

fun run_labels :: "('l \<Rightarrow> 's \<Rightarrow> 's go option) \<Rightarrow> 'l list \<Rightarrow> 's \<Rightarrow> 's go option" where
  "run_labels fire [] s = Some (Inr s)"
| "run_labels fire (l # ls) s =
     (case fire l s of
        None \<Rightarrow> None
      | Some (Inl p) \<Rightarrow> Some (Inl p)
      | Some (Inr s') \<Rightarrow> run_labels fire ls s')"

lemma run_labels_exec: "run_labels fire ls s = Some (Inr s') \<Longrightarrow> exec fire ls s s'"
proof (induction ls arbitrary: s)
  case Nil
  then show ?case by (simp add: exec_done)
next
  case (Cons l ls)
  then obtain s1 where "fire l s = Some (Inr s1)" "run_labels fire ls s1 = Some (Inr s')"
    by (auto split: option.splits sum.splits)
  with Cons.IH show ?case by (blast intro: exec_Cons)
qed

locale safe_system =
  fixes fire :: "'l \<Rightarrow> 's \<Rightarrow> 's go option"
    and inv :: "'s \<Rightarrow> bool"
  assumes keeps_inv: "inv s \<Longrightarrow> fire l s = Some (Inr s') \<Longrightarrow> inv s'"
    and no_panic: "inv s \<Longrightarrow> fire l s \<noteq> Some (Inl p)"
begin

lemma always_inv: "exec fire ls s s' \<Longrightarrow> inv s \<Longrightarrow> inv s'"
  by (induction rule: exec.induct) (auto intro: keeps_inv)

lemma always_safe: "exec fire ls s s' \<Longrightarrow> inv s \<Longrightarrow> fire l s' \<noteq> Some (Inl p)"
  using always_inv no_panic by blast

end

text \<open>A safe system in which a rank goes down with every step has no long execution.\<close>

locale terminating_system = safe_system fire inv
  for fire :: "'l \<Rightarrow> 's \<Rightarrow> 's go option" and inv :: "'s \<Rightarrow> bool" +
  fixes rank :: "'s \<Rightarrow> nat"
  assumes rank_down: "inv s \<Longrightarrow> fire l s = Some (Inr s') \<Longrightarrow> rank s' < rank s"
begin

lemma exec_bounded: "exec fire ls s s' \<Longrightarrow> inv s \<Longrightarrow> length ls + rank s' \<le> rank s"
proof (induction rule: exec.induct)
  case (exec_done s)
  then show ?case by simp
next
  case (exec_step ls s s1 l s2)
  have "rank s2 < rank s1" using always_inv [OF exec_step.hyps(1) exec_step.prems] exec_step.hyps(2) by (rule rank_down)
  then show ?case using exec_step by simp
qed

end

locale guarded_system =
  fixes fire :: "'l \<Rightarrow> 's \<Rightarrow> 's go option"
    and allowed :: "'l \<Rightarrow> bool"
    and inv :: "'s \<Rightarrow> bool"
    and clock :: "'s \<Rightarrow> int"
    and limit :: int
  assumes step_inv: "inv s \<Longrightarrow> allowed l \<Longrightarrow> clock s < limit \<Longrightarrow> fire l s = Some (Inr s') \<Longrightarrow> inv s'"
    and step_clock: "inv s \<Longrightarrow> allowed l \<Longrightarrow> clock s < limit \<Longrightarrow> fire l s = Some (Inr s') \<Longrightarrow> clock s' \<le> clock s + 1"
    and step_safe: "inv s \<Longrightarrow> allowed l \<Longrightarrow> clock s < limit \<Longrightarrow> fire l s \<noteq> Some (Inl p)"
begin

lemma exec_inv:
  assumes "exec fire ls s s'" "inv s" "\<forall>l \<in> set ls. allowed l" "clock s + int (length ls) \<le> limit"
  shows "inv s' \<and> clock s' \<le> clock s + int (length ls)"
  using assms
proof (induction rule: exec.induct)
  case (exec_done s)
  then show ?case by simp
next
  case (exec_step ls s s1 l s2)
  then have "inv s1" and c: "clock s1 \<le> clock s + int (length ls)" by auto
  moreover have "allowed l" "clock s1 < limit" using exec_step.prems c by auto
  ultimately show ?case using step_inv [of s1 l s2] step_clock [of s1 l s2] exec_step.hyps(2) c by simp
qed

text \<open>No allowed execution runs into a panic.\<close>

theorem exec_never_panics:
  assumes "exec fire ls s s'" "inv s" "\<forall>l \<in> set (ls @ [l]). allowed l" "clock s + int (length ls) < limit"
  shows "fire l s' \<noteq> Some (Inl p)"
  using exec_inv [OF assms(1,2)] assms(3,4) step_safe [of s' l p] by fastforce

end

end
