(* ===== verification/Buffer_System.thy ===== *)
theory Buffer_System
  imports Buffer_Laws Exec_Spec
begin

text \<open>
  The double buffer at work: any number of writers, the monitor, the goroutines started by switches,
  the recycling worker, the caller changing its own memory, and one consumer that calls
  \<open>BlockingRead\<close> and releases chunks. A label is one step of one of them; the steps of different
  goroutines interleave in any order. The consumer is a state machine whose states are the points of
  \<open>BlockingRead\<close> where it can be interrupted: between the rounds of \<open>pickBufferFromHeap\<close>, before the
  read itself, and while it is blocked.

  \<open>s_written\<close> and \<open>s_delivered\<close> record the history: the items accepted by \<open>Write\<close> and those handed
  out, each with the bytes the caller passed or received at that moment.
\<close>

section \<open>States and steps\<close>

datatype reader_pc =
    Idle
  | Picking nat "(int \<times> nat) option"
  | Reading "(int \<times> nat) option"
  | Registering
  | Waiting int nat

record sys =
  s_db :: double_buffer
  s_pc :: reader_pc
  s_chunks :: "data_chunk list"
  s_written :: "(buffer_item \<times> byte list) list"
  s_delivered :: "(buffer_item \<times> byte list) list"

datatype label =
    LWrite "nat option" "nat option" int slice
  | LTick "nat option" int
  | LRecycle int
  | LNumber nat
  | LPush nat
  | LNotify nat
  | LUser nat "byte list"
  | LReadMode int
  | LBegin
  | LPick
  | LRead "nat option" int
  | LRegister "nat option"
  | LWake
  | LCancel
  | LStop
  | LRelease nat
  | LClose

text \<open>The bytes of a slice.\<close>

definition slice_bytes :: "memory \<Rightarrow> slice \<Rightarrow> byte list" where
  "slice_bytes m p = mem_read m (sl_ptr p) (nat (sl_len p))"

text \<open>A slice of the caller that denotes allocated memory, as every Go slice does.\<close>

fun user_slice :: "memory \<Rightarrow> slice \<Rightarrow> bool" where
  "user_slice m p =
     (case sl_ptr p of UserMem _ \<Rightarrow> sl_len p \<le> int (length (mem_blocks m (sl_ptr p))) | _ \<Rightarrow> False)"

definition do_write :: "nat option \<Rightarrow> nat option \<Rightarrow> int \<Rightarrow> slice \<Rightarrow> sys \<Rightarrow> sys go option" where
  "do_write choice bchoice now p s =
     (if \<not> user_slice (db_mem (s_db s)) p then None
      else Some (bind_go (Write choice bchoice now p (s_db s)) (\<lambda>(err, d).
        Inr (case err of
               None \<Rightarrow> s\<lparr>s_db := d, s_written := s_written s @
                          [(last (sb_items (db_active d)), slice_bytes (db_mem (s_db s)) p)]\<rparr>
             | Some _ \<Rightarrow> s\<lparr>s_db := d\<rparr>))))"

text \<open>
  The consumer: \<open>reader_enter\<close> is the start of \<open>tryRead\<close>, \<open>reader_fail\<close> what follows when it returns an
  error, \<open>reader_finish\<close> what follows when it returns data (\<open>w\<close> is the registration of a consumer that
  was blocked before, which the deferred \<open>unregister\<close> removes).
\<close>

definition reader_enter :: "(int \<times> nat) option \<Rightarrow> sys \<Rightarrow> sys" where
  "reader_enter w s =
     (let (pick, d) = tryRead_enter (s_db s)
      in s\<lparr>s_db := d, s_pc := (if pick then Picking 0 w else Reading w)\<rparr>)"

definition reader_fail :: "(int \<times> nat) option \<Rightarrow> sys \<Rightarrow> sys" where
  "reader_fail w s =
     (case w of
        None \<Rightarrow> s\<lparr>s_pc := Registering\<rparr>
      | Some (wid, _) \<Rightarrow> s\<lparr>s_db := unregister_db wid (s_db s), s_pc := Idle\<rparr>)"

definition reader_register :: "nat option \<Rightarrow> sys \<Rightarrow> sys" where
  "reader_register wchoice s =
     (let ((wid, ch), wm) = register wchoice (db_wm (s_db s))
      in s\<lparr>s_db := (s_db s)\<lparr>db_wm := wm\<rparr>, s_pc := Waiting wid ch\<rparr>)"

definition after_read :: "(int \<times> nat) option \<Rightarrow> double_buffer \<Rightarrow> double_buffer" where
  "after_read w d = (case w of None \<Rightarrow> d | Some (wid, _) \<Rightarrow> unregister_db wid d)"

definition reader_finish :: "(int \<times> nat) option \<Rightarrow> buffer_item \<Rightarrow> data_chunk \<Rightarrow> sys \<Rightarrow> sys" where
  "reader_finish w x c s =
     s\<lparr>s_db := after_read w (s_db s),
       s_pc := Idle, s_chunks := s_chunks s @ [c],
       s_delivered := s_delivered s @ [(x, slice_bytes (db_mem (s_db s)) (DataChunk_Bytes c))]\<rparr>"

definition reader_pick :: "nat \<Rightarrow> (int \<times> nat) option \<Rightarrow> sys \<Rightarrow> sys go" where
  "reader_pick n w s =
     (if n < maxRetires then
        bind_go (pick_once (s_db s)) (\<lambda>(r, d).
          Inr (case r of
                 Some False \<Rightarrow> reader_fail w (s\<lparr>s_db := d\<rparr>)
               | Some True \<Rightarrow> s\<lparr>s_db := d, s_pc := Reading w\<rparr>
               | None \<Rightarrow> s\<lparr>s_db := d, s_pc := Picking (Suc n) w\<rparr>))
      else Inr (if db_currentBuffer (s_db s) \<noteq> None then s\<lparr>s_pc := Reading w\<rparr> else reader_fail w s))"

definition reader_read ::
    "nat option \<Rightarrow> int \<Rightarrow> (int \<times> nat) option \<Rightarrow> sys \<Rightarrow> sys go" where
  "reader_read choice now w s =
     bind_go (tryRead_mode choice now (s_db s)) (\<lambda>(r, d).
       Inr (case r of
              Inl _ \<Rightarrow> reader_fail w (s\<lparr>s_db := d\<rparr>)
            | Inr c \<Rightarrow> reader_finish w (hd (current_items (s_db s))) c (s\<lparr>s_db := d\<rparr>)))"

definition do_release :: "nat \<Rightarrow> sys \<Rightarrow> sys" where
  "do_release k s =
     (let (c, d) = DataChunk_Release (s_chunks s ! k) (s_db s)
      in s\<lparr>s_db := d, s_chunks := (s_chunks s)[k := c]\<rparr>)"

definition user_store :: "nat \<Rightarrow> byte list \<Rightarrow> sys \<Rightarrow> sys" where
  "user_store n bs s =
     s\<lparr>s_db := (s_db s)\<lparr>db_mem := (db_mem (s_db s))\<lparr>mem_blocks := (mem_blocks (db_mem (s_db s)))(UserMem n := bs)\<rparr>\<rparr>\<rparr>"

fun fire :: "label \<Rightarrow> sys \<Rightarrow> sys go option" where
  "fire (LWrite choice bchoice now p) s = do_write choice bchoice now p s"
| "fire (LTick choice now) s =
     Some (bind_go (swapMonitor_tick choice now (s_db s)) (\<lambda>d. Inr (s\<lparr>s_db := d\<rparr>)))"
| "fire (LRecycle now) s = Some (Inr (s\<lparr>s_db := asyncRecycleWorker_tick now (s_db s)\<rparr>))"
| "fire (LNumber k) s =
     (if k < length (db_spawned (s_db s)) then Some (Inr (s\<lparr>s_db := take_number k (s_db s)\<rparr>)) else None)"
| "fire (LPush k) s =
     (if k < length (db_numbered (s_db s)) then Some (Inr (s\<lparr>s_db := push_pending k (s_db s)\<rparr>)) else None)"
| "fire (LNotify k) s =
     (if k < length (db_notifying (s_db s))
      then Some (bind_go (run_notify k (s_db s)) (\<lambda>d. Inr (s\<lparr>s_db := d\<rparr>))) else None)"
| "fire (LUser n bs) s = Some (Inr (user_store n bs s))"
| "fire (LReadMode m) s = Some (Inr (s\<lparr>s_db := snd (RegisterReadMode m (s_db s))\<rparr>))"
| "fire LBegin s = (if s_pc s = Idle then Some (Inr (reader_enter None s)) else None)"
| "fire LPick s =
     (case s_pc s of Picking n w \<Rightarrow> Some (reader_pick n w s) | _ \<Rightarrow> None)"
| "fire (LRead choice now) s =
     (case s_pc s of Reading w \<Rightarrow> Some (reader_read choice now w s) | _ \<Rightarrow> None)"
| "fire (LRegister wchoice) s =
     (if s_pc s = Registering then Some (Inr (reader_register wchoice s)) else None)"
| "fire LWake s =
     (case s_pc s of
        Waiting wid ch \<Rightarrow>
          (case chan_recv ch (db_wm (s_db s)) of
             None \<Rightarrow> None
           | Some wm \<Rightarrow>
               Some (Inr (reader_enter (Some (wid, ch)) (s\<lparr>s_db := (s_db s)\<lparr>db_wm := wm\<rparr>\<rparr>))))
      | _ \<Rightarrow> None)"
| "fire LCancel s =
     (case s_pc s of
        Waiting wid _ \<Rightarrow> Some (Inr (s\<lparr>s_db := unregister_db wid (s_db s), s_pc := Idle\<rparr>))
      | _ \<Rightarrow> None)"
| "fire LStop s =
     (case s_pc s of
        Waiting wid _ \<Rightarrow>
          if db_stop (s_db s)
          then Some (Inr (s\<lparr>s_db := unregister_db wid (s_db s), s_pc := Idle\<rparr>)) else None
      | _ \<Rightarrow> None)"
| "fire (LRelease k) s = (if k < length (s_chunks s) then Some (Inr (do_release k s)) else None)"
| "fire LClose s = Some (bind_go (Close (s_db s)) (\<lambda>d. Inr (s\<lparr>s_db := d\<rparr>)))"

definition start :: "double_buffer \<Rightarrow> sys" where
  "start d = \<lparr>s_db = d, s_pc = Idle, s_chunks = [], s_written = [], s_delivered = []\<rparr>"

section \<open>The invariant of the system\<close>

definition state_ok :: "double_buffer \<Rightarrow> bool" where
  "state_ok d \<longleftrightarrow>
     db_safe d \<and> (db_state d = WritingState \<longrightarrow> db_inv d) \<and> 0 \<le> db_sequence d \<and>
     (\<exists>m. db_readMode d = Some m \<and> ReadMode_Validate m)"

fun pc_ok :: "reader_pc \<Rightarrow> double_buffer \<Rightarrow> bool" where
  "pc_ok (Picking n w) d = (db_currentBuffer d = None)"
| "pc_ok (Reading w) d = (db_currentBuffer d \<noteq> None)"
| "pc_ok _ d = True"

definition free_ok :: "free_action option \<Rightarrow> bool" where
  "free_ok fr \<longleftrightarrow>
     (\<forall>b. fr = Some (FreeSmall b) \<longrightarrow> sl_ptr b \<noteq> NilPtr \<and> 0 \<le> sl_cap b \<and> sl_cap b < 2 ^ 31)"

definition sys_safe :: "sys \<Rightarrow> bool" where
  "sys_safe s \<longleftrightarrow>
     state_ok (s_db s) \<and> pc_ok (s_pc s) (s_db s) \<and> (\<forall>c \<in> set (s_chunks s). free_ok (dc_free c))"

text \<open>The counters that must not wrap around: sequence numbers and waiter identifiers.\<close>

definition db_clock :: "double_buffer \<Rightarrow> int" where
  "db_clock d = db_sequence d + wm_currentID (db_wm d)"

definition counter_limit :: int where
  "counter_limit = 2 ^ 63 - 2"

abbreviation is_open :: "double_buffer \<Rightarrow> bool" where
  "is_open d \<equiv> db_state d = WritingState"

text \<open>A step of the buffer that keeps the invariant and, while it is open, the data inside.\<close>

definition db_good :: "double_buffer \<Rightarrow> double_buffer \<Rightarrow> bool" where
  "db_good d d' \<longleftrightarrow>
     state_ok d' \<and> db_clock d' \<le> db_clock d + 1 \<and>
     (is_open d \<longrightarrow> is_open d' \<and> content d' = content d)"

lemma state_okD:
  assumes "state_ok d"
  shows "db_safe d" "wm_inv (db_wm d)" "\<not> wm_closed (db_wm d)" "0 \<le> db_sequence d"
    "0 \<le> wm_currentID (db_wm d)" "is_open d \<Longrightarrow> db_inv d"
    "\<exists>m. db_readMode d = Some m \<and> ReadMode_Validate m"
  using assms by (auto simp: state_ok_def db_safe_def wm_inv_def)

lemma side_good:
  assumes "state_ok d" "side_step d d'" "db_readMode d' = db_readMode d"
    "wm_currentID (db_wm d') \<le> wm_currentID (db_wm d) + 1"
  shows "db_good d d'"
proof -
  have "db_state d' = db_state d" "db_sequence d' = db_sequence d"
    using assms(2) by (simp_all add: side_step_def same_buffers_def)
  then show ?thesis
    using assms side_step_safe [OF assms(2)] side_step_inv [OF assms(2)] side_step_content [OF assms(2)]
    by (auto simp: db_good_def state_ok_def db_clock_def)
qed

lemma db_good_inv:
  assumes "db_inv d'" "content d' = content d" "db_sequence d' \<le> db_sequence d + 1" "0 \<le> db_sequence d'"
    "db_wm d' = db_wm d" "\<exists>m. db_readMode d' = Some m \<and> ReadMode_Validate m"
  shows "db_good d d'"
  using assms by (auto simp: db_good_def state_ok_def db_clock_def db_inv_def)

lemma db_good_refl: "state_ok d \<Longrightarrow> db_good d d"
  by (simp add: db_good_def)

lemma wm_side:
  "db_safe d \<Longrightarrow> wm_inv w \<Longrightarrow> \<not> wm_closed w \<Longrightarrow> side_step d (d\<lparr>db_wm := w\<rparr>)"
  by (simp add: side_step_def same_buffers_def db_safe_def small_ok_def)

section \<open>Steps of the writers and background goroutines\<close>

lemma closed_stop: "db_safe d \<Longrightarrow> \<not> is_open d \<Longrightarrow> db_state d = ClosedState \<and> db_stop d"
  by (auto simp: db_safe_def)

lemma tick_good:
  assumes "state_ok d"
  shows "\<exists>d'. swapMonitor_tick choice now d = Inr d' \<and> db_good d d' \<and>
    (db_currentBuffer d' = db_currentBuffer d)"
proof (cases "is_open d")
  case True
  obtain d' where t: "swapMonitor_tick choice now d = Inr d'" "db_inv d'" "content d' = content d"
      "db_sequence d' = db_sequence d" "db_wm d' = db_wm d" "db_readMode d' = db_readMode d"
    using swapMonitor_tick_open [OF state_okD(6) [OF assms True], of choice now] by blast
  then have "db_good d d'" using state_okD [OF assms] by (intro db_good_inv) auto
  moreover have "db_currentBuffer d' = db_currentBuffer d"
    using t(1) by (auto simp: swapMonitor_tick_def switchChannel_def needSwitch_def Let_def
        swapChannels_def buf_pool_get_def bind_go_def split: prod.splits if_splits sum.splits option.splits)
  ultimately show ?thesis using t(1) by blast
next
  case False
  then have "db_stop d" using closed_stop state_okD(1) [OF assms] by blast
  then show ?thesis using db_good_refl [OF assms] by (simp add: swapMonitor_tick_def)
qed

lemma push_good:
  assumes "state_ok d" "k < length (db_numbered d)"
  shows "db_good d (push_pending k d)"
proof -
  obtain q b where qb: "db_numbered d ! k = (q, b)" by fastforce
  note eq = push_pending_eq [OF assms(2) qb]
  have "is_open d \<Longrightarrow> db_inv (push_pending k d) \<and> content (push_pending k d) = content d"
    using push_pending_inv push_pending_content state_okD(6) [OF assms(1)] assms(2) by blast
  then show ?thesis
    using push_pending_safe [OF state_okD(1) [OF assms(1)] assms(2)] assms(1)
    by (simp add: db_good_def state_ok_def db_clock_def eq)
qed

lemma number_good:
  assumes "state_ok d" "k < length (db_spawned d)" "db_sequence d < counter_limit"
  shows "state_ok (take_number k d) \<and> db_clock (take_number k d) \<le> db_clock d + 1 \<and>
    (is_open d \<longrightarrow> is_open (take_number k d) \<and> mset (content (take_number k d)) = mset (content d) \<and>
       (k = 0 \<longrightarrow> content (take_number k d) = content d))"
proof -
  have lim: "db_sequence d < 2 ^ 63 - 2" using assms(3) by (simp add: counter_limit_def)
  have w: "wrap64 (db_sequence d + 1) = db_sequence d + 1" using lim state_okD(4) [OF assms(1)] by simp
  have eq: "take_number k d = d\<lparr>db_sequence := db_sequence d + 1, db_spawned := remove_nth k (db_spawned d),
      db_numbered := db_numbered d @ [(db_sequence d + 1, db_spawned d ! k)]\<rparr>"
    using assms(2) w by (simp add: take_number_def Let_def)
  have "db_spawned d ! k \<in> set (db_spawned d)" using assms(2) by simp
  then have "bufs_ok (take_number k d)"
    using state_okD(1) [OF assms(1)] set_remove_nth [of k "db_spawned d"]
    by (auto simp: eq db_safe_def bufs_ok_def heap_bufs_def ball_Un)
  then have "db_safe (take_number k d)"
    using state_okD(1) [OF assms(1)] by (simp add: eq db_safe_def small_ok_def)
  moreover have "db_inv (take_number k d) \<and> mset (content (take_number k d)) = mset (content d) \<and>
      (k = 0 \<longrightarrow> content (take_number k d) = content d)" if "is_open d"
    using take_number_inv [OF _ assms(2) lim] take_number_content_mset [OF _ assms(2) lim]
      take_number_content [OF _ _ lim] state_okD(6) [OF assms(1) that] assms(2) by (cases k) auto
  ultimately show ?thesis using assms(1) by (simp add: state_ok_def db_clock_def eq)
qed

lemma notify_good:
  assumes "state_ok d" "k < length (db_notifying d)"
  shows "\<exists>d'. run_notify k d = Inr d' \<and> db_good d d' \<and> db_currentBuffer d' = db_currentBuffer d"
proof -
  have safe: "db_safe d" by (rule state_okD(1) [OF assms(1)])
  let ?d = "d\<lparr>db_wm := woken (nat (min 64 (db_notifying d ! k))) (db_wm d),
              db_notifying := remove_nth k (db_notifying d)\<rparr>"
  have "wm_inv (woken j (db_wm d))" "\<not> wm_closed (woken j (db_wm d))"
      "wm_currentID (woken j (db_wm d)) = wm_currentID (db_wm d)" for j
    using woken_inv [OF state_okD(2) [OF assms(1)]] state_okD(3) [OF assms(1)] by (simp_all add: woken_def)
  then have "db_good d ?d"
    using safe by (intro side_good [OF assms(1)]) (simp_all add: side_step_def same_buffers_def db_safe_def small_ok_def)
  then show ?thesis using run_notify_ok [OF safe assms(2)] by simp
qed

section \<open>Steps of the consumer\<close>

lemma register_good:
  assumes "state_ok d" "wm_currentID (db_wm d) < counter_limit" "register wchoice (db_wm d) = ((wid, ch), w)"
  shows "db_good d (d\<lparr>db_wm := w\<rparr>)"
proof -
  have r: "wm_inv w" "\<not> wm_closed w" "wm_currentID w = wm_currentID (db_wm d) + 1"
  proof -
    have lim: "wm_currentID (db_wm d) < 2 ^ 63 - 1" using assms(2) by (simp add: counter_limit_def)
    show "wm_inv w" "\<not> wm_closed w"
      using register_inv [OF state_okD(2) [OF assms(1)] lim assms(3)] state_okD(3) [OF assms(1)] by auto
    show "wm_currentID w = wm_currentID (db_wm d) + 1"
      using assms(3) lim state_okD(5) [OF assms(1)]
      by (auto simp: register_def chan_pool_get_def Let_def split: option.splits if_splits)
  qed
  show ?thesis
    by (rule side_good [OF assms(1) wm_side [OF state_okD(1) [OF assms(1)] r(1,2)]]) (simp_all add: r(3))
qed

lemma unregister_facts:
  "wm_closed (unregister wid w) = wm_closed w" "wm_currentID (unregister wid w) = wm_currentID w"
  by (simp_all add: unregister_def split: option.splits)

lemma unregister_good:
  assumes "state_ok d"
  shows "db_good d (unregister_db wid d) \<and> db_clock (unregister_db wid d) = db_clock d"
proof -
  have "side_step d (unregister_db wid d)"
    unfolding unregister_db_def
    using state_okD [OF assms] unregister_inv by (intro wm_side) (simp_all add: unregister_facts)
  then show ?thesis
    using side_good [OF assms] by (simp add: unregister_db_def unregister_facts db_clock_def)
qed

lemma enter_good:
  assumes "state_ok d" "tryRead_enter d = (pick, d')"
  shows "db_good d d' \<and> db_clock d' = db_clock d \<and> pc_ok (if pick then Picking 0 w else Reading w) d'"
  using tryRead_enter_keeps [OF state_okD(1) [OF assms(1)] assms(2)] assms(1)
  by (auto simp: db_good_def state_ok_def db_clock_def)

lemma pick_good:
  assumes "state_ok d" "db_currentBuffer d = None"
  obtains "pick_once d = Inr (Some False, d)"
  | d' where "pick_once d = Inr (Some True, d')" "db_good d d'" "db_currentBuffer d' \<noteq> None" "db_clock d' = db_clock d"
  | d' where "pick_once d = Inr (None, d')" "db_good d d'" "db_currentBuffer d' = None" "db_clock d' = db_clock d"
proof -
  have safe: "db_safe d" by (rule state_okD(1) [OF assms(1)])
  then have h: "mh_inv (db_pendingHeap d)" by (simp add: db_safe_def)
  show ?thesis
  proof (cases rule: pick_once_cases [OF h])
    case 1
    then show ?thesis using that(1) by blast
  next
    case (2 b d')
    have "is_open d \<Longrightarrow> db_inv d' \<and> content d' = content d"
      using picked_inv [OF 2(2) _ assms(2)] state_okD(6) [OF assms(1)] by blast
    moreover have "db_safe d'" using picked_safe [OF 2(2) safe] by simp
    moreover have "db_state d' = db_state d" "db_sequence d' = db_sequence d" "db_wm d' = db_wm d"
        "db_readMode d' = db_readMode d" "db_currentBuffer d' \<noteq> None"
      using 2(2) by (auto simp: picked_def)
    ultimately show ?thesis
      using that(2) [OF 2(1)] assms(1) by (auto simp: db_good_def state_ok_def db_clock_def)
  next
    case (3 d')
    have "is_open d \<Longrightarrow> db_inv d' \<and> content d' = content d"
      using same_pending_inv [OF 3(2)] state_okD(6) [OF assms(1)] by blast
    moreover have "db_safe d'" by (rule same_pending_safe [OF 3(2) safe])
    moreover have "db_state d' = db_state d" "db_sequence d' = db_sequence d" "db_wm d' = db_wm d"
        "db_readMode d' = db_readMode d" "db_currentBuffer d' = db_currentBuffer d"
      using 3(2) by (auto simp: same_pending_def)
    ultimately show ?thesis
      using that(3) [OF 3(1)] assms by (auto simp: db_good_def state_ok_def db_clock_def)
  qed
qed

lemma RegisterReadMode_good:
  "state_ok d \<Longrightarrow> db_good d (snd (RegisterReadMode m d))"
proof (cases "ReadMode_Validate m")
  case False
  then show "state_ok d \<Longrightarrow> ?thesis" using db_good_refl by (simp add: RegisterReadMode_def)
next
  case True
  assume ok: "state_ok d"
  let ?d = "d\<lparr>db_readMode := Some m\<rparr>"
  have side: "side_step d ?d"
    using state_okD(1) [OF ok] by (simp add: side_step_def same_buffers_def db_safe_def small_ok_def)
  show ?thesis
    using True ok side_step_safe [OF side] side_step_inv [OF side] side_step_content [OF side]
    by (simp add: RegisterReadMode_def db_good_def state_ok_def db_clock_def)
qed

lemma free_side: "db_safe d \<Longrightarrow> free_ok (Some fr) \<Longrightarrow> side_step d (run_free fr d)"
  using side_step_pm [of d]
  by (cases fr) (auto simp: recycle_def free_ok_def SmallPool_Put_def side_step_def same_buffers_def
      db_safe_def small_ok_def)

lemma release_good:
  assumes "state_ok d" "free_ok (dc_free c)" "DataChunk_Release c d = (c', d')"
  shows "db_good d d' \<and> free_ok (dc_free c') \<and> db_currentBuffer d' = db_currentBuffer d"
proof (cases "dc_free c")
  case None
  then show ?thesis using assms db_good_refl by (auto simp: DataChunk_Release_def)
next
  case (Some fr)
  have same: "db_readMode (run_free fr d) = db_readMode d" "db_wm (run_free fr d) = db_wm d"
    by (cases fr, simp_all add: recycle_def)+
  have side: "side_step d (run_free fr d)" using free_side state_okD(1) assms(1,2) Some by metis
  then have "db_good d (run_free fr d)" using same by (intro side_good [OF assms(1)]) simp_all
  then show ?thesis
    using Some assms(3) side by (auto simp: DataChunk_Release_def free_ok_def side_step_def same_buffers_def)
qed

section \<open>What a step of the system does\<close>

text \<open>
  \<open>sys_good\<close>: the invariant is kept, the counters grow by at most one, and while the buffer is open the
  data inside followed by what is accepted equals what is handed out followed by the data inside.
\<close>

definition flow :: "sys \<Rightarrow> sys \<Rightarrow> bool" where
  "flow s s' \<longleftrightarrow> is_open (s_db s') \<and>
     (\<exists>ins outs. s_written s' = s_written s @ ins \<and> s_delivered s' = s_delivered s @ outs \<and>
        content (s_db s) @ map fst ins = map fst outs @ content (s_db s'))"

definition flow_mset :: "sys \<Rightarrow> sys \<Rightarrow> bool" where
  "flow_mset s s' \<longleftrightarrow> is_open (s_db s') \<and>
     (\<exists>ins outs. s_written s' = s_written s @ ins \<and> s_delivered s' = s_delivered s @ outs \<and>
        mset (content (s_db s) @ map fst ins) = mset (map fst outs @ content (s_db s')))"

lemma flow_imp_mset: "flow s s' \<Longrightarrow> flow_mset s s'"
  unfolding flow_def flow_mset_def by metis

lemma flow_trans:
  assumes "flow s s1" "flow s1 s2"
  shows "flow s s2"
proof -
  obtain i o' where 1: "s_written s1 = s_written s @ i" "s_delivered s1 = s_delivered s @ o'"
      "content (s_db s) @ map fst i = map fst o' @ content (s_db s1)" using assms(1) by (auto simp: flow_def)
  obtain i2 o2 where 2: "s_written s2 = s_written s1 @ i2" "s_delivered s2 = s_delivered s1 @ o2"
      "content (s_db s1) @ map fst i2 = map fst o2 @ content (s_db s2)" "is_open (s_db s2)"
    using assms(2) by (auto simp: flow_def)
  have "content (s_db s) @ map fst (i @ i2) = map fst (o' @ o2) @ content (s_db s2)"
    using 1(3) 2(3) by (metis append.assoc map_append)
  with 1 2 show ?thesis unfolding flow_def by (intro conjI exI [of _ "i @ i2"] exI [of _ "o' @ o2"]) simp_all
qed

lemma flow_mset_trans:
  assumes "flow_mset s s1" "flow_mset s1 s2"
  shows "flow_mset s s2"
proof -
  obtain i o' where 1: "s_written s1 = s_written s @ i" "s_delivered s1 = s_delivered s @ o'"
      "mset (content (s_db s)) + mset (map fst i) = mset (map fst o') + mset (content (s_db s1))"
    using assms(1) unfolding flow_mset_def mset_append by blast
  obtain i2 o2 where 2: "s_written s2 = s_written s1 @ i2" "s_delivered s2 = s_delivered s1 @ o2"
      "mset (content (s_db s1)) + mset (map fst i2) = mset (map fst o2) + mset (content (s_db s2))"
      "is_open (s_db s2)"
    using assms(2) unfolding flow_mset_def mset_append by blast
  have "mset (content (s_db s)) + (mset (map fst i) + mset (map fst i2)) =
      (mset (map fst o') + mset (map fst o2)) + mset (content (s_db s2))"
    using 1(3) 2(3) by (metis union_assoc)
  with 1 2 show ?thesis
    unfolding flow_mset_def by (intro conjI exI [of _ "i @ i2"] exI [of _ "o' @ o2"]) simp_all
qed

definition kept :: "sys \<Rightarrow> sys \<Rightarrow> bool" where
  "kept s s' \<longleftrightarrow> sys_safe s' \<and> db_clock (s_db s') \<le> db_clock (s_db s) + 1"

definition sys_good :: "sys \<Rightarrow> sys \<Rightarrow> bool" where
  "sys_good s s' \<longleftrightarrow> kept s s' \<and> (is_open (s_db s) \<longrightarrow> flow s s')"

text \<open>A step that changes the buffer and the consumer's position only.\<close>

lemma sys_goodI:
  assumes "sys_safe s" "db_good (s_db s) d" "pc_ok pc d"
  shows "sys_good s (s\<lparr>s_db := d, s_pc := pc\<rparr>)"
  using assms by (auto simp: sys_good_def kept_def flow_def sys_safe_def db_good_def)

lemma sys_goodI':
  assumes "sys_safe s" "db_good (s_db s) d" "db_currentBuffer d = db_currentBuffer (s_db s)"
  shows "sys_good s (s\<lparr>s_db := d\<rparr>)"
proof -
  have "pc_ok (s_pc s) d" using assms(1,3) by (cases "s_pc s") (auto simp: sys_safe_def)
  then show ?thesis using sys_goodI [OF assms(1,2), of "s_pc s"] by simp
qed

lemma fail_good:
  assumes "sys_safe s" "db_good (s_db s) d"
  shows "sys_good s (reader_fail w (s\<lparr>s_db := d\<rparr>))"
proof (cases w)
  case None
  then show ?thesis using sys_goodI [OF assms, of Registering] by (simp add: reader_fail_def)
next
  case (Some x)
  obtain wid ch where x: "x = (wid, ch)" by fastforce
  have ok: "state_ok d" using assms(2) by (simp add: db_good_def)
  have "db_good (s_db s) (unregister_db wid d)"
    using unregister_good [OF ok, of wid] assms(2) by (auto simp: db_good_def)
  then show ?thesis using Some x sys_goodI [OF assms(1), of _ Idle] by (simp add: reader_fail_def)
qed

lemma register_step_good:
  assumes "sys_safe s" "db_clock (s_db s) < counter_limit"
  shows "sys_good s (reader_register wchoice s)"
proof -
  obtain wid ch wm where r: "register wchoice (db_wm (s_db s)) = ((wid, ch), wm)" by (metis prod.exhaust)
  have ok: "state_ok (s_db s)" using assms(1) by (simp add: sys_safe_def)
  have "wm_currentID (db_wm (s_db s)) < counter_limit"
    using assms(2) state_okD(4) [OF ok] by (simp add: db_clock_def)
  then show ?thesis
    using sys_goodI [OF assms(1) register_good [OF ok _ r], of "Waiting wid ch"] r by (simp add: reader_register_def)
qed

lemma make_item_same:
  "make_item choice now p d = Inr (item, d1) \<Longrightarrow> db_wm d1 = db_wm d \<and> db_readMode d1 = db_readMode d"
  by (auto simp: make_item_def small_copy_def Let_def bind_go_def split: if_splits prod.splits sum.splits)

lemma write_good:
  assumes "sys_safe s" "slice_ok p" "do_write choice bchoice now p s = Some r"
  shows "\<exists>s'. r = Inr s' \<and> sys_good s s'"
proof (cases "is_open (s_db s)")
  case True
  let ?d = "s_db s" and ?bs = "slice_bytes (db_mem (s_db s)) p"
  have ok: "state_ok ?d" using assms(1) by (simp add: sys_safe_def)
  obtain item d1 d' where w: "make_item choice now p ?d = Inr (item, d1)"
      "Write choice bchoice now p ?d = Inr (None, d')" "db_inv d'" "content d' = content ?d @ [item]"
      "last (sb_items (db_active d')) = item" "db_currentBuffer d' = db_currentBuffer ?d"
      "db_sequence d' = db_sequence ?d" "db_wm d' = db_wm d1" "db_readMode d' = db_readMode d1"
    using Write_open [OF state_okD(6) [OF ok True] assms(2), of choice now bchoice] by blast
  let ?s = "s\<lparr>s_db := d', s_written := s_written s @ [(item, ?bs)]\<rparr>"
  have d': "state_ok d'" "db_clock d' = db_clock ?d" "is_open d'"
    using w(3,7-9) make_item_same [OF w(1)] state_okD [OF ok]
    by (auto simp: state_ok_def db_inv_def db_clock_def)
  moreover have "pc_ok (s_pc s) d'" using assms(1) w(6) by (cases "s_pc s") (auto simp: sys_safe_def)
  ultimately have "sys_good s ?s"
    using assms(1) w(4) by (auto simp: sys_good_def kept_def sys_safe_def flow_def)
  moreover have "r = Inr ?s" using assms(3) w(2,5) by (simp add: do_write_def split: if_splits)
  ultimately show ?thesis by blast
next
  case False
  then have "db_state (s_db s) = ClosedState" using closed_stop assms(1) state_okD(1) by (auto simp: sys_safe_def)
  then have "r = Inr s" using assms(3) Write_closed by (simp add: do_write_def split: if_splits)
  moreover have "sys_good s s" using assms(1) False by (simp add: sys_good_def kept_def)
  ultimately show ?thesis by blast
qed

text \<open>The read of the consumer in the registered mode.\<close>

lemma mode_same:
  assumes "tryRead_mode choice now d = Inr (r, d')"
  shows "db_wm d' = db_wm d \<and> db_readMode d' = db_readMode d"
  using assms
  by (auto simp: tryRead_mode_def safeRead_def zeroCopyRead_def pop_current_def small_copy_def Let_def bind_go_def
      split: if_splits prod.splits sum.splits option.splits)

lemma finish_db_good:
  assumes "state_ok d"
  shows "db_good d (after_read w d) \<and> db_clock (after_read w d) = db_clock d"
  using unregister_good [OF assms] db_good_refl [OF assms] by (auto simp: after_read_def split: option.splits)

lemma read_good:
  assumes "sys_safe s" "s_pc s = Reading w"
  shows "\<exists>s'. reader_read choice now w s = Inr s' \<and> sys_good s s'"
proof -
  let ?d = "s_db s"
  have ok: "state_ok ?d" and "db_currentBuffer ?d \<noteq> None" using assms(1,2) by (auto simp: sys_safe_def)
  then obtain b where b: "db_currentBuffer ?d = Some b" by blast
  obtain m where m: "db_readMode ?d = Some m" "ReadMode_Validate m" using state_okD(7) [OF ok] by blast
  have safe: "db_safe ?d" by (rule state_okD(1) [OF ok])
  show ?thesis
  proof (cases "sb_count b = 0")
    case True
    have "reader_read choice now w s = Inr (reader_fail w (s\<lparr>s_db := ?d\<rparr>))"
      using tryRead_mode_empty [OF b True m, of choice now] by (simp add: reader_read_def)
    with fail_good [OF assms(1) db_good_refl [OF ok], of w] show ?thesis by blast
  next
    case False
    obtain c d' where r: "tryRead_mode choice now ?d = Inr (Inr c, d')" "chunk_for (hd (sb_items b)) c"
        "side_step (popped_db b ?d) d'"
      using tryRead_mode_ok [OF safe b False m, of choice now] by blast
    note pop = popped_db_keeps [OF safe b False]
    have open': "db_state d' = db_state ?d" "db_sequence d' = db_sequence ?d"
      using r(3) by (simp_all add: side_step_def same_buffers_def popped_db_def)
    have ok': "state_ok d'" "db_clock d' = db_clock ?d" "content ?d = hd (sb_items b) # content d'"
      using side_step_safe [OF r(3) pop(1)] side_step_inv [OF r(3)] pop(2,3) side_step_content [OF r(3)]
        ok mode_same [OF r(1)] open' by (auto simp: state_ok_def db_clock_def)
    let ?f = "after_read w d'"
    have f: "db_good d' ?f" "db_clock ?f = db_clock d'" using finish_db_good [OF ok'(1), of w] by auto
    have s': "reader_read choice now w s = Inr (reader_finish w (hd (sb_items b)) c (s\<lparr>s_db := d'\<rparr>))"
      using r(1) b by (simp add: reader_read_def current_items_def)
    have "free_ok (dc_free c)" using r(2) by (simp add: chunk_for_def free_ok_def)
    then have "sys_good s (reader_finish w (hd (sb_items b)) c (s\<lparr>s_db := d'\<rparr>))"
      using assms(1) f ok' open' unfolding sys_good_def kept_def sys_safe_def flow_def reader_finish_def
      by (auto simp: db_good_def)
    with s' show ?thesis by blast
  qed
qed

lemma pick_step_good:
  assumes "sys_safe s" "s_pc s = Picking n w"
  shows "\<exists>s'. reader_pick n w s = Inr s' \<and> sys_good s s'"
proof -
  let ?d = "s_db s"
  have ok: "state_ok ?d" and none: "db_currentBuffer ?d = None" using assms(1,2) by (auto simp: sys_safe_def)
  have fail: "sys_good s (reader_fail w (s\<lparr>s_db := ?d\<rparr>))"
    by (rule fail_good [OF assms(1) db_good_refl [OF ok]])
  show ?thesis
  proof (cases "n < maxRetires")
    case False
    then show ?thesis using fail none by (simp add: reader_pick_def)
  next
    case n: True
    show ?thesis
    proof (cases rule: pick_good [OF ok none])
      case 1
      then show ?thesis using fail n by (simp add: reader_pick_def)
    next
      case (2 d')
      then have "sys_good s (s\<lparr>s_db := d', s_pc := Reading w\<rparr>)" by (intro sys_goodI [OF assms(1)]) simp_all
      with 2 n show ?thesis by (simp add: reader_pick_def)
    next
      case (3 d')
      then have "sys_good s (s\<lparr>s_db := d', s_pc := Picking (Suc n) w\<rparr>)" by (intro sys_goodI [OF assms(1)]) simp_all
      with 3 n show ?thesis by (simp add: reader_pick_def)
    qed
  qed
qed

lemma chan_recv_side:
  assumes "state_ok d" "chan_recv ch (db_wm d) = Some wm"
  shows "db_good d (d\<lparr>db_wm := wm\<rparr>) \<and> db_clock (d\<lparr>db_wm := wm\<rparr>) = db_clock d"
proof -
  have inv: "wm_inv (db_wm d)" "\<not> wm_closed (db_wm d)" using state_okD [OF assms(1)] by auto
  have "wm = db_wm d \<or> wm = (db_wm d)\<lparr>wm_token := (wm_token (db_wm d))(ch := False)\<rparr>"
    using assms(2) by (auto simp: chan_recv_def split: if_splits)
  then have wm: "wm_inv wm \<and> \<not> wm_closed wm \<and> wm_currentID wm = wm_currentID (db_wm d)"
    using inv wm_inv_token_cleared [OF inv(1), of ch] by auto
  then show ?thesis
    using side_good [OF assms(1) wm_side [OF state_okD(1) [OF assms(1)]], of wm] by (simp add: db_clock_def)
qed

lemma enter_step_good:
  assumes "sys_safe s" "db_good (s_db s) d" "db_clock d = db_clock (s_db s)"
  shows "sys_good s (reader_enter w (s\<lparr>s_db := d\<rparr>))"
proof -
  obtain pick d' where e: "tryRead_enter d = (pick, d')" by fastforce
  have ok: "state_ok d" using assms(2) by (simp add: db_good_def)
  note g = enter_good [OF ok e, of w]
  then have "db_good (s_db s) d'" using assms(2,3) by (auto simp: db_good_def)
  then show ?thesis using sys_goodI [OF assms(1)] g e by (simp add: reader_enter_def)
qed

lemma wait_step_good:
  assumes "sys_safe s"
  shows "sys_good s (s\<lparr>s_db := unregister_db wid (s_db s), s_pc := Idle\<rparr>)"
  using unregister_good [of "s_db s" wid] assms by (intro sys_goodI) (auto simp: sys_safe_def)

lemma release_step_good:
  assumes "sys_safe s" "k < length (s_chunks s)"
  shows "sys_good s (do_release k s)"
proof -
  obtain c d where r: "DataChunk_Release (s_chunks s ! k) (s_db s) = (c, d)" by fastforce
  have ok: "state_ok (s_db s)" "free_ok (dc_free (s_chunks s ! k))" using assms by (auto simp: sys_safe_def)
  note g = release_good [OF ok r]
  have pc: "pc_ok (s_pc s) d" using g assms(1) by (cases "s_pc s") (auto simp: sys_safe_def)
  have "free_ok (dc_free x)" if "x \<in> set ((s_chunks s)[k := c])" for x
    using that g assms(1) set_update_subset_insert [of "s_chunks s" k c] by (auto simp: sys_safe_def)
  then show ?thesis
    using r g pc assms(1) by (auto simp: do_release_def sys_good_def kept_def sys_safe_def db_good_def flow_def)
qed

lemma user_store_good:
  assumes "sys_safe s"
  shows "sys_good s (user_store n bs s)"
proof -
  let ?d = "s_db s"
  have "side_step ?d (?d\<lparr>db_mem := m\<rparr>)" for m
    using side_step_pm(3) assms state_okD(1) by (auto simp: sys_safe_def)
  then have "db_good ?d (?d\<lparr>db_mem := m\<rparr>)" for m
    using assms by (intro side_good) (auto simp: sys_safe_def)
  then show ?thesis unfolding user_store_def by (intro sys_goodI' [OF assms]) simp_all
qed

lemma close_step_kept:
  assumes "sys_safe s"
  shows "\<exists>d. Close (s_db s) = Inr d \<and> kept s (s\<lparr>s_db := d\<rparr>)"
proof (cases "is_open (s_db s)")
  case False
  then show ?thesis using Close_again assms by (auto simp: kept_def)
next
  case True
  let ?d = "s_db s"
  have ok: "state_ok ?d" using assms by (simp add: sys_safe_def)
  obtain pool where c:
      "Close ?d = Inr (?d\<lparr>db_state := ClosedState, db_stop := True, db_pendingHeap := [], db_pool := pool\<rparr>)"
      "db_safe (?d\<lparr>db_state := ClosedState, db_stop := True, db_pendingHeap := [], db_pool := pool\<rparr>)"
    using Close_open [OF state_okD(1) [OF ok] True] by blast
  let ?d' = "?d\<lparr>db_state := ClosedState, db_stop := True, db_pendingHeap := [], db_pool := pool\<rparr>"
  have "state_ok ?d'" using c(2) ok by (simp add: state_ok_def)
  moreover have "pc_ok (s_pc s) ?d'" using assms by (cases "s_pc s") (auto simp: sys_safe_def)
  ultimately have "kept s (s\<lparr>s_db := ?d'\<rparr>)" using assms by (simp add: kept_def sys_safe_def db_clock_def)
  with c(1) show ?thesis by blast
qed

section \<open>Executions\<close>

text \<open>
  The callers' obligation: slices that are not empty and shorter than \<open>2\<^sup>3\<^sup>1\<close>. \<open>in_order\<close> adds that
  the goroutines of the switches get their numbers in the order they were started, and that the
  buffer is not closed.
\<close>

fun valid_label :: "label \<Rightarrow> bool" where
  "valid_label (LWrite choice bchoice now p) = slice_ok p"
| "valid_label _ = True"

fun in_order :: "label \<Rightarrow> bool" where
  "in_order (LNumber k) = (k = 0)"
| "in_order LClose = False"
| "in_order _ = True"

lemma fire_good:
  assumes "sys_safe s" "valid_label l" "db_clock (s_db s) < counter_limit" "fire l s = Some r"
    "l \<noteq> LClose" "\<forall>k. l \<noteq> LNumber k"
  shows "\<exists>s'. r = Inr s' \<and> sys_good s s'"
proof -
  have ok: "state_ok (s_db s)" using assms(1) by (simp add: sys_safe_def)
  note same = sys_goodI' [OF assms(1)]
  show ?thesis
  proof (cases l)
    case (LWrite choice bchoice now p)
    then show ?thesis using write_good [OF assms(1), of p choice bchoice now r] assms(2,4) by simp
  next
    case (LTick choice now)
    then show ?thesis using tick_good [OF ok, of choice now] assms(4) same by auto
  next
    case (LRecycle now)
    have "db_good (s_db s) (asyncRecycleWorker_tick now (s_db s))"
      using asyncRecycleWorker_side state_okD(1) [OF ok]
      by (intro side_good [OF ok]) (auto simp: asyncRecycleWorker_tick_def)
    then show ?thesis using LRecycle assms(4) same by (auto simp: asyncRecycleWorker_tick_def)
  next
    case (LPush k)
    then have k: "k < length (db_numbered (s_db s))" "r = Inr (s\<lparr>s_db := push_pending k (s_db s)\<rparr>)"
      using assms(4) by (auto split: if_splits)
    have "db_currentBuffer (push_pending k (s_db s)) = db_currentBuffer (s_db s)"
      by (simp add: push_pending_def Let_def split: prod.splits)
    with k same [OF push_good [OF ok k(1)]] show ?thesis by blast
  next
    case (LNotify k)
    then show ?thesis using notify_good [OF ok, of k] assms(4) same by (auto split: if_splits)
  next
    case (LUser n bs)
    then show ?thesis using user_store_good [OF assms(1)] assms(4) by auto
  next
    case (LReadMode m)
    have "db_currentBuffer (snd (RegisterReadMode m (s_db s))) = db_currentBuffer (s_db s)"
      by (simp add: RegisterReadMode_def)
    with same [OF RegisterReadMode_good [OF ok, of m]] LReadMode assms(4) show ?thesis by auto
  next
    case LBegin
    then show ?thesis
      using enter_step_good [OF assms(1) db_good_refl [OF ok] refl, of None] assms(4) by (auto split: if_splits)
  next
    case LPick
    then show ?thesis using pick_step_good [OF assms(1)] assms(4) by (auto split: reader_pc.splits)
  next
    case (LRead choice now)
    then show ?thesis using read_good [OF assms(1)] assms(4) by (auto split: reader_pc.splits)
  next
    case (LRegister wchoice)
    then show ?thesis using register_step_good [OF assms(1,3)] assms(4) by (auto split: if_splits)
  next
    case LWake
    then obtain wid ch wm where w: "chan_recv ch (db_wm (s_db s)) = Some wm"
        "r = Inr (reader_enter (Some (wid, ch)) (s\<lparr>s_db := (s_db s)\<lparr>db_wm := wm\<rparr>\<rparr>))"
      using assms(4) by (auto split: reader_pc.splits option.splits)
    then show ?thesis using enter_step_good [OF assms(1)] chan_recv_side [OF ok w(1)] by blast
  next
    case LCancel
    then show ?thesis using wait_step_good [OF assms(1)] assms(4) by (auto split: reader_pc.splits)
  next
    case LStop
    then show ?thesis using wait_step_good [OF assms(1)] assms(4) by (auto split: reader_pc.splits if_splits)
  next
    case (LRelease k)
    then show ?thesis using release_step_good [OF assms(1)] assms(4) by (auto split: if_splits)
  qed (use assms(5,6) in auto)
qed

lemma fire_kept:
  assumes "sys_safe s" "valid_label l" "db_clock (s_db s) < counter_limit" "fire l s = Some r"
  shows "\<exists>s'. r = Inr s' \<and> kept s s'"
proof (cases l)
  case (LNumber k)
  then have k: "k < length (db_spawned (s_db s))" "r = Inr (s\<lparr>s_db := take_number k (s_db s)\<rparr>)"
    using assms(4) by (auto split: if_splits)
  have ok: "state_ok (s_db s)" using assms(1) by (simp add: sys_safe_def)
  have "db_sequence (s_db s) < counter_limit" using assms(3) state_okD(5) [OF ok] by (simp add: db_clock_def)
  note g = number_good [OF ok k(1) this]
  have "db_currentBuffer (take_number k (s_db s)) = db_currentBuffer (s_db s)"
    by (simp add: take_number_def Let_def)
  then have "pc_ok (s_pc s) (take_number k (s_db s))" using assms(1) by (cases "s_pc s") (auto simp: sys_safe_def)
  with g k(2) assms(1) show ?thesis by (auto simp: kept_def sys_safe_def)
next
  case LClose
  then show ?thesis using close_step_kept [OF assms(1)] assms(4) by auto
qed (use fire_good [OF assms] in \<open>auto simp: sys_good_def\<close>)

lemma fire_flow:
  assumes "sys_safe s" "valid_label l" "db_clock (s_db s) < counter_limit" "fire l s = Some (Inr s')"
    "is_open (s_db s)" "l \<noteq> LClose"
  shows "flow_mset s s' \<and> (in_order l \<longrightarrow> flow s s')"
proof (cases "\<exists>k. l = LNumber k")
  case True
  then obtain k where k: "l = LNumber k" "k < length (db_spawned (s_db s))"
      "s' = s\<lparr>s_db := take_number k (s_db s)\<rparr>"
    using assms(4) by (auto split: if_splits)
  have ok: "state_ok (s_db s)" using assms(1) by (simp add: sys_safe_def)
  have "db_sequence (s_db s) < counter_limit" using assms(3) state_okD(5) [OF ok] by (simp add: db_clock_def)
  with number_good [OF ok k(2)] assms(5) k show ?thesis by (auto simp: flow_mset_def flow_def)
next
  case False
  then have "flow s s'" using fire_good [OF assms(1-4)] assms(5,6) by (auto simp: sys_good_def)
  then show ?thesis using flow_imp_mset by blast
qed

interpretation buffer_system: guarded_system fire valid_label sys_safe "\<lambda>s. db_clock (s_db s)" counter_limit
proof unfold_locales
  fix s l s' p
  assume a: "sys_safe s" "valid_label l" "db_clock (s_db s) < counter_limit"
  show "fire l s \<noteq> Some (Inl p)" using fire_kept [OF a] by blast
  assume f: "fire l s = Some (Inr s')"
  show "sys_safe s'" "db_clock (s_db s') \<le> db_clock (s_db s) + 1" using fire_kept [OF a f] by (auto simp: kept_def)
qed

text \<open>What went in and what came out of an execution in which the buffer stays open.\<close>

lemma exec_flow:
  assumes "exec fire ls s s'" "sys_safe s" "is_open (s_db s)"
    "\<forall>l \<in> set ls. valid_label l \<and> l \<noteq> LClose" "db_clock (s_db s) + int (length ls) \<le> counter_limit"
  shows "flow_mset s s' \<and> ((\<forall>l \<in> set ls. in_order l) \<longrightarrow> flow s s')"
  using assms
proof (induction rule: exec.induct)
  case (exec_done s)
  then show ?case by (simp add: flow_mset_def flow_def)
next
  case (exec_step ls s s1 l s2)
  have pre: "flow_mset s s1 \<and> ((\<forall>l \<in> set ls. in_order l) \<longrightarrow> flow s s1)" using exec_step by auto
  have "sys_safe s1" "db_clock (s_db s1) < counter_limit"
    using buffer_system.exec_inv [OF exec_step.hyps(1) exec_step.prems(1)] exec_step.prems(3,4) by auto
  then have post: "flow_mset s1 s2 \<and> (in_order l \<longrightarrow> flow s1 s2)"
    using fire_flow [of s1 l s2] exec_step.hyps(2) exec_step.prems(3) pre by (auto simp: flow_mset_def)
  show ?case using pre post flow_trans [of s s1 s2] flow_mset_trans [of s s1 s2] by auto
qed

section \<open>Example runs\<close>

text \<open>What a client does before the first step: construct a buffer and register a read mode.\<close>

definition open_buffer ::
    "int \<Rightarrow> switch_condition \<Rightarrow> int list \<Rightarrow> int \<Rightarrow> memory \<Rightarrow> int \<Rightarrow> double_buffer option" where
  "open_buffer sz sc cs now mem m =
     (case NewDoubleBuffer sz sc (map WithMetrics cs) now mem of
        Inr (Inr d) \<Rightarrow> (case RegisterReadMode m d of (ok, d') \<Rightarrow> if ok then Some d' else None)
      | _ \<Rightarrow> None)"

definition demo_slice :: "nat \<Rightarrow> slice" where
  "demo_slice n = \<lparr>sl_ptr = UserMem n, sl_len = 2, sl_cap = 2\<rparr>"

definition demo_write :: "nat \<Rightarrow> label" where
  "demo_write n = LWrite None None 0 (demo_slice n)"

definition demo_start :: "sys option" where
  "demo_start = map_option start (open_buffer 1 sample_condition [] 0 sample_memory SafeRead)"

definition demo_run :: "label list \<Rightarrow> sys option" where
  "demo_run ls =
     (case demo_start of
        None \<Rightarrow> None
      | Some s \<Rightarrow> (case run_labels fire ls s of Some (Inr s') \<Rightarrow> Some s' | _ \<Rightarrow> None))"

lemma demo_run_exec:
  "demo_run ls = Some s \<Longrightarrow>
   \<exists>d. open_buffer 1 sample_condition [] 0 sample_memory SafeRead = Some d \<and> exec fire ls (start d) s"
  by (auto simp: demo_run_def demo_start_def intro: run_labels_exec split: option.splits sum.splits)

lemma open_buffer_ok:
  assumes "open_buffer sz sc cs now mem m = Some d" "1 \<le> sz" "sz < 2 ^ 31"
  shows "sys_safe (start d) \<and> db_clock (s_db (start d)) = 0 \<and> is_open d \<and> content d = [] \<and> db_mem d = mem \<and>
    db_readMode d = Some m \<and> db_pm d = NewLifeCycleManager"
proof -
  obtain d0 where d0: "NewDoubleBuffer sz sc (map WithMetrics cs) now mem = Inr (Inr d0)"
      "RegisterReadMode m d0 = (True, d)"
    using assms(1) by (auto simp: open_buffer_def split: sum.splits prod.splits if_splits)
  have d: "d = d0\<lparr>db_readMode := Some m\<rparr>" "ReadMode_Validate m"
    using d0(2) by (auto simp: RegisterReadMode_def split: if_splits)
  note new = NewDoubleBuffer_inv [OF assms(2,3) d0(1)]
  have safe: "db_safe d0" using new by (simp add: db_inv_def)
  have side: "side_step d0 d"
    using safe by (simp add: d(1) side_step_def same_buffers_def db_safe_def small_ok_def)
  have "db_inv d" "content d = []" using side_step_inv [OF side] side_step_content [OF side] new by auto
  moreover have "db_wm d = newWaiterManager" "db_sequence d = 0" "is_open d" using new by (simp_all add: d(1))
  moreover have "db_mem d = mem" "db_readMode d = Some m" "db_pm d = NewLifeCycleManager"
    using new by (simp_all add: d(1))
  ultimately show ?thesis
    using d(2) by (simp add: start_def sys_safe_def state_ok_def db_inv_def db_clock_def newWaiterManager_def)
qed

section \<open>Properties\<close>







text \<open>
  The order of the sequence numbers is the order in which the switch goroutines run, not the
  order of the switches: with capacity one and three writes, the goroutine of the second switch may
  take number one, and the first message the consumer receives is then the second one written.
\<close>

theorem goroutine_order_breaks_fifo:
  "map_option (\<lambda>s. (map snd (s_written s), map snd (s_delivered s)))
     (demo_run [demo_write 1, demo_write 2, demo_write 3, LNumber 1, LPush 0, LBegin, LPick, LRead None 0]) =
   Some ([[1, 7], [2, 7], [3, 7]], [[2, 7]])"
  by code_simp

text \<open>
  A wake-up can be lost. When the switch goroutine pushes its buffer and notifies between the
  consumer's failed attempt and its registration, the consumer blocks with the next buffer in the
  heap, no token in its channel and no goroutine left that would notify it.
\<close>

theorem lost_wakeup:
  "map_option (\<lambda>s. (s_pc s, fire LWake s = None, map mhi_sequence (db_pendingHeap (s_db s)),
                    db_currentSequence (s_db s), db_notifying (s_db s), length (db_spawned (s_db s)),
                    length (db_numbered (s_db s))))
     (demo_run [demo_write 1, demo_write 2, LBegin, LPick, LNumber 0, LPush 0, LNotify 0, LRegister None]) =
   Some (Waiting 1 0, True, [1], 1, [], 0, 0)"
  by code_simp

end
