(* ===== verification/Buffer_Bytes.thy ===== *)
theory Buffer_Bytes
  imports Buffer_System
begin

text \<open>
  From items to bytes: small data read in the safe mode. The copy that \<open>Write\<close> makes, the slices in the
  pool of small buffers and the slices the consumer holds never share memory, so neither the caller
  changing its slice after \<open>Write\<close> nor later writes and reads change what is delivered. Executions are
  those of \<open>Buffer_System\<close> restricted to data below 1024 bytes and the safe mode.
\<close>

section \<open>Memory in use\<close>

definition in_use :: "memory \<Rightarrow> addr \<Rightarrow> bool" where
  "in_use m p \<longleftrightarrow> (\<exists>n. p = LibMem n \<and> n < mem_next m)"

definition sole :: "'a multiset \<Rightarrow> bool" where
  "sole M \<longleftrightarrow> (\<forall>x. count M x \<le> 1)"

lemma sole_add: "sole (add_mset x M) \<longleftrightarrow> x \<notin># M \<and> sole M"
proof
  assume s: "sole (add_mset x M)"
  then have "count (add_mset x M) x \<le> 1" unfolding sole_def by blast
  then have "x \<notin># M" by (simp add: count_eq_zero_iff [symmetric])
  moreover have "count M y \<le> 1" for y
    using s [unfolded sole_def, rule_format, of y] by (simp split: if_splits)
  ultimately show "x \<notin># M \<and> sole M" by (simp add: sole_def)
next
  assume "x \<notin># M \<and> sole M"
  then show "sole (add_mset x M)" by (simp add: sole_def not_in_iff)
qed

lemma sole_subset: "sole M \<Longrightarrow> N \<subseteq># M \<Longrightarrow> sole N"
  by (meson le_trans mset_subset_eq_count sole_def)

definition item_bytes :: "memory \<Rightarrow> buffer_item \<Rightarrow> byte list" where
  "item_bytes m x = mem_read m (bi_Ptr x) (nat (bi_Size x))"

definition unreleased :: "data_chunk list \<Rightarrow> data_chunk multiset" where
  "unreleased cs = filter_mset (\<lambda>c. dc_free c \<noteq> None) (mset cs)"

definition chunk_ptr :: "data_chunk \<Rightarrow> addr" where
  "chunk_ptr c = sl_ptr (dc_data c)"

definition live :: "sys \<Rightarrow> addr multiset" where
  "live s = mset (map bi_Ptr (content (s_db s))) + mset (map sl_ptr (lc_SmallPool (db_pm (s_db s)))) +
     image_mset chunk_ptr (unreleased (s_chunks s))"

definition byte_inv :: "sys \<Rightarrow> bool" where
  "byte_inv s \<longleftrightarrow>
     sys_safe s \<and> is_open (s_db s) \<and> db_readMode (s_db s) = Some SafeRead \<and>
     sole (live s) \<and> (\<forall>p \<in># live s. in_use (db_mem (s_db s)) p) \<and>
     (\<forall>x \<in> set (content (s_db s)). bi_Size x < SmallDataThreshold \<and>
        nat (bi_Size x) \<le> length (mem_blocks (db_mem (s_db s)) (bi_Ptr x))) \<and>
     (\<forall>c \<in> set (s_chunks s). dc_free c = None \<or> dc_free c = Some (FreeSmall (dc_data c))) \<and>
     map snd (s_written s) = map snd (s_delivered s) @ map (item_bytes (db_mem (s_db s))) (content (s_db s))"

fun small_label :: "label \<Rightarrow> bool" where
  "small_label (LWrite choice bchoice now p) = (slice_ok p \<and> sl_len p < SmallDataThreshold)"
| "small_label (LReadMode m) = (m = SafeRead)"
| "small_label (LNumber k) = (k = 0)"
| "small_label LClose = False"
| "small_label _ = True"

lemma small_valid: "small_label l \<Longrightarrow> valid_label l \<and> in_order l \<and> l \<noteq> LClose"
  by (cases l) auto

lemma in_use_alloc: "in_use m p \<Longrightarrow> \<not> unallocated m p"
  by (auto simp: in_use_def)

lemma unallocated_in_use: "unallocated m p \<Longrightarrow> \<not> unallocated m' p \<Longrightarrow> in_use m' p"
  by (cases p) (auto simp: in_use_def)

lemma in_use_extends: "in_use m p \<Longrightarrow> mem_extends m m' \<Longrightarrow> in_use m' p \<and> mem_blocks m' p = mem_blocks m p"
  by (auto simp: in_use_def mem_extends_def)

text \<open>A slot taken for a copy shares memory with nothing else in use.\<close>

lemma slot_sole:
  assumes "sole (A + mset (map sl_ptr pool) + C)" "\<forall>p \<in># A + mset (map sl_ptr pool) + C. in_use m p"
    "slot_from pool m buf pool' m'"
  shows "sole (add_mset (sl_ptr buf) (A + mset (map sl_ptr pool') + C)) \<and>
    (\<forall>p \<in># add_mset (sl_ptr buf) (A + mset (map sl_ptr pool') + C). in_use m' p) \<and>
    (\<forall>p \<in># A + mset (map sl_ptr pool') + C. p \<noteq> sl_ptr buf \<and> mem_blocks m' p = mem_blocks m p)"
proof -
  have ext: "mem_extends m m'" using assms(3) by (simp add: slot_from_def)
  have sub: "mset (map sl_ptr pool') \<subseteq># mset (map sl_ptr pool)"
    using assms(3) mset_remove_nth [of _ pool] by (auto simp: slot_from_def)
  then have sub': "A + mset (map sl_ptr pool') + C \<subseteq># A + mset (map sl_ptr pool) + C"
    by (simp add: subset_mset.add_mono)
  have s: "sole (add_mset (sl_ptr buf) (A + mset (map sl_ptr pool') + C)) \<and> in_use m' (sl_ptr buf)"
  proof (cases "unallocated m (sl_ptr buf)")
    case True
    have "sl_ptr buf \<notin># A + mset (map sl_ptr pool') + C"
      using True assms(2) mset_subset_eqD [OF sub'] in_use_alloc by blast
    moreover have "\<not> unallocated m' (sl_ptr buf)"
    proof
      assume un: "unallocated m' (sl_ptr buf)"
      then obtain k where k: "k < length pool" "sl_ptr buf = sl_ptr (pool ! k)"
        using assms(3) by (auto simp: slot_from_def)
      then have "sl_ptr buf \<in># mset (map sl_ptr pool)" by simp
      then show False using assms(2) True in_use_alloc by auto
    qed
    ultimately show ?thesis
      using sole_subset [OF assms(1) sub'] unallocated_in_use [OF True] by (simp add: sole_add)
  next
    case False
    then obtain k where k: "k < length pool" "pool' = remove_nth k pool" "sl_ptr buf = sl_ptr (pool ! k)" "m' = m"
      using assms(3) by (auto simp: slot_from_def)
    have "mset (map sl_ptr pool) = add_mset (sl_ptr buf) (mset (map sl_ptr pool'))"
      using mset_remove_nth [OF k(1)] k(2,3) by simp
    then show ?thesis using assms(1,2) k(4) by simp
  qed
  have "in_use m p" if "p \<in># A + mset (map sl_ptr pool') + C" for p
    using assms(2) mset_subset_eqD [OF sub' that] by blast
  then have "\<forall>p \<in># A + mset (map sl_ptr pool') + C. in_use m' p \<and> mem_blocks m' p = mem_blocks m p"
    using in_use_extends ext by blast
  with s show ?thesis by (auto simp: sole_add)
qed

section \<open>Steps that touch none of it\<close>

definition same_small :: "double_buffer \<Rightarrow> double_buffer \<Rightarrow> bool" where
  "same_small d d' \<longleftrightarrow>
     lc_SmallPool (db_pm d') = lc_SmallPool (db_pm d) \<and> mem_next (db_mem d') = mem_next (db_mem d) \<and>
     (\<forall>n. mem_blocks (db_mem d') (LibMem n) = mem_blocks (db_mem d) (LibMem n)) \<and>
     (db_readMode d' = db_readMode d \<or> db_readMode d' = Some SafeRead)"

definition quiet :: "sys \<Rightarrow> sys \<Rightarrow> bool" where
  "quiet s s' \<longleftrightarrow> same_small (s_db s) (s_db s') \<and> s_chunks s' = s_chunks s \<and>
     s_written s' = s_written s \<and> s_delivered s' = s_delivered s"

lemma same_small_refl: "same_small d d"
  by (simp add: same_small_def)

lemma same_smallI:
  "db_pm d' = db_pm d \<Longrightarrow> db_mem d' = db_mem d \<Longrightarrow> db_readMode d' = db_readMode d \<Longrightarrow> same_small d d'"
  by (simp add: same_small_def)

lemma quiet_inv:
  assumes "byte_inv s" "sys_safe s'" "flow s s'" "quiet s s'"
  shows "byte_inv s'"
proof -
  have c: "content (s_db s') = content (s_db s)" and o: "is_open (s_db s')"
    using assms(3,4) by (auto simp: flow_def quiet_def)
  have l: "live s' = live s" using assms(4) c by (simp add: live_def quiet_def same_small_def)
  have use: "in_use (db_mem (s_db s')) p = in_use (db_mem (s_db s)) p" for p
    using assms(4) by (simp add: in_use_def quiet_def same_small_def)
  have blk: "mem_blocks (db_mem (s_db s')) (bi_Ptr x) = mem_blocks (db_mem (s_db s)) (bi_Ptr x)"
    if "x \<in> set (content (s_db s))" for x
  proof -
    have "bi_Ptr x \<in># live s" using that by (simp add: live_def)
    then obtain n where "bi_Ptr x = LibMem n" using assms(1) by (auto simp: byte_inv_def in_use_def)
    then show ?thesis using assms(4) by (simp add: quiet_def same_small_def)
  qed
  then have "map (item_bytes (db_mem (s_db s'))) (content (s_db s)) = map (item_bytes (db_mem (s_db s))) (content (s_db s))"
    by (simp add: item_bytes_def mem_read_def)
  then show ?thesis
    using assms o c l use blk by (auto simp: byte_inv_def quiet_def same_small_def)
qed

lemma notify_same: "run_notify k d = Inr d' \<Longrightarrow> same_small d d'"
  by (auto simp: run_notify_def bind_go_def same_small_def split: if_splits sum.splits)

lemma pick_same: "pick_once d = Inr (r, d') \<Longrightarrow> same_small d d'"
  by (auto simp: pick_once_def bind_go_def same_small_def split: if_splits sum.splits option.splits prod.splits)

lemma enter_same: "tryRead_enter d = (r, d') \<Longrightarrow> same_small d d'"
  by (cases rule: tryRead_enter_cases [of d]) (auto simp: same_small_def)

lemma reader_enter_quiet: "same_small (s_db s) d \<Longrightarrow> quiet s (reader_enter w (s\<lparr>s_db := d\<rparr>))"
  using enter_same [of d] by (auto simp: reader_enter_def quiet_def same_small_def split: prod.splits)

lemma reader_fail_quiet: "same_small (s_db s) d \<Longrightarrow> quiet s (reader_fail w (s\<lparr>s_db := d\<rparr>))"
  by (auto simp: reader_fail_def quiet_def same_small_def unregister_db_def split: option.splits)

lemma reader_pick_quiet:
  assumes "reader_pick n w s = Inr s'"
  shows "quiet s s'"
proof (cases "n < maxRetires")
  case False
  then show ?thesis
    using assms reader_fail_quiet [OF same_small_refl, of s w] by (auto simp: reader_pick_def quiet_def same_small_def)
next
  case True
  then obtain r d where p: "pick_once (s_db s) = Inr (r, d)"
    using assms by (cases "pick_once (s_db s)") (auto simp: reader_pick_def)
  then show ?thesis
    using assms True pick_same [OF p] reader_fail_quiet [OF pick_same [OF p], of w]
    by (auto simp: reader_pick_def quiet_def split: option.splits bool.splits)
qed

lemma fire_quiet:
  assumes "state_ok (s_db s)" "is_open (s_db s)" "small_label l" "fire l s = Some (Inr s')"
    "\<forall>choice bchoice now p. l \<noteq> LWrite choice bchoice now p" "\<forall>choice now. l \<noteq> LRead choice now"
    "\<forall>k. l \<noteq> LRelease k"
  shows "quiet s s'"
proof (cases l)
  case (LTick choice now)
  obtain d' where "swapMonitor_tick choice now (s_db s) = Inr d'" "same_small (s_db s) d'"
    using swapMonitor_tick_open [OF state_okD(6) [OF assms(1,2)], of choice now] by (metis same_smallI)
  then show ?thesis using LTick assms(4) by (auto simp: quiet_def)
next
  case (LRecycle now)
  then show ?thesis
    using assms(4) by (auto simp: quiet_def same_small_def asyncRecycleWorker_tick_def LifeCycle_Cleanup_def)
next
  case (LNumber k)
  then show ?thesis
    using assms(4) by (auto simp: quiet_def same_small_def take_number_def Let_def split: if_splits)
next
  case (LPush k)
  then show ?thesis
    using assms(4) by (auto simp: quiet_def same_small_def push_pending_def Let_def split: if_splits prod.splits)
next
  case (LNotify k)
  then show ?thesis
    using assms(4) notify_same [of k "s_db s"]
    by (cases "run_notify k (s_db s)") (auto simp: quiet_def split: if_splits)
next
  case (LUser n bs)
  then show ?thesis using assms(4) by (auto simp: quiet_def same_small_def user_store_def)
next
  case (LReadMode m)
  then show ?thesis using assms(3,4) by (auto simp: quiet_def same_small_def RegisterReadMode_def)
next
  case LBegin
  then show ?thesis using assms(4) reader_enter_quiet [OF same_small_refl, of s None] by (auto split: if_splits)
next
  case LPick
  then show ?thesis using assms(4) reader_pick_quiet by (auto split: reader_pc.splits)
next
  case (LRegister wchoice)
  then show ?thesis
    using assms(4) by (auto simp: reader_register_def quiet_def same_small_def split: if_splits prod.splits)
next
  case LWake
  then show ?thesis
    using assms(4) reader_enter_quiet [of s] by (auto simp: same_small_def split: reader_pc.splits option.splits)
next
  case LCancel
  then show ?thesis
    using assms(4) by (auto simp: quiet_def same_small_def unregister_db_def split: reader_pc.splits)
next
  case LStop
  then show ?thesis
    using assms(4) by (auto simp: quiet_def same_small_def unregister_db_def split: reader_pc.splits if_splits)
qed (use assms in auto)

section \<open>Writing, reading and releasing small data\<close>

lemma item_bytes_cong:
  "mem_blocks m' (bi_Ptr x) = mem_blocks m (bi_Ptr x) \<Longrightarrow> item_bytes m' x = item_bytes m x"
  by (simp add: item_bytes_def mem_read_def)

lemma blocks_mem_write: "q \<noteq> p \<Longrightarrow> mem_blocks (mem_write m p bs) q = mem_blocks m q"
  by (simp add: mem_write_def)

lemma in_use_write [simp]: "in_use (mem_write m p bs) q = in_use m q"
  by (simp add: in_use_def)

lemma user_bytes_extends:
  assumes "user_slice m p" "mem_extends m m'" "0 < sl_len p"
  shows "mem_read m' (sl_ptr p) (nat (sl_len p)) = slice_bytes m p \<and> length (slice_bytes m p) = nat (sl_len p)"
proof -
  obtain n where n: "sl_ptr p = UserMem n" "sl_len p \<le> int (length (mem_blocks m (UserMem n)))"
    using assms(1) by (auto split: addr.splits)
  then have "\<not> unallocated m (sl_ptr p)" by simp
  then show ?thesis
    using n assms(2,3) by (auto simp: slice_bytes_def mem_read_def mem_extends_def)
qed

lemma make_item_small:
  assumes "db_safe d" "slice_ok p" "sl_len p < SmallDataThreshold"
  shows "\<exists>buf pool' m0.
    make_item choice now p d =
      Inr (\<lparr>bi_Ptr = sl_ptr buf, bi_Size = sl_len p\<rparr>,
        d\<lparr>db_pm := (db_pm d)\<lparr>lc_SmallPool := pool'\<rparr>,
          db_mem := mem_write m0 (sl_ptr buf) (mem_read m0 (sl_ptr p) (nat (sl_len p)))\<rparr>) \<and>
    slot_from (lc_SmallPool (db_pm d)) (db_mem d) buf pool' m0"
proof -
  have sm: "small_ok d" using assms(1) by (simp add: db_safe_def)
  have len: "wrap32 (sl_len p) = sl_len p" "0 < sl_len p" "sl_len p < 2 ^ 31"
    using assms(2) by (simp_all add: slice_ok_def)
  obtain buf pool' m0 where c: "small_copy choice (sl_ptr p) (sl_len p) (sl_len p) d =
      Inr (buf, d\<lparr>db_pm := (db_pm d)\<lparr>lc_SmallPool := pool'\<rparr>,
        db_mem := mem_write m0 (sl_ptr buf) (mem_read m0 (sl_ptr p) (nat (min (sl_len p) (sl_len p))))\<rparr>)"
      "sl_len buf = sl_len p" "slot_from (lc_SmallPool (db_pm d)) (db_mem d) buf pool' m0"
    using small_copy_ok [OF sm len(2,3), of choice "sl_ptr p" "sl_len p"] by blast
  then show ?thesis
    using len assms(3) by (intro exI [of _ buf] exI [of _ pool'] exI [of _ m0]) (simp add: make_item_def Let_def)
qed

lemma write_bytes:
  assumes inv: "byte_inv s" and p: "slice_ok p" "sl_len p < SmallDataThreshold"
    and step: "do_write choice bchoice now p s = Some (Inr s')" "sys_safe s'"
  shows "byte_inv s'"
proof -
  let ?d = "s_db s" and ?bs = "slice_bytes (db_mem (s_db s)) p"
  let ?A = "mset (map bi_Ptr (content ?d))" and ?C = "image_mset chunk_ptr (unreleased (s_chunks s))"
  have ok: "state_ok ?d" "is_open ?d" using inv by (auto simp: byte_inv_def sys_safe_def)
  have us: "user_slice (db_mem ?d) p" using step(1) by (auto simp: do_write_def split: if_splits)
  obtain buf pool' m0 where mk: "make_item choice now p ?d =
      Inr (\<lparr>bi_Ptr = sl_ptr buf, bi_Size = sl_len p\<rparr>, ?d\<lparr>db_pm := (db_pm ?d)\<lparr>lc_SmallPool := pool'\<rparr>,
          db_mem := mem_write m0 (sl_ptr buf) (mem_read m0 (sl_ptr p) (nat (sl_len p)))\<rparr>)"
      "slot_from (lc_SmallPool (db_pm ?d)) (db_mem ?d) buf pool' m0"
    using make_item_small [OF state_okD(1) [OF ok(1)] p] by blast
  let ?x = "\<lparr>bi_Ptr = sl_ptr buf, bi_Size = sl_len p\<rparr>"
  have bs: "mem_read m0 (sl_ptr p) (nat (sl_len p)) = ?bs" "length ?bs = nat (sl_len p)"
    using user_bytes_extends [OF us, of m0] mk(2) p(1) by (auto simp: slot_from_def slice_ok_def)
  define m1 where "m1 = mem_write m0 (sl_ptr buf) ?bs"
  obtain d' where w: "Write choice bchoice now p ?d = Inr (None, d')" "content d' = content ?d @ [?x]"
      "last (sb_items (db_active d')) = ?x" "db_mem d' = m1" "lc_SmallPool (db_pm d') = pool'"
      "db_readMode d' = db_readMode ?d" "is_open d'"
    using Write_open [OF state_okD(6) [OF ok] p(1), of choice now bchoice] mk(1) bs(1)
    by (auto simp: db_inv_def m1_def)
  have s': "s' = s\<lparr>s_db := d', s_written := s_written s @ [(?x, ?bs)]\<rparr>"
    using step(1) w(1,3) us by (simp add: do_write_def)
  have live: "live s' = add_mset (sl_ptr buf) (?A + mset (map sl_ptr pool') + ?C)"
    by (simp add: s' live_def w)
  have "sole (?A + mset (map sl_ptr (lc_SmallPool (db_pm ?d))) + ?C)"
      "\<forall>q \<in># ?A + mset (map sl_ptr (lc_SmallPool (db_pm ?d))) + ?C. in_use (db_mem ?d) q"
    using inv unfolding byte_inv_def live_def by blast+
  note sl = slot_sole [OF this mk(2)]
  have old: "bi_Ptr x \<noteq> sl_ptr buf" "mem_blocks m1 (bi_Ptr x) = mem_blocks (db_mem ?d) (bi_Ptr x)"
    if "x \<in> set (content ?d)" for x
  proof -
    have "bi_Ptr x \<in># ?A + mset (map sl_ptr pool') + ?C" using that by simp
    with sl have "bi_Ptr x \<noteq> sl_ptr buf" "mem_blocks m0 (bi_Ptr x) = mem_blocks (db_mem ?d) (bi_Ptr x)" by blast+
    then show "bi_Ptr x \<noteq> sl_ptr buf" "mem_blocks m1 (bi_Ptr x) = mem_blocks (db_mem ?d) (bi_Ptr x)"
      by (simp_all add: m1_def blocks_mem_write)
  qed
  have new: "item_bytes m1 ?x = ?bs" "nat (sl_len p) \<le> length (mem_blocks m1 (sl_ptr buf))"
  proof -
    have "item_bytes m1 ?x = mem_read (mem_write m0 (sl_ptr buf) ?bs) (sl_ptr buf) (length ?bs)"
      unfolding bs(2) by (simp add: item_bytes_def m1_def)
    then show "item_bytes m1 ?x = ?bs" by (simp only: mem_read_write_same)
    have "mem_blocks m1 (sl_ptr buf) = ?bs @ drop (length ?bs) (mem_blocks m0 (sl_ptr buf))"
      by (simp add: m1_def mem_write_def)
    then show "nat (sl_len p) \<le> length (mem_blocks m1 (sl_ptr buf))"
      unfolding bs(2) [symmetric] by (simp only: length_append)
  qed
  have bytes: "map (item_bytes m1) (content ?d) = map (item_bytes (db_mem ?d)) (content ?d)"
    by (intro map_cong refl item_bytes_cong old(2))
  have "sole (live s')" "\<forall>q \<in># live s'. in_use (db_mem d') q"
    unfolding live using sl by (simp_all add: w(4) m1_def)
  then show ?thesis
    using inv step(2) old(2) new bytes p(2) w unfolding byte_inv_def by (simp add: s')
qed

text \<open>A read of a current buffer that is not exhausted: which memory it writes and what it delivers.\<close>

lemma read_delivers:
  assumes "byte_inv s" "s_pc s = Reading w" "reader_read choice now w s = Inr s'"
    and b: "db_currentBuffer (s_db s) = Some b" "sb_count b \<noteq> 0" and x: "x = hd (sb_items b)"
  shows "\<exists>buf pool' m0. slot_from (lc_SmallPool (db_pm (s_db s))) (db_mem (s_db s)) buf pool' m0 \<and>
    (let bs = mem_read m0 (bi_Ptr x) (nat (bi_Size x)); m1 = mem_write m0 (sl_ptr buf) bs
     in db_mem (s_db s') = m1 \<and> lc_SmallPool (db_pm (s_db s')) = pool' \<and> db_readMode (s_db s') = Some SafeRead \<and>
        s_chunks s' = s_chunks s @ [\<lparr>dc_data = buf, dc_free = Some (FreeSmall buf)\<rparr>] \<and>
        s_written s' = s_written s \<and> s_delivered s' = s_delivered s @ [(x, bs)])"
proof -
  let ?d = "s_db s"
  have ok: "state_ok ?d" "db_readMode ?d = Some SafeRead"
    using assms(1,2) by (auto simp: byte_inv_def sys_safe_def)
  note safe = state_okD(1) [OF ok(1)]
  have "x \<in> set (content ?d)" using popped_db_keeps(2) [OF safe b] x by simp
  then have small: "bi_Size x < SmallDataThreshold" "nat (bi_Size x) \<le> length (mem_blocks (db_mem ?d) (bi_Ptr x))"
    using assms(1) by (auto simp: byte_inv_def)
  obtain buf pool' m0 where r: "safeRead choice now ?d =
      Inr (Some \<lparr>dc_data = buf, dc_free = Some (FreeSmall buf)\<rparr>,
        (popped_db b ?d)\<lparr>db_pm := (db_pm ?d)\<lparr>lc_SmallPool := pool'\<rparr>,
           db_mem := mem_write m0 (sl_ptr buf) (mem_read m0 (bi_Ptr x) (nat (bi_Size x)))\<rparr>)"
      "sl_len buf = bi_Size x" "slot_from (lc_SmallPool (db_pm ?d)) (db_mem ?d) buf pool' m0"
    using safeRead_small [OF safe b x small(1)] by blast
  have "sole (mset (map bi_Ptr (content ?d)) + mset (map sl_ptr (lc_SmallPool (db_pm ?d))) +
        image_mset chunk_ptr (unreleased (s_chunks s)))" "\<forall>q \<in># live s. in_use (db_mem ?d) q"
    using assms(1) by (simp_all add: byte_inv_def live_def)
  then have "sole (add_mset (bi_Ptr x) (mset (map bi_Ptr (content (popped_db b ?d)))) +
        mset (map sl_ptr (lc_SmallPool (db_pm ?d))) + image_mset chunk_ptr (unreleased (s_chunks s)))"
      "\<forall>q \<in># add_mset (bi_Ptr x) (mset (map bi_Ptr (content (popped_db b ?d)))) +
        mset (map sl_ptr (lc_SmallPool (db_pm ?d))) + image_mset chunk_ptr (unreleased (s_chunks s)). in_use (db_mem ?d) q"
    using popped_db_keeps(2) [OF safe b] x by (simp_all add: live_def)
  note sl = slot_sole [OF this r(3)]
  define bs where "bs = mem_read m0 (bi_Ptr x) (nat (bi_Size x))"
  have "mem_blocks m0 (bi_Ptr x) = mem_blocks (db_mem ?d) (bi_Ptr x)" using sl by simp
  then have len: "length bs = nat (bi_Size x)" using small(2) by (simp add: bs_def mem_read_def)
  define m1 where "m1 = mem_write m0 (sl_ptr buf) bs"
  define d' where "d' = (popped_db b ?d)\<lparr>db_pm := (db_pm ?d)\<lparr>lc_SmallPool := pool'\<rparr>, db_mem := m1\<rparr>"
  let ?c = "\<lparr>dc_data = buf, dc_free = Some (FreeSmall buf)\<rparr>"
  have "tryRead_mode choice now ?d = Inr (Inr ?c, d')"
    using r(1) ok(2) by (simp add: tryRead_mode_def d'_def m1_def bs_def)
  then have s': "s' = reader_finish w x ?c (s\<lparr>s_db := d'\<rparr>)"
    using assms(3) b(1) by (simp add: reader_read_def current_items_def x)
  have "db_mem (s_db s') = m1 \<and> lc_SmallPool (db_pm (s_db s')) = pool' \<and> db_readMode (s_db s') = Some SafeRead \<and>
      s_chunks s' = s_chunks s @ [?c] \<and> s_written s' = s_written s \<and> s_delivered s' = s_delivered s @ [(x, bs)]"
    using ok(2) mem_read_write_same [of m0 "sl_ptr buf" bs] len r(2)
    by (auto simp: s' reader_finish_def after_read_def unregister_db_def d'_def popped_db_def slice_bytes_def
        DataChunk_Bytes_def m1_def split: option.splits)
  then show ?thesis using r(3) unfolding Let_def m1_def bs_def by blast
qed

lemma read_bytes:
  assumes inv: "byte_inv s" and pc: "s_pc s = Reading w"
    and step: "reader_read choice now w s = Inr s'" "sys_safe s'" "flow s s'"
  shows "byte_inv s'"
proof -
  let ?d = "s_db s"
  have ok: "state_ok ?d" "is_open ?d" "db_currentBuffer ?d \<noteq> None" "db_readMode ?d = Some SafeRead"
    using inv pc by (auto simp: byte_inv_def sys_safe_def)
  note safe = state_okD(1) [OF ok(1)]
  obtain b where b: "db_currentBuffer ?d = Some b" using ok(3) by blast
  show ?thesis
  proof (cases "sb_count b = 0")
    case True
    have "tryRead_mode choice now ?d = Inr (Inl ErrRead, ?d)"
      using tryRead_mode_empty [OF b True ok(4)] by (simp add: ReadMode_Validate_def)
    then have "s' = reader_fail w (s\<lparr>s_db := ?d\<rparr>)" using step(1) by (simp add: reader_read_def)
    then show ?thesis using quiet_inv [OF inv step(2,3)] reader_fail_quiet [OF same_small_refl] by blast
  next
    case False
    define x where "x = hd (sb_items b)"
    note pop = popped_db_keeps [OF safe b False, folded x_def]
    let ?A = "mset (map bi_Ptr (content (popped_db b ?d)))" and ?C = "image_mset chunk_ptr (unreleased (s_chunks s))"
    have small: "nat (bi_Size x) \<le> length (mem_blocks (db_mem ?d) (bi_Ptr x))"
      using inv pop(2) by (auto simp: byte_inv_def)
    obtain buf pool' m0 bs m1 where sf: "slot_from (lc_SmallPool (db_pm ?d)) (db_mem ?d) buf pool' m0"
      and def: "bs = mem_read m0 (bi_Ptr x) (nat (bi_Size x))" "m1 = mem_write m0 (sl_ptr buf) bs"
      and f: "db_mem (s_db s') = m1" "lc_SmallPool (db_pm (s_db s')) = pool'" "db_readMode (s_db s') = Some SafeRead"
        "s_chunks s' = s_chunks s @ [\<lparr>dc_data = buf, dc_free = Some (FreeSmall buf)\<rparr>]" "s_written s' = s_written s"
        "s_delivered s' = s_delivered s @ [(x, bs)]"
      using read_delivers [OF inv pc step(1) b False x_def] unfolding Let_def by blast
    have "sole (add_mset (bi_Ptr x) ?A + mset (map sl_ptr (lc_SmallPool (db_pm ?d))) + ?C)"
        "\<forall>q \<in># add_mset (bi_Ptr x) ?A + mset (map sl_ptr (lc_SmallPool (db_pm ?d))) + ?C. in_use (db_mem ?d) q"
      using inv pop(2) by (simp_all add: byte_inv_def live_def)
    note sl = slot_sole [OF this sf]
    have blk: "mem_blocks m0 (bi_Ptr x) = mem_blocks (db_mem ?d) (bi_Ptr x)" using sl by simp
    then have bs: "bs = item_bytes (db_mem ?d) x" using small by (simp add: def(1) item_bytes_def mem_read_def)
    have old: "mem_blocks m1 (bi_Ptr y) = mem_blocks (db_mem ?d) (bi_Ptr y)"
      if "y \<in> set (content (popped_db b ?d))" for y
    proof -
      have "bi_Ptr y \<in># add_mset (bi_Ptr x) ?A + mset (map sl_ptr pool') + ?C" using that by simp
      with sl have "bi_Ptr y \<noteq> sl_ptr buf" "mem_blocks m0 (bi_Ptr y) = mem_blocks (db_mem ?d) (bi_Ptr y)" by blast+
      then show ?thesis by (simp add: def(2) blocks_mem_write)
    qed
    have o': "is_open (s_db s')" using step(3) by (simp add: flow_def)
    obtain ins outs where fl: "s_written s' = s_written s @ ins" "s_delivered s' = s_delivered s @ outs"
        "content ?d @ map fst ins = map fst outs @ content (s_db s')"
      using step(3) unfolding flow_def by blast
    have "ins = []" "outs = [(x, bs)]" using fl(1,2) f(5,6) by simp_all
    then have c': "content (s_db s') = content (popped_db b ?d)" using fl(3) pop(2) by simp
    have live: "live s' = add_mset (sl_ptr buf) (?A + mset (map sl_ptr pool') + ?C)"
      by (simp add: live_def f c' unreleased_def chunk_ptr_def)
    have sub: "sole (live s')" "\<forall>q \<in># live s'. in_use m1 q"
      unfolding live using sl by (auto simp: sole_add def(2))
    have "map (item_bytes m1) (content (popped_db b ?d)) = map (item_bytes (db_mem ?d)) (content (popped_db b ?d))"
      by (intro map_cong refl item_bytes_cong old)
    then have "map snd (s_written s') = map snd (s_delivered s') @ map (item_bytes m1) (content (s_db s'))"
      using inv pop(2) bs by (simp add: f c' byte_inv_def)
    moreover have "\<forall>y \<in> set (content (s_db s')). bi_Size y < SmallDataThreshold \<and>
        nat (bi_Size y) \<le> length (mem_blocks m1 (bi_Ptr y))"
      using inv pop(2) old by (simp add: c' byte_inv_def)
    moreover have "\<forall>c \<in> set (s_chunks s'). dc_free c = None \<or> dc_free c = Some (FreeSmall (dc_data c))"
      using inv by (simp add: f byte_inv_def)
    ultimately show ?thesis using step(2) o' sub f(1,3) by (simp add: byte_inv_def)
  qed
qed

lemma unreleased_update:
  assumes "k < length cs" "dc_free (cs ! k) \<noteq> None" "dc_free c = None"
  shows "unreleased cs = add_mset (cs ! k) (unreleased (cs[k := c]))"
proof -
  define M where "M = mset cs - {#cs ! k#}"
  have "mset cs = add_mset (cs ! k) M" "mset (cs[k := c]) = add_mset c M"
    using assms(1) by (simp_all add: M_def mset_update)
  then show ?thesis using assms(2,3) by (simp add: unreleased_def)
qed

lemma release_bytes:
  assumes inv: "byte_inv s" and k: "k < length (s_chunks s)" and step: "sys_safe (do_release k s)" "flow s (do_release k s)"
  shows "byte_inv (do_release k s)"
proof (cases "dc_free (s_chunks s ! k)")
  case None
  then have "quiet s (do_release k s)"
    by (simp add: do_release_def DataChunk_Release_def quiet_def same_small_refl)
  then show ?thesis using quiet_inv [OF inv step] by blast
next
  case (Some fr)
  let ?c = "s_chunks s ! k" and ?d = "s_db s" and ?s = "do_release k s"
  have "?c \<in> set (s_chunks s)" using k by simp
  then have fr: "fr = FreeSmall (dc_data ?c)" using inv Some by (auto simp: byte_inv_def)
  let ?d' = "?d\<lparr>db_pm := SmallPool_Put ((dc_data ?c)\<lparr>sl_len := 0\<rparr>) (db_pm ?d)\<rparr>" and ?c' = "?c\<lparr>dc_free := None\<rparr>"
  have s': "?s = s\<lparr>s_db := ?d', s_chunks := (s_chunks s)[k := ?c']\<rparr>"
    using Some fr by (simp add: do_release_def DataChunk_Release_def)
  have c: "content (?d\<lparr>db_pm := pm\<rparr>) = content ?d" for pm
    by (simp add: content_def current_items_def waiting_def numbered_def)
  have "unreleased (s_chunks s) = add_mset ?c (unreleased ((s_chunks s)[k := ?c']))"
    using unreleased_update [OF k, of ?c'] Some by simp
  then have live: "live ?s = live s"
    by (simp add: s' live_def c SmallPool_Put_def chunk_ptr_def)
  have ch: "\<forall>x \<in> set ((s_chunks s)[k := ?c']). dc_free x = None \<or> dc_free x = Some (FreeSmall (dc_data x))"
    using inv set_update_subset_insert [of "s_chunks s" k ?c'] by (auto simp: byte_inv_def)
  have "db_mem (s_db ?s) = db_mem ?d" "content (s_db ?s) = content ?d" "is_open (s_db ?s)"
      "db_readMode (s_db ?s) = Some SafeRead" "s_written ?s = s_written s" "s_delivered ?s = s_delivered s"
      "s_chunks ?s = (s_chunks s)[k := ?c']"
    using inv c by (simp_all add: s' byte_inv_def)
  then show ?thesis using inv step(1) ch live unfolding byte_inv_def by simp
qed

section \<open>Executions\<close>

lemma fire_bytes:
  assumes "byte_inv s" "small_label l" "db_clock (s_db s) < counter_limit" "fire l s = Some (Inr s')"
  shows "byte_inv s'"
proof -
  have safe: "sys_safe s" "is_open (s_db s)" "state_ok (s_db s)" using assms(1) by (auto simp: byte_inv_def sys_safe_def)
  have v: "valid_label l" "in_order l" "l \<noteq> LClose" using small_valid [OF assms(2)] by auto
  have safe': "sys_safe s'" using fire_kept [OF safe(1) v(1) assms(3,4)] by (auto simp: kept_def)
  have fl: "flow s s'" using fire_flow [OF safe(1) v(1) assms(3,4) safe(2) v(3)] v(2) by blast
  show ?thesis
  proof (cases l)
    case (LWrite choice bchoice now p)
    then have "slice_ok p" "sl_len p < SmallDataThreshold" "do_write choice bchoice now p s = Some (Inr s')"
      using assms(2,4) by auto
    then show ?thesis using write_bytes [OF assms(1) _ _ _ safe'] by blast
  next
    case (LRead choice now)
    then show ?thesis using read_bytes [OF assms(1) _ _ safe' fl] assms(4) by (auto split: reader_pc.splits)
  next
    case (LRelease k)
    then show ?thesis using release_bytes [OF assms(1)] safe' fl assms(4) by (auto split: if_splits)
  qed (rule quiet_inv [OF assms(1) safe' fl fire_quiet [OF safe(3,2) assms(2,4)]]; simp)+
qed

interpretation byte_system: guarded_system fire small_label byte_inv "\<lambda>s. db_clock (s_db s)" counter_limit
proof unfold_locales
  fix s l s' p
  assume a: "byte_inv s" "small_label l" "db_clock (s_db s) < counter_limit"
  then have b: "sys_safe s" "valid_label l" using small_valid by (auto simp: byte_inv_def)
  show "fire l s \<noteq> Some (Inl p)" using fire_kept [OF b a(3)] by blast
  assume f: "fire l s = Some (Inr s')"
  show "byte_inv s'" by (rule fire_bytes [OF a f])
  show "db_clock (s_db s') \<le> db_clock (s_db s) + 1" using fire_kept [OF b a(3) f] by (auto simp: kept_def)
qed

text \<open>
  C1: end-to-end integrity of small data. Writers may overwrite their slices as soon as \<open>Write\<close> has
  returned and the consumer may release its chunks at any time: in every interleaving on a new buffer in
  the safe mode with data below 1024 bytes (switch goroutines numbered in the order they were started,
  buffer not closed), the bytes the consumer received are a prefix of the bytes that were passed to
  \<open>Write\<close>, message by message, and what is missing is the bytes of the items still inside, in order.
\<close>

theorem small_data_integrity:
  assumes "open_buffer sz sc cs now mem SafeRead = Some d" "1 \<le> sz" "sz < 2 ^ 31"
    and "exec fire ls (start d) s" "\<forall>l \<in> set ls. small_label l" "int (length ls) \<le> counter_limit"
  shows "map snd (s_written s) = map snd (s_delivered s) @ map (item_bytes (db_mem (s_db s))) (content (s_db s))"
proof -
  note ok = open_buffer_ok [OF assms(1-3)]
  then have "byte_inv (start d)"
    by (simp add: byte_inv_def start_def live_def sole_def unreleased_def NewLifeCycleManager_def)
  then have "byte_inv s"
    using byte_system.exec_inv [OF assms(4) _ assms(5)] ok assms(6) by auto
  then show ?thesis by (simp add: byte_inv_def)
qed

theorem small_data_integrity_witness:
  "\<exists>s. demo_run [demo_write 1, LUser 1 [9, 9], demo_write 2, LNumber 0, LPush 0, LBegin, LPick, LRead None 0] = Some s \<and>
       length (s_delivered s) = 1 \<and>
       map snd (s_written s) = map snd (s_delivered s) @ map (item_bytes (db_mem (s_db s))) (content (s_db s))"
proof -
  let ?ls = "[demo_write 1, LUser 1 [9, 9], demo_write 2, LNumber 0, LPush 0, LBegin, LPick, LRead None 0]"
  have "map_option (\<lambda>s. length (s_delivered s)) (demo_run ?ls) = Some 1" by code_simp
  then obtain s where s: "demo_run ?ls = Some s" "length (s_delivered s) = 1" by auto
  then obtain d where d: "open_buffer 1 sample_condition [] 0 sample_memory SafeRead = Some d"
      "exec fire ?ls (start d) s" using demo_run_exec by blast
  have "map snd (s_written s) = map snd (s_delivered s) @ map (item_bytes (db_mem (s_db s))) (content (s_db s))"
    by (rule small_data_integrity [OF d(1) _ _ d(2)])
       (auto simp: demo_write_def slice_ok_def demo_slice_def counter_limit_def SmallDataThreshold_def)
  with s show ?thesis by blast
qed

end
