(* ===== verification/Buffer_Wakeup.thy ===== *)
theory Buffer_Wakeup
  imports Buffer_System
begin

text \<open>
  Blocked consumers and wake-ups. \<open>lost_wakeup\<close> of \<open>Buffer_System\<close> shows that a notification is missed when a
  buffer is pushed between the last failed attempt of \<open>BlockingRead\<close> and its registration; an empty buffer,
  which notifies nobody, can have the same effect. This theory shows that nothing else can: in every
  interleaving that avoids these two cases, a consumer that is blocked while the buffer it waits for is in
  the heap has a token, or a notification that will give it one is under way, and four steps of the
  program hand it the next item.
\<close>

section \<open>Steps outside of the window\<close>

definition next_ready :: "double_buffer \<Rightarrow> bool" where
  "next_ready d \<longleftrightarrow> db_currentSequence d \<in> fst ` set_mset (mh_elems (db_pendingHeap d))"

fun in_window :: "reader_pc \<Rightarrow> bool" where
  "in_window Registering = True"
| "in_window (Picking n w) = (maxRetires \<le> n)"
| "in_window _ = False"

fun quiet :: "label \<Rightarrow> sys \<Rightarrow> bool" where
  "quiet (LWrite choice bchoice now p) s = slice_ok p"
| "quiet (LPush k) s = (\<not> in_window (s_pc s))"
| "quiet (LTick choice now) s = (0 < sb_count (db_active (s_db s)) \<or> \<not> fst (needSwitch now (s_db s)))"
| "quiet LClose s = False"
| "quiet _ s = True"

definition fire_quiet :: "label \<Rightarrow> sys \<Rightarrow> sys go option" where
  "fire_quiet l s = (if quiet l s then fire l s else None)"

section \<open>The invariant\<close>

definition filled :: "double_buffer \<Rightarrow> bool" where
  "filled d \<longleftrightarrow> (\<forall>b \<in> set (heap_bufs d) \<union> snd ` set (db_numbered d) \<union> set (db_spawned d). 0 < sb_count b)"

fun reader_ok :: "reader_pc \<Rightarrow> double_buffer \<Rightarrow> bool" where
  "reader_ok Idle d = (wm_ws (db_wm d) = [])"
| "reader_ok (Picking n w) d = (wm_ws (db_wm d) = [] \<and> (maxRetires \<le> n \<longrightarrow> \<not> next_ready d))"
| "reader_ok (Reading w) d = (wm_ws (db_wm d) = [] \<and> (\<exists>b. db_currentBuffer d = Some b \<and> 0 < sb_count b))"
| "reader_ok Registering d = (wm_ws (db_wm d) = [] \<and> \<not> next_ready d \<and> db_currentBuffer d = None)"
| "reader_ok (Waiting wid ch) d =
     (db_currentBuffer d = None \<and>
      (wm_ws (db_wm d) = [] \<and> wm_token (db_wm d) ch \<or>
       wm_ws (db_wm d) = [(wid, ch)] \<and> (next_ready d \<longrightarrow> (\<exists>n \<in> set (db_notifying d). 0 < n))))"

definition wake_inv :: "sys \<Rightarrow> bool" where
  "wake_inv s \<longleftrightarrow> sys_safe s \<and> is_open (s_db s) \<and> filled (s_db s) \<and> reader_ok (s_pc s) (s_db s)"

lemma wake_invD:
  assumes "wake_inv s"
  shows "sys_safe s" "is_open (s_db s)" "filled (s_db s)" "reader_ok (s_pc s) (s_db s)" "state_ok (s_db s)"
    "db_inv (s_db s)" "db_safe (s_db s)" "wm_inv (db_wm (s_db s))" "\<not> wm_closed (db_wm (s_db s))"
  using assms state_okD(6) [of "s_db s"] state_okD(1) [of "s_db s"] by (auto simp: wake_inv_def sys_safe_def db_safe_def)

lemma filled_cong:
  "db_pendingHeap d' = db_pendingHeap d \<Longrightarrow> db_numbered d' = db_numbered d \<Longrightarrow> db_spawned d' = db_spawned d \<Longrightarrow>
   filled d' = filled d"
  by (simp add: filled_def heap_bufs_def)

text \<open>A step that touches neither the heap, the current buffer, the waiters nor the notifications.\<close>

definition calm :: "double_buffer \<Rightarrow> double_buffer \<Rightarrow> bool" where
  "calm d d' \<longleftrightarrow> db_pendingHeap d' = db_pendingHeap d \<and> db_currentSequence d' = db_currentSequence d \<and>
     db_currentBuffer d' = db_currentBuffer d \<and> db_notifying d' = db_notifying d \<and> db_wm d' = db_wm d \<and>
     (filled d \<longrightarrow> filled d')"

lemma calm_keeps: "calm d d' \<Longrightarrow> filled d \<Longrightarrow> reader_ok pc d \<Longrightarrow> filled d' \<and> reader_ok pc d'"
  by (cases pc) (simp_all add: calm_def next_ready_def)

lemma calm_trans: "calm d d1 \<Longrightarrow> calm d1 d' \<Longrightarrow> calm d d'"
  by (simp add: calm_def)

lemma calmI:
  assumes "same_buffers d d'" "db_wm d' = db_wm d" "db_notifying d' = db_notifying d"
  shows "calm d d'"
  using assms filled_cong [of d' d] by (simp add: calm_def same_buffers_def)

lemma active_calm: "calm d (d\<lparr>db_active := a\<rparr>)" "calm d (appended item d)"
  using filled_cong [of "d\<lparr>db_active := a\<rparr>" d] filled_cong [of "appended item d" d]
  by (simp_all add: calm_def appended_def)

lemma switched_calm:
  assumes "0 < sb_count (db_active d)"
  shows "calm d (switched nb pool now d)"
  using assms by (auto simp: calm_def switched_def filled_def heap_bufs_def)

lemma make_item_notifying: "make_item choice now p d = Inr (item, d1) \<Longrightarrow> db_notifying d1 = db_notifying d"
  by (auto simp: make_item_def small_copy_def Let_def bind_go_def split: if_splits prod.splits sum.splits)

lemma store_calm:
  assumes "db_inv d"
    and "bind_go (write_active item d) (\<lambda>(err, d2).
           case err of None \<Rightarrow> Inr (None, d2) | Some _ \<Rightarrow> write_slow choice now item d2) = Inr (None, d')"
  shows "calm d d'"
proof (cases "sb_count (db_active d) < db_size d")
  case True
  then have "d' = appended item d" using assms(2) write_active_room [OF assms(1) True, of item] by simp
  then show ?thesis by (simp add: active_calm)
next
  case False
  let ?d = "d\<lparr>db_active := SetState ReadOnly (db_active d)\<rparr>"
  have inv: "db_inv ?d" using set_readonly_inv [OF assms(1) False] by simp
  obtain nb pool where sw: "switchChannel choice now ?d = Inr (switched nb pool now ?d)"
      "fresh_buf (db_size ?d) nb" "set pool \<subseteq> set (db_pool ?d)"
    using switchChannel_open [OF inv] by blast
  let ?s = "switched nb pool now ?d"
  have "1 \<le> db_size d" using assms(1) by (simp add: db_inv_parts)
  then have "calm ?d ?s" using False by (intro switched_calm) simp
  then have c: "calm d (appended item ?s)" using active_calm calm_trans by blast
  have "sb_count (db_active ?s) < db_size ?s"
    using assms(1) by (simp add: switched_def db_inv_parts fresh_buf_def)
  then have "write_active item ?s = Inr (None, appended item ?s)"
    by (rule write_active_room [OF switched_inv [OF inv sw(2,3)]])
  moreover have "GetState (db_active ?d) = ReadOnly" by (simp add: GetState_def SetState_def)
  ultimately have "d' = appended item ?s"
    using assms(2) write_active_full [OF assms(1) False, of item] sw(1) by (auto simp: write_slow_def)
  with c show ?thesis by simp
qed

lemma write_calm:
  assumes "db_inv d" "slice_ok p" "Write choice bchoice now p d = Inr (err, d')"
  shows "calm d d'"
proof -
  have safe: "db_safe d" and st: "db_state d = WritingState" using assms(1) by (auto simp: db_inv_def)
  obtain item d1 where m: "make_item choice now p d = Inr (item, d1)" "item_ok item" "side_step d d1"
    using make_item_ok [OF safe assms(2)] by blast
  have d1: "db_inv d1" "db_state d1 = WritingState"
    using side_step_inv [OF m(3) assms(1)] by (auto simp: db_inv_def)
  obtain d2 where s: "bind_go (write_active item d1) (\<lambda>(err, d2).
      case err of None \<Rightarrow> Inr (None, d2) | Some _ \<Rightarrow> write_slow bchoice now item d2) = Inr (None, d2)"
    using store_item [OF d1(1) m(2)] by blast
  have "d2 = d'" using assms(3) m(1) st d1(2) s by (simp add: Write_def)
  moreover have "calm d d1"
    using m(1,3) make_item_same make_item_notifying by (intro calmI) (auto simp: side_step_def)
  ultimately show ?thesis using calm_trans store_calm [OF d1(1) s] by blast
qed

lemma tick_calm:
  assumes "db_inv d" "0 < sb_count (db_active d) \<or> \<not> fst (needSwitch now d)" "swapMonitor_tick choice now d = Inr d'"
  shows "calm d d'"
proof -
  obtain r d1 where n: "needSwitch now d = (r, d1)" by fastforce
  have safe: "db_safe d" "\<not> db_stop d" using assms(1) by (auto simp: db_inv_def db_safe_def)
  have d1: "db_inv d1" by (rule side_step_inv [OF needSwitch_side [OF safe(1) n] assms(1)])
  have side: "side_step d d1" by (rule needSwitch_side [OF safe(1) n])
  have "db_wm d1 = db_wm d" "db_notifying d1 = db_notifying d"
    using n by (auto simp: needSwitch_def Let_def split: prod.splits if_splits)
  with side have c: "calm d d1" "db_active d1 = db_active d"
    by (simp_all add: calmI side_step_def same_buffers_def)
  show ?thesis
  proof (cases r)
    case True
    obtain nb pool where "switchChannel choice now d1 = Inr (switched nb pool now d1)"
      using switchChannel_open [OF d1] by blast
    then have "d' = switched nb pool now d1" using True n safe assms(3) by (simp add: swapMonitor_tick_def)
    moreover have "0 < sb_count (db_active d1)" using assms(2) True n c(2) by simp
    ultimately show ?thesis using calm_trans [OF c(1) switched_calm] by simp
  next
    case False
    then show ?thesis using n safe assms(3) c by (simp add: swapMonitor_tick_def)
  qed
qed


section \<open>The switch goroutines\<close>

lemma number_calm:
  assumes "k < length (db_spawned d)"
  shows "calm d (take_number k d)"
proof -
  have "db_spawned d ! k \<in> set (db_spawned d)" using assms by simp
  then show ?thesis
    using assms set_remove_nth [of k "db_spawned d"]
    by (auto simp: calm_def take_number_def Let_def filled_def heap_bufs_def)
qed

lemma Len_filled: "filled d \<Longrightarrow> (q, b) \<in> set (db_numbered d) \<Longrightarrow> 0 < Len b"
  by (force simp: filled_def Len_def)

lemma push_filled:
  assumes "mh_inv (db_pendingHeap d)" "k < length (db_numbered d)" "filled d"
  shows "filled (push_pending k d)"
proof -
  obtain q b where qb: "db_numbered d ! k = (q, b)" by fastforce
  then have b: "(q, b) \<in> set (db_numbered d)" using assms(2) by (metis nth_mem)
  have "set (heap_bufs (push_pending k d)) = insert b (set (heap_bufs d))"
    unfolding set_heap_bufs
    by (simp add: push_pending_eq [OF assms(2) qb] pending.push_elems [OF assms(1)])
  moreover have "0 < sb_count b" using Len_filled [OF assms(3) b] by (simp add: Len_def)
  ultimately show ?thesis
    using assms(3) set_remove_nth [of k "db_numbered d"]
    unfolding filled_def by (auto simp: push_pending_eq [OF assms(2) qb])
qed

lemma push_reader:
  assumes "k < length (db_numbered d)" "filled d" "reader_ok pc d" "\<not> in_window pc"
  shows "reader_ok pc (push_pending k d)"
proof -
  obtain q b where qb: "db_numbered d ! k = (q, b)" by fastforce
  then have "(q, b) \<in> set (db_numbered d)" using assms(1) by (metis nth_mem)
  then have "0 < Len b" by (rule Len_filled [OF assms(2)])
  then show ?thesis using assms(3,4) by (cases pc) (auto simp: push_pending_eq [OF assms(1) qb])
qed

lemma in_remove_nth: "x \<in> set xs \<Longrightarrow> k < length xs \<Longrightarrow> x \<noteq> xs ! k \<Longrightarrow> x \<in> set (remove_nth k xs)"
  using mset_remove_nth [of k xs] by (metis insert_iff set_mset_add_mset_insert set_mset_mset)

lemma notify_reader:
  assumes "k < length (db_notifying d)" "reader_ok pc d"
  shows "reader_ok pc (d\<lparr>db_wm := woken (nat (min 64 (db_notifying d ! k))) (db_wm d),
                          db_notifying := remove_nth k (db_notifying d)\<rparr>)"
proof (cases "wm_ws (db_wm d) = []")
  case True
  then show ?thesis
    using assms(2) woken_nothing [of _ "db_wm d"] by (cases pc) (auto simp: next_ready_def)
next
  case False
  then obtain wid ch where pc: "pc = Waiting wid ch" and ws: "wm_ws (db_wm d) = [(wid, ch)]"
      and none: "db_currentBuffer d = None"
      and sent: "next_ready d \<longrightarrow> (\<exists>n \<in> set (db_notifying d). 0 < n)"
    using assms(2) by (cases pc) auto
  show ?thesis
  proof (cases "0 < db_notifying d ! k")
    case True
    then obtain j where "nat (min 64 (db_notifying d ! k)) = Suc j" by (cases "nat (min 64 (db_notifying d ! k))") auto
    then show ?thesis using pc ws none by (simp add: woken_def)
  next
    case False
    then have "next_ready d \<longrightarrow> (\<exists>n \<in> set (remove_nth k (db_notifying d)). 0 < n)"
      using sent in_remove_nth [OF _ assms(1)] by blast
    then show ?thesis using False pc ws none woken_nothing [of 0 "db_wm d"] by (simp add: next_ready_def)
  qed
qed

section \<open>The consumer\<close>

lemma enter_reader:
  assumes "db_safe d" "wm_ws (db_wm d) = []" "tryRead_enter d = (pick, d')"
  shows "reader_ok (if pick then Picking 0 w else Reading w) d' \<and> filled d' = filled d"
proof (cases rule: tryRead_enter_cases [of d])
  case 1
  then show ?thesis using assms by (simp add: maxRetires_def)
next
  case (2 b)
  have "0 \<le> sb_count b" using db_safe_current [OF assms(1) 2(1)] by (simp add: buf_ok_def sb_inv_def)
  then show ?thesis using 2 assms by (simp add: Len_def)
next
  case (3 b)
  then show ?thesis using assms filled_cong [of d' d] by (auto simp: maxRetires_def)
qed

lemma unregister_idle:
  "wm_ws w = [] \<Longrightarrow> unregister wid w = w"
  "wm_ws w = [(wid, ch)] \<Longrightarrow> wm_ws (unregister wid w) = []"
  by (simp_all add: unregister_def AList.delete_eq)

lemma fail_reader:
  assumes "db_currentBuffer (s_db s) = None" "wm_ws (db_wm (s_db s)) = []" "\<not> next_ready (s_db s)"
  shows "reader_ok (s_pc (reader_fail w s)) (s_db (reader_fail w s)) \<and>
    filled (s_db (reader_fail w s)) = filled (s_db s)"
  using assms filled_cong [of "unregister_db _ (s_db s)" "s_db s"]
  by (auto simp: reader_fail_def unregister_db_def unregister_idle split: option.splits)

lemma filled_heap_cong:
  "set (heap_bufs d') \<subseteq> set (heap_bufs d) \<Longrightarrow> db_numbered d' = db_numbered d \<Longrightarrow> db_spawned d' = db_spawned d \<Longrightarrow>
   filled d \<Longrightarrow> filled d'"
  by (auto simp: filled_def)

lemma pick_reader:
  assumes "db_inv (s_db s)" "filled (s_db s)" "reader_ok (Picking n w) (s_db s)" "db_currentBuffer (s_db s) = None"
    "reader_pick n w s = Inr s'"
  shows "reader_ok (s_pc s') (s_db s') \<and> filled (s_db s')"
proof (cases "n < maxRetires")
  case False
  then have "s' = reader_fail w s" using assms(4,5) by (simp add: reader_pick_def)
  with False fail_reader [of s w] assms show ?thesis by simp
next
  case n: True
  let ?d = "s_db s"
  have h: "mh_inv (db_pendingHeap ?d)" and seq: "seq_ok ?d" using assms(1) by (auto simp: db_inv_def db_safe_def)
  have ws: "wm_ws (db_wm ?d) = []" using assms(3) by simp
  show ?thesis
  proof (cases rule: pick_once_cases [OF h])
    case 1
    then have "\<not> next_ready ?d" by (simp add: next_ready_def mh_elems_def)
    moreover have "s' = reader_fail w s" using 1 n assms(5) by (simp add: reader_pick_def)
    ultimately show ?thesis using fail_reader [OF assms(4) ws, of w] assms(2) by simp
  next
    case (2 b d')
    then obtain g where g: "d' = ?d\<lparr>db_pendingHeap := g, db_currentBuffer := Some b,
        db_currentSequence := wrap64 (db_currentSequence ?d + 1)\<rparr>"
        "mh_elems (db_pendingHeap ?d) = add_mset (db_currentSequence ?d, b) (mh_elems g)"
      by (auto simp: picked_def)
    have "b \<in> set (heap_bufs ?d)" "set (heap_bufs d') \<subseteq> set (heap_bufs ?d)"
      unfolding set_heap_bufs by (auto simp: g)
    then have "0 < sb_count b" "filled d'"
      using assms(2) filled_heap_cong [of d' ?d] by (auto simp: g(1) filled_def)
    moreover have "s' = s\<lparr>s_db := d', s_pc := Reading w\<rparr>" using 2 n assms(5) by (simp add: reader_pick_def)
    ultimately show ?thesis using ws by (simp add: g(1))
  next
    case (3 d')
    then obtain g where g: "d' = ?d\<lparr>db_pendingHeap := g\<rparr>" "mh_elems g = mh_elems (db_pendingHeap ?d)"
      by (auto simp: same_pending_def)
    have "\<not> next_ready d'" using 3(3) seq_ok_heap [OF seq] by (fastforce simp: next_ready_def g)
    moreover have "set (heap_bufs d') \<subseteq> set (heap_bufs ?d)" unfolding set_heap_bufs by (simp add: g)
    then have "filled d'" using assms(2) filled_heap_cong [of d' ?d] by (simp add: g(1))
    moreover have "s' = s\<lparr>s_db := d', s_pc := Picking (Suc n) w\<rparr>"
      using 3 n assms(5) by (simp add: reader_pick_def)
    ultimately show ?thesis using ws by (simp add: g(1))
  qed
qed


lemma mode_notifying:
  assumes "tryRead_mode choice now d = Inr (r, d')"
  shows "db_notifying d' = db_notifying d"
  using assms
  by (auto simp: tryRead_mode_def safeRead_def zeroCopyRead_def pop_current_def small_copy_def Let_def bind_go_def
      split: if_splits prod.splits sum.splits option.splits)

text \<open>A consumer that has a filled buffer gets an item.\<close>

lemma read_served:
  assumes "state_ok (s_db s)" "reader_ok (Reading w) (s_db s)" "reader_read choice now w s = Inr s'"
  shows "s_pc s' = Idle \<and> wm_ws (db_wm (s_db s')) = [] \<and> filled (s_db s') = filled (s_db s) \<and>
    s_written s' = s_written s \<and> (\<exists>x. s_delivered s' = s_delivered s @ [x])"
proof -
  let ?d = "s_db s"
  obtain b where b: "db_currentBuffer ?d = Some b" "sb_count b \<noteq> 0" and ws: "wm_ws (db_wm ?d) = []"
    using assms(2) by auto
  obtain m where m: "db_readMode ?d = Some m" "ReadMode_Validate m" using state_okD(7) [OF assms(1)] by blast
  obtain c d' where r: "tryRead_mode choice now ?d = Inr (Inr c, d')" "side_step (popped_db b ?d) d'"
    using tryRead_mode_ok [OF state_okD(1) [OF assms(1)] b m, of choice now] by blast
  have s': "s' = reader_finish w (hd (sb_items b)) c (s\<lparr>s_db := d'\<rparr>)"
    using r(1) b assms(3) by (simp add: reader_read_def current_items_def)
  have ws': "wm_ws (db_wm d') = []" using mode_same [OF r(1)] ws by simp
  have a: "after_read w d' = d'"
    using ws' by (auto simp: after_read_def unregister_db_def unregister_idle split: option.splits)
  have "filled d' = filled ?d"
    using r(2) by (intro filled_cong) (simp_all add: side_step_def same_buffers_def popped_db_def)
  then show ?thesis using ws' a by (simp add: s' reader_finish_def)
qed

lemma register_reader:
  assumes "db_inv (s_db s)" "reader_ok Registering (s_db s)" "wm_currentID (db_wm (s_db s)) < 2 ^ 63 - 1"
  shows "reader_ok (s_pc (reader_register wchoice s)) (s_db (reader_register wchoice s)) \<and>
    filled (s_db (reader_register wchoice s)) = filled (s_db s)"
proof -
  obtain wid ch wm where r: "register wchoice (db_wm (s_db s)) = ((wid, ch), wm)" by (metis prod.exhaust)
  have "wm_inv (db_wm (s_db s))" using assms(1) by (simp add: db_inv_def db_safe_def)
  then have "wm_ws wm = [(wid, ch)]" using register_inv [OF _ assms(3) r] assms(2) by simp
  then show ?thesis
    using assms(2) r filled_cong [of "(s_db s)\<lparr>db_wm := wm\<rparr>" "s_db s"]
    by (simp add: reader_register_def next_ready_def)
qed

text \<open>The consumer is woken exactly when it holds a token, and is then no longer registered.\<close>

lemma wake_recv:
  assumes "wm_inv (db_wm d)" "\<not> wm_closed (db_wm d)" "reader_ok (Waiting wid ch) d"
    "chan_recv ch (db_wm d) = Some wm"
  shows "wm_ws wm = [] \<and> db_currentBuffer d = None"
proof -
  have "wm_token (db_wm d) ch \<or> wm_chan_closed (db_wm d) ch" "wm_ws wm = wm_ws (db_wm d)"
    using assms(4) by (auto simp: chan_recv_def split: if_splits)
  moreover have "\<not> wm_token (db_wm d) ch \<and> \<not> wm_chan_closed (db_wm d) ch" if "wm_ws (db_wm d) = [(wid, ch)]"
    using wm_inv_chan [OF assms(1), of ch] assms(2) that by simp
  ultimately show ?thesis using assms(3) by auto
qed

lemma cancel_reader:
  assumes "reader_ok (Waiting wid ch) d"
  shows "reader_ok Idle (unregister_db wid d) \<and> filled (unregister_db wid d) = filled d"
  using assms filled_cong [of "unregister_db wid d" d] by (auto simp: unregister_db_def unregister_idle)

lemma release_calm: "calm (s_db s) (s_db (do_release k s)) \<and> s_pc (do_release k s) = s_pc s"
proof -
  have "calm d (run_free fr d)" for fr d
    using filled_cong [of "run_free fr d" d] by (cases fr) (simp_all add: calm_def recycle_def)
  then show ?thesis
    by (auto simp: do_release_def DataChunk_Release_def calm_def split: option.splits prod.splits)
qed


section \<open>Every step keeps the invariant\<close>

abbreviation reader_fine :: "sys \<Rightarrow> bool" where
  "reader_fine s \<equiv> filled (s_db s) \<and> reader_ok (s_pc s) (s_db s)"

lemma calm_fine: "calm (s_db s) d \<Longrightarrow> reader_fine s \<Longrightarrow> reader_fine (s\<lparr>s_db := d\<rparr>)"
  using calm_keeps [of "s_db s" d "s_pc s"] by simp

lemma write_fine:
  assumes "db_inv (s_db s)" "slice_ok p" "reader_fine s" "do_write choice bchoice now p s = Some (Inr s')"
  shows "reader_fine s'"
proof -
  obtain err d where w: "Write choice bchoice now p (s_db s) = Inr (err, d)" and d: "s_db s' = d" "s_pc s' = s_pc s"
    using assms(4) by (auto simp: do_write_def bind_go_def split: if_splits sum.splits option.splits)
  show ?thesis using calm_keeps [OF write_calm [OF assms(1,2) w], of "s_pc s"] assms(3) d by simp
qed

lemma enter_fine:
  assumes "db_safe d" "wm_ws (db_wm d) = []" "filled d"
  shows "reader_fine (reader_enter w (s\<lparr>s_db := d\<rparr>))"
proof -
  obtain pick d' where e: "tryRead_enter d = (pick, d')" by fastforce
  show ?thesis using enter_reader [OF assms(1,2) e, of w] assms(3) e by (simp add: reader_enter_def)
qed

lemma wake_fine:
  assumes "wake_inv s" "s_pc s = Waiting wid ch" "chan_recv ch (db_wm (s_db s)) = Some wm"
  shows "reader_fine (reader_enter (Some (wid, ch)) (s\<lparr>s_db := (s_db s)\<lparr>db_wm := wm\<rparr>\<rparr>))"
proof -
  note i = wake_invD [OF assms(1)]
  have "wm_ws wm = []" using wake_recv [OF i(8,9) _ assms(3), of wid] i(4) assms(2) by simp
  moreover have "db_safe ((s_db s)\<lparr>db_wm := wm\<rparr>)"
    using chan_recv_side [OF i(5) assms(3)] by (simp add: db_good_def state_ok_def)
  moreover have "filled ((s_db s)\<lparr>db_wm := wm\<rparr>)" using i(3) filled_cong [of "(s_db s)\<lparr>db_wm := wm\<rparr>" "s_db s"] by simp
  ultimately show ?thesis by (intro enter_fine) simp_all
qed

lemma notify_fine:
  assumes "wake_inv s" "k < length (db_notifying (s_db s))" "run_notify k (s_db s) = Inr d"
  shows "reader_fine (s\<lparr>s_db := d\<rparr>)"
proof -
  note i = wake_invD [OF assms(1)]
  have d: "d = (s_db s)\<lparr>db_wm := woken (nat (min 64 (db_notifying (s_db s) ! k))) (db_wm (s_db s)),
           db_notifying := remove_nth k (db_notifying (s_db s))\<rparr>"
    using run_notify_ok [OF i(7) assms(2)] assms(3) by simp
  show ?thesis
    using notify_reader [OF assms(2) i(4)] i(3) filled_cong [of d "s_db s"] by (simp add: d)
qed

lemma user_calm: "calm (s_db s) (s_db (user_store n bs s))"
  by (simp add: user_store_def calmI same_buffers_def)

lemma mode_calm: "calm d (snd (RegisterReadMode m d))"
  by (auto simp: RegisterReadMode_def same_buffers_def intro!: calmI)

lemma recycle_calm: "calm d (asyncRecycleWorker_tick now d)"
  by (auto simp: asyncRecycleWorker_tick_def same_buffers_def intro!: calmI)

lemma tick_fine:
  assumes "wake_inv s" "quiet (LTick choice now) s" "swapMonitor_tick choice now (s_db s) = Inr d"
  shows "reader_fine (s\<lparr>s_db := d\<rparr>)"
  using tick_calm [OF wake_invD(6) [OF assms(1)] _ assms(3)] assms(2) calm_fine [of s d] wake_invD(3,4) [OF assms(1)]
  by simp

lemma register_fine:
  assumes "wake_inv s" "db_clock (s_db s) < counter_limit" "s_pc s = Registering"
  shows "reader_fine (reader_register wchoice s)"
proof -
  note i = wake_invD [OF assms(1)]
  have "wm_currentID (db_wm (s_db s)) < 2 ^ 63 - 1"
    using assms(2) state_okD(4) [OF i(5)] by (simp add: db_clock_def counter_limit_def)
  then show ?thesis using register_reader [OF i(6), of wchoice] i(3,4) assms(3) by simp
qed

lemma fire_fine:
  assumes "wake_inv s" "quiet l s" "db_clock (s_db s) < counter_limit" "fire l s = Some (Inr s')"
  shows "reader_fine s'"
proof -
  note i = wake_invD [OF assms(1)]
  have fine: "reader_fine s" using i(3,4) by simp
  show ?thesis
  proof (cases l)
    case (LWrite choice bchoice now p)
    then show ?thesis using write_fine [OF i(6) _ fine] assms(2,4) by auto
  next
    case (LTick choice now)
    then show ?thesis using tick_fine [OF assms(1), of choice now] assms(2,4) by (auto simp: bind_go_def split: sum.splits)
  next
    case (LRecycle now)
    then show ?thesis using calm_fine [OF recycle_calm fine] assms(4) by auto
  next
    case (LNumber k)
    then show ?thesis using calm_fine [OF number_calm fine] assms(4) by (auto split: if_splits)
  next
    case (LPush k)
    moreover have "mh_inv (db_pendingHeap (s_db s))" using i(7) by (simp add: db_safe_def)
    ultimately show ?thesis
      using push_filled [of "s_db s" k] push_reader [of k "s_db s" "s_pc s"] fine assms(2,4)
      by (auto split: if_splits)
  next
    case (LNotify k)
    then show ?thesis using notify_fine [OF assms(1), of k] assms(4) by (auto simp: bind_go_def split: if_splits sum.splits)
  next
    case (LUser n bs)
    then show ?thesis using calm_keeps [OF user_calm [of s n bs]] fine assms(4) by (auto simp: user_store_def)
  next
    case (LReadMode m)
    then show ?thesis using calm_fine [OF mode_calm fine] assms(4) by auto
  next
    case LBegin
    then have "s_pc s = Idle" "s' = reader_enter None (s\<lparr>s_db := s_db s\<rparr>)" using assms(4) by (auto split: if_splits)
    then show ?thesis using enter_fine [OF i(7), of None s] fine by simp
  next
    case LPick
    then obtain n w where "s_pc s = Picking n w" "reader_pick n w s = Inr s'"
      using assms(4) by (auto split: reader_pc.splits)
    then show ?thesis using pick_reader [OF i(6,3), of n w s'] i(1,4) by (simp add: sys_safe_def)
  next
    case (LRead choice now)
    then obtain w where "s_pc s = Reading w" "reader_read choice now w s = Inr s'"
      using assms(4) by (auto split: reader_pc.splits)
    then show ?thesis using read_served [OF i(5), of w choice now s'] i(3,4) by simp
  next
    case (LRegister wchoice)
    then show ?thesis using register_fine [OF assms(1,3)] assms(4) by (auto split: if_splits)
  next
    case LWake
    then show ?thesis using wake_fine [OF assms(1)] assms(4) by (auto split: reader_pc.splits option.splits)
  next
    case LCancel
    then show ?thesis using cancel_reader [of _ _ "s_db s"] i(3,4) assms(4) by (auto split: reader_pc.splits simp del: reader_ok.simps)
  next
    case LStop
    then show ?thesis using i(2,7) assms(4) by (auto simp: db_safe_def split: reader_pc.splits if_splits)
  next
    case (LRelease k)
    then show ?thesis using calm_keeps [of "s_db s" "s_db s'"] release_calm [of s k] fine assms(4) by (auto split: if_splits)
  next
    case LClose
    then show ?thesis using assms(2) by simp
  qed
qed


lemma quiet_valid: "quiet l s \<Longrightarrow> valid_label l \<and> l \<noteq> LClose"
  by (cases l) auto

lemma fire_quietD: "fire_quiet l s = Some r \<Longrightarrow> quiet l s \<and> fire l s = Some r"
  by (simp add: fire_quiet_def split: if_splits)

lemma quiet_keeps:
  assumes "wake_inv s" "db_clock (s_db s) < counter_limit" "fire_quiet l s = Some (Inr s')"
  shows "wake_inv s' \<and> db_clock (s_db s') \<le> db_clock (s_db s) + 1"
proof -
  have q: "quiet l s" "valid_label l" "l \<noteq> LClose" "fire l s = Some (Inr s')"
    using fire_quietD [OF assms(3)] quiet_valid by auto
  note i = wake_invD [OF assms(1)]
  have "kept s s'" using fire_kept [OF i(1) q(2) assms(2) q(4)] by simp
  moreover have "is_open (s_db s')" using fire_flow [OF i(1) q(2) assms(2) q(4) i(2) q(3)] by (simp add: flow_mset_def)
  ultimately show ?thesis using fire_fine [OF assms(1) q(1) assms(2) q(4)] by (simp add: wake_inv_def kept_def)
qed

interpretation wakeup: guarded_system fire_quiet "\<lambda>_. True" wake_inv "\<lambda>s. db_clock (s_db s)" counter_limit
proof unfold_locales
  fix s l s' p
  assume a: "wake_inv s" "db_clock (s_db s) < counter_limit"
  show "fire_quiet l s \<noteq> Some (Inl p)"
    using fire_quietD [of l s "Inl p"] quiet_valid [of l s] fire_kept [OF wake_invD(1) [OF a(1)] _ a(2), of l "Inl p"] by auto
  assume "fire_quiet l s = Some (Inr s')"
  then show "wake_inv s'" "db_clock (s_db s') \<le> db_clock (s_db s) + 1" using quiet_keeps [OF a] by auto
qed

lemma NewDoubleBuffer_idle:
  assumes "NewDoubleBuffer sz sc (map WithMetrics cs) now mem = Inr (Inr d)"
  shows "db_spawned d = [] \<and> db_numbered d = [] \<and> db_pendingHeap d = []"
  using assms
  by (auto simp: NewDoubleBuffer_def bind_go_def NewWrapHeap_def split: sum.splits dest!: apply_WithMetrics)

lemma start_wake:
  assumes "open_buffer sz sc cs now mem m = Some d" "1 \<le> sz" "sz < 2 ^ 31"
  shows "wake_inv (start d) \<and> db_clock (s_db (start d)) = 0"
proof -
  obtain d0 where d0: "NewDoubleBuffer sz sc (map WithMetrics cs) now mem = Inr (Inr d0)" "d = d0\<lparr>db_readMode := Some m\<rparr>"
    using assms(1) by (auto simp: open_buffer_def RegisterReadMode_def split: sum.splits prod.splits if_splits)
  have "wm_ws (db_wm d) = []" using NewDoubleBuffer_inv [OF assms(2,3) d0(1)] by (simp add: d0(2) newWaiterManager_def)
  moreover have "filled d" using NewDoubleBuffer_idle [OF d0(1)] by (simp add: d0(2) filled_def heap_bufs_def)
  ultimately show ?thesis using open_buffer_ok [OF assms] by (simp add: wake_inv_def start_def)
qed

section \<open>Serving a blocked consumer\<close>

text \<open>\<open>s'\<close> has the same history as \<open>s\<close>, and the next buffer is still in the heap.\<close>

definition same_history :: "sys \<Rightarrow> sys \<Rightarrow> bool" where
  "same_history s s' \<longleftrightarrow> s_written s' = s_written s \<and> s_delivered s' = s_delivered s"

lemma step_notify:
  assumes "wake_inv s" "s_pc s = Waiting wid ch" "wm_ws (db_wm (s_db s)) = [(wid, ch)]" "next_ready (s_db s)"
  shows "\<exists>k s'. fire_quiet (LNotify k) s = Some (Inr s') \<and> s_pc s' = s_pc s \<and> wm_token (db_wm (s_db s')) ch \<and>
    next_ready (s_db s') \<and> same_history s s'"
proof -
  let ?d = "s_db s"
  note i = wake_invD [OF assms(1)]
  obtain k where k: "k < length (db_notifying ?d)" "0 < db_notifying ?d ! k"
    using i(4) assms(2-4) by (auto simp: in_set_conv_nth wm_inv_def)
  obtain j where j: "nat (min 64 (db_notifying ?d ! k)) = Suc j" using k(2) by (cases "nat (min 64 (db_notifying ?d ! k))") auto
  show ?thesis
    using k(1) run_notify_ok [OF i(7) k(1)] assms(3,4)
    by (intro exI [of _ k] exI [of _ "s\<lparr>s_db := ?d\<lparr>db_wm := woken (Suc j) (db_wm ?d),
           db_notifying := remove_nth k (db_notifying ?d)\<rparr>\<rparr>"])
      (simp add: fire_quiet_def j woken_def next_ready_def same_history_def)
qed

lemma step_wake:
  assumes "wake_inv s" "s_pc s = Waiting wid ch" "wm_token (db_wm (s_db s)) ch" "next_ready (s_db s)"
  shows "\<exists>s' w. fire_quiet LWake s = Some (Inr s') \<and> s_pc s' = Picking 0 w \<and> next_ready (s_db s') \<and> same_history s s'"
proof -
  have "db_currentBuffer (s_db s) = None" using wake_invD(4) [OF assms(1)] assms(2) by simp
  then show ?thesis
    using assms(2-4)
    by (simp add: fire_quiet_def chan_recv_def reader_enter_def tryRead_enter_def next_ready_def same_history_def)
qed

lemma step_pick:
  assumes "wake_inv s" "s_pc s = Picking 0 w" "next_ready (s_db s)"
  shows "\<exists>s'. fire_quiet LPick s = Some (Inr s') \<and> s_pc s' = Reading w \<and> same_history s s'"
proof -
  note i = wake_invD [OF assms(1)]
  have h: "mh_inv (db_pendingHeap (s_db s))" and seq: "seq_ok (s_db s)" using i(6) by (auto simp: db_inv_def db_safe_def)
  have n: "0 < maxRetires" by (simp add: maxRetires_def)
  show ?thesis
  proof (cases rule: pick_once_cases [OF h])
    case 1
    with assms(3) show ?thesis by (simp add: next_ready_def mh_elems_def)
  next
    case (2 b d')
    with n assms(2) show ?thesis by (simp add: fire_quiet_def reader_pick_def same_history_def)
  next
    case (3 d')
    with assms(3) seq_ok_heap [OF seq] show ?thesis by (fastforce simp: next_ready_def)
  qed
qed

lemma step_read:
  assumes "wake_inv s" "s_pc s = Reading w"
  shows "\<exists>s' x. fire_quiet (LRead choice now) s = Some (Inr s') \<and> s_pc s' = Idle \<and> s_written s' = s_written s \<and>
    s_delivered s' = s_delivered s @ [x]"
proof -
  note i = wake_invD [OF assms(1)]
  obtain s' where r: "reader_read choice now w s = Inr s'" using read_good [OF i(1) assms(2)] by blast
  then show ?thesis using read_served [OF i(5) _ r] i(4) assms(2) by (simp add: fire_quiet_def)
qed

lemma exec_quiet_fire: "exec fire_quiet ls s s' \<Longrightarrow> exec fire ls s s' \<and> (\<forall>l \<in> set ls. valid_label l \<and> l \<noteq> LClose)"
proof (induction rule: exec.induct)
  case (exec_done s)
  then show ?case by (simp add: exec.exec_done)
next
  case (exec_step ls s s1 l s2)
  then show ?case using fire_quietD [OF exec_step.hyps(2)] quiet_valid [of l s1] by (auto intro: exec.exec_step)
qed

lemma serve_picking:
  assumes "wake_inv s" "s_pc s = Picking 0 w" "next_ready (s_db s)" "db_clock (s_db s) < counter_limit"
  shows "\<exists>s' x. exec fire_quiet [LPick, LRead None 0] s s' \<and> s_pc s' = Idle \<and> s_written s' = s_written s \<and>
    s_delivered s' = s_delivered s @ [x]"
proof -
  obtain s1 where s1: "fire_quiet LPick s = Some (Inr s1)" "s_pc s1 = Reading w" "same_history s s1"
    using step_pick [OF assms(1-3)] by blast
  have "wake_inv s1" using quiet_keeps [OF assms(1,4) s1(1)] by simp
  then obtain s' x where s': "fire_quiet (LRead None 0) s1 = Some (Inr s')" "s_pc s' = Idle" "s_written s' = s_written s1"
      "s_delivered s' = s_delivered s1 @ [x]" using step_read [OF _ s1(2)] by blast
  have "exec fire_quiet [LPick, LRead None 0] s s'"
    by (rule run_labels_exec) (simp add: s1(1) s'(1))
  with s' s1(3) show ?thesis by (auto simp: same_history_def)
qed

lemma serve_token:
  assumes "wake_inv s" "s_pc s = Waiting wid ch" "wm_token (db_wm (s_db s)) ch" "next_ready (s_db s)"
    "db_clock (s_db s) + 1 < counter_limit"
  shows "\<exists>s' x. exec fire_quiet [LWake, LPick, LRead None 0] s s' \<and> s_pc s' = Idle \<and> s_written s' = s_written s \<and>
    s_delivered s' = s_delivered s @ [x]"
proof -
  obtain s1 w where s1: "fire_quiet LWake s = Some (Inr s1)" "s_pc s1 = Picking 0 w" "next_ready (s_db s1)"
      "same_history s s1" using step_wake [OF assms(1-4)] by blast
  have "wake_inv s1" "db_clock (s_db s1) < counter_limit" using quiet_keeps [OF assms(1) _ s1(1)] assms(5) by auto
  then obtain s' x where s': "exec fire_quiet [LPick, LRead None 0] s1 s'" "s_pc s' = Idle"
      "s_written s' = s_written s1" "s_delivered s' = s_delivered s1 @ [x]"
    using serve_picking [OF _ s1(2,3)] by blast
  then show ?thesis using exec_Cons [of fire_quiet, OF s1(1) s'(1)] s1(4) by (auto simp: same_history_def)
qed

lemma serve_waiting:
  assumes "wake_inv s" "s_pc s = Waiting wid ch" "next_ready (s_db s)" "db_clock (s_db s) + 2 < counter_limit"
  shows "\<exists>pre s' x. exec fire_quiet (pre @ [LWake, LPick, LRead None 0]) s s' \<and> (pre = [] \<or> (\<exists>k. pre = [LNotify k])) \<and>
    s_pc s' = Idle \<and> s_written s' = s_written s \<and> s_delivered s' = s_delivered s @ [x]"
proof (cases "wm_token (db_wm (s_db s)) ch")
  case True
  then obtain s' x where "exec fire_quiet ([] @ [LWake, LPick, LRead None 0]) s s'" "s_pc s' = Idle"
      "s_written s' = s_written s" "s_delivered s' = s_delivered s @ [x]"
    using serve_token [OF assms(1,2) True assms(3)] assms(4) by auto
  then show ?thesis by blast
next
  case False
  then have "wm_ws (db_wm (s_db s)) = [(wid, ch)]" using wake_invD(4) [OF assms(1)] assms(2) by simp
  then obtain k s1 where s1: "fire_quiet (LNotify k) s = Some (Inr s1)" "s_pc s1 = s_pc s"
      "wm_token (db_wm (s_db s1)) ch" "next_ready (s_db s1)" "same_history s s1"
    using step_notify [OF assms(1,2) _ assms(3)] by blast
  have "wake_inv s1" "db_clock (s_db s1) + 1 < counter_limit" using quiet_keeps [OF assms(1) _ s1(1)] assms(4) by auto
  then obtain s' x where s': "exec fire_quiet [LWake, LPick, LRead None 0] s1 s'" "s_pc s' = Idle"
      "s_written s' = s_written s1" "s_delivered s' = s_delivered s1 @ [x]"
    using serve_token [of s1 wid ch] s1(2-4) assms(2) by auto
  have "exec fire_quiet ([LNotify k] @ [LWake, LPick, LRead None 0]) s s'"
    using exec_Cons [of fire_quiet, OF s1(1) s'(1)] by simp
  moreover have "s_written s' = s_written s" "s_delivered s' = s_delivered s @ [x]"
    using s' s1(5) by (simp_all add: same_history_def)
  ultimately show ?thesis using s'(2) by blast
qed

definition demo_quiet :: "label list \<Rightarrow> sys option" where
  "demo_quiet ls =
     (case demo_start of
        None \<Rightarrow> None
      | Some s \<Rightarrow> (case run_labels fire_quiet ls s of Some (Inr s') \<Rightarrow> Some s' | _ \<Rightarrow> None))"

lemma demo_quiet_exec:
  "demo_quiet ls = Some s \<Longrightarrow>
   \<exists>d. open_buffer 1 sample_condition [] 0 sample_memory SafeRead = Some d \<and> exec fire_quiet ls (start d) s"
  by (auto simp: demo_quiet_def demo_start_def intro: run_labels_exec split: option.splits sum.splits)

section \<open>Property\<close>

text \<open>
  C5: a blocked consumer is woken. Take any interleaving of writers, monitor, switch goroutines, recycling
  and the consumer in which no buffer is pushed between the consumer's last failed attempt and its
  registration and the monitor does not switch an empty buffer. Whenever the consumer is blocked and
  the buffer that is next in sequence is in the heap, then at most one pending notification followed by
  the consumer's own steps (wake up, pick, read) ends its call with the oldest item inside; nothing else
  has to happen first.
\<close>

theorem blocked_reader_served:
  assumes "open_buffer sz sc cs now mem m = Some d" "1 \<le> sz" "sz < 2 ^ 31"
    and "exec fire_quiet ls (start d) s" "int (length ls) + 4 \<le> counter_limit"
    and "s_pc s = Waiting wid ch" "next_ready (s_db s)"
  shows "\<exists>pre s' x. exec fire_quiet (pre @ [LWake, LPick, LRead None 0]) s s' \<and>
    (pre = [] \<or> (\<exists>k. pre = [LNotify k])) \<and> s_pc s' = Idle \<and>
    s_delivered s' = s_delivered s @ [x] \<and> content (s_db s) = fst x # content (s_db s')"
proof -
  have w: "wake_inv s" "db_clock (s_db s) \<le> int (length ls)"
    using wakeup.exec_inv [OF assms(4)] start_wake [OF assms(1-3)] assms(5) by auto
  have lim: "db_clock (s_db s) + 2 < counter_limit" using w(2) assms(5) by simp
  obtain pre s' x where s': "exec fire_quiet (pre @ [LWake, LPick, LRead None 0]) s s'"
      "pre = [] \<or> (\<exists>k. pre = [LNotify k])" "s_pc s' = Idle" "s_written s' = s_written s"
      "s_delivered s' = s_delivered s @ [x]"
    using serve_waiting [OF w(1) assms(6,7)] lim by blast
  have "exec fire (pre @ [LWake, LPick, LRead None 0]) s s'"
      "\<forall>l \<in> set (pre @ [LWake, LPick, LRead None 0]). valid_label l \<and> l \<noteq> LClose \<and> in_order l"
    using exec_quiet_fire [OF s'(1)] s'(2) by auto
  moreover have "length (pre @ [LWake, LPick, LRead None 0]) \<le> 4" using s'(2) by auto
  ultimately have "flow s s'"
    using exec_flow [of _ s s'] wake_invD(1,2) [OF w(1)] w(2) assms(5) by fastforce
  then have "content (s_db s) = fst x # content (s_db s')" using s'(4,5) by (auto simp: flow_def)
  with s' show ?thesis by blast
qed

theorem blocked_reader_served_witness:
  "\<exists>s pre s' x. demo_quiet [LBegin, LPick, LRegister None, demo_write 1, demo_write 2, LNumber 0, LPush 0] = Some s \<and>
     exec fire_quiet (pre @ [LWake, LPick, LRead None 0]) s s' \<and> s_delivered s' = s_delivered s @ [x]"
proof -
  let ?ls = "[LBegin, LPick, LRegister None, demo_write 1, demo_write 2, LNumber 0, LPush 0]"
  have "map_option (\<lambda>s. (s_pc s, next_ready (s_db s))) (demo_quiet ?ls) = Some (Waiting 1 0, True)" by code_simp
  then obtain s where s: "demo_quiet ?ls = Some s" "s_pc s = Waiting 1 0" "next_ready (s_db s)" by auto
  then obtain d where d: "open_buffer 1 sample_condition [] 0 sample_memory SafeRead = Some d"
      "exec fire_quiet ?ls (start d) s" using demo_quiet_exec by blast
  have "\<exists>pre s' x. exec fire_quiet (pre @ [LWake, LPick, LRead None 0]) s s' \<and>
    (pre = [] \<or> (\<exists>k. pre = [LNotify k])) \<and> s_pc s' = Idle \<and>
    s_delivered s' = s_delivered s @ [x] \<and> content (s_db s) = fst x # content (s_db s')"
    by (rule blocked_reader_served [OF d(1) _ _ d(2) _ s(2,3)]) (simp_all add: counter_limit_def)
  with s(1) show ?thesis by blast
qed

text \<open>
  The second case that is left out: the monitor switches an empty buffer once the time threshold has
  passed, its goroutine calls \<open>notify(0)\<close>, and the consumer stays blocked with that buffer in the heap.
\<close>

theorem empty_switch_wakes_nobody:
  "map_option (\<lambda>s. (s_pc s, fire LWake s = None, map mhi_sequence (db_pendingHeap (s_db s)),
                    db_currentSequence (s_db s), db_notifying (s_db s)))
     (demo_run [LBegin, LPick, LRegister None, LTick None (10 ^ 18), LNumber 0, LPush 0, LNotify 0]) =
   Some (Waiting 1 0, True, [1], 1, [])"
  by code_simp

end
