(* ===== verification/Many_Readers.thy ===== *)
theory Many_Readers
  imports Buffer_System
begin

text \<open>
  Several consumers of one buffer. \<open>tryRead\<close> reads and writes \<open>d.currentBuffer\<close> without a lock, so two calls that overlap
  disturb each other: a buffer can be lost, a nil pointer dereferenced. Calls that do not overlap in \<open>tryRead\<close>,
  while any number of consumers is blocked in \<open>BlockingRead\<close>, keep all guarantees of a single consumer.
  The steps are those of \<open>Buffer_System\<close>, with one program point per consumer.
\<close>

section \<open>Steps\<close>

record msys =
  ms_sys :: sys
  ms_pcs :: "reader_pc list"

text \<open>The system as the consumer \<open>i\<close> sees it. A label of another goroutine comes with any \<open>i\<close>.\<close>

definition as_reader :: "nat \<Rightarrow> msys \<Rightarrow> sys" where
  "as_reader i m = (ms_sys m)\<lparr>s_pc := ms_pcs m ! i\<rparr>"

fun fire_many :: "nat \<times> label \<Rightarrow> msys \<Rightarrow> msys go option" where
  "fire_many (i, l) m =
     (if i < length (ms_pcs m)
      then map_option (\<lambda>r. bind_go r (\<lambda>s. Inr \<lparr>ms_sys = s, ms_pcs = (ms_pcs m)[i := s_pc s]\<rparr>)) (fire l (as_reader i m))
      else None)"

definition many_start :: "nat \<Rightarrow> double_buffer \<Rightarrow> msys" where
  "many_start n d = \<lparr>ms_sys = start d, ms_pcs = replicate n Idle\<rparr>"

text \<open>Inside \<open>tryRead\<close>, and the steps that enter it.\<close>

fun busy :: "reader_pc \<Rightarrow> bool" where
  "busy (Picking n w) = True"
| "busy (Reading w) = True"
| "busy _ = False"

fun enters :: "label \<Rightarrow> bool" where
  "enters LBegin = True"
| "enters LWake = True"
| "enters _ = False"

text \<open>Consumers that take turns: none enters \<open>tryRead\<close> while another one is inside.\<close>

fun fire_turns :: "nat \<times> label \<Rightarrow> msys \<Rightarrow> msys go option" where
  "fire_turns (i, l) m = (if enters l \<and> (\<exists>pc \<in> set (ms_pcs m). busy pc) then None else fire_many (i, l) m)"

section \<open>The invariant\<close>

definition many_inv :: "msys \<Rightarrow> bool" where
  "many_inv m \<longleftrightarrow>
     (\<forall>i < length (ms_pcs m). sys_safe (as_reader i m)) \<and> length (filter busy (ms_pcs m)) \<le> 1"

fun reader_label :: "label \<Rightarrow> bool" where
  "reader_label LBegin = True"
| "reader_label LPick = True"
| "reader_label (LRead choice now) = True"
| "reader_label (LRegister wchoice) = True"
| "reader_label LWake = True"
| "reader_label LCancel = True"
| "reader_label LStop = True"
| "reader_label _ = False"

text \<open>The steps of the other goroutines do not look at the program point of the consumer.\<close>

lemma fire_other_pc:
  assumes "\<not> reader_label l" "fire l s = Some (Inr s')"
  shows "fire l (s\<lparr>s_pc := pc\<rparr>) = Some (Inr (s'\<lparr>s_pc := pc\<rparr>)) \<and> s_pc s' = s_pc s"
proof (cases l)
  case (LWrite choice bchoice now p)
  then obtain err d where "Write choice bchoice now p (s_db s) = Inr (err, d)" "user_slice (db_mem (s_db s)) p"
    using assms(2) by (cases "Write choice bchoice now p (s_db s)") (auto simp: do_write_def split: if_splits)
  then show ?thesis using assms(2) LWrite by (auto simp: do_write_def split: option.splits)
next
  case (LTick choice now)
  then show ?thesis using assms(2) by (cases "swapMonitor_tick choice now (s_db s)") auto
next
  case (LNotify k)
  then show ?thesis using assms(2) by (cases "run_notify k (s_db s)") (auto split: if_splits)
next
  case (LRelease k)
  then show ?thesis using assms(2) by (auto simp: do_release_def split: if_splits prod.splits)
next
  case LClose
  then show ?thesis using assms(2) by (cases "Close (s_db s)") auto
qed (use assms in \<open>auto simp: user_store_def split: if_splits\<close>)

lemma quiet_step_buffer:
  assumes "fire l s = Some (Inr s')" "reader_label l" "\<not> busy (s_pc s)" "\<not> enters l"
  shows "db_currentBuffer (s_db s') = db_currentBuffer (s_db s) \<and> \<not> busy (s_pc s')"
  using assms
  by (cases l) (auto simp: reader_register_def unregister_db_def split: reader_pc.splits if_splits prod.splits)

lemma enters_from_outside: "fire l s = Some r \<Longrightarrow> enters l \<Longrightarrow> \<not> busy (s_pc s)"
  by (cases l) (auto split: reader_pc.splits if_splits)

lemma fire_turnsE:
  assumes "fire_turns (i, l) m = Some r"
  obtains r0 where "i < length (ms_pcs m)" "fire l (as_reader i m) = Some r0"
    "r = bind_go r0 (\<lambda>s. Inr \<lparr>ms_sys = s, ms_pcs = (ms_pcs m)[i := s_pc s]\<rparr>)"
    "enters l \<longrightarrow> (\<forall>pc \<in> set (ms_pcs m). \<not> busy pc)"
  using assms by (auto split: if_splits)

lemma as_reader_db [simp]: "s_db (as_reader i m) = s_db (ms_sys m)" "s_pc (as_reader i m) = ms_pcs m ! i"
  "s_chunks (as_reader i m) = s_chunks (ms_sys m)" "s_written (as_reader i m) = s_written (ms_sys m)"
  "s_delivered (as_reader i m) = s_delivered (ms_sys m)"
  by (simp_all add: as_reader_def)

text \<open>The consumers that do not move stay safe.\<close>

lemma other_reader_safe:
  assumes inv: "many_inv m" and ij: "i < length (ms_pcs m)" "j < length (ms_pcs m)" "j \<noteq> i"
    and l: "valid_label l" "db_clock (s_db (ms_sys m)) < counter_limit" "fire l (as_reader i m) = Some (Inr s')"
    and turn: "enters l \<longrightarrow> (\<forall>pc \<in> set (ms_pcs m). \<not> busy pc)"
  shows "sys_safe (s'\<lparr>s_pc := ms_pcs m ! j\<rparr>)"
proof (cases "reader_label l")
  case False
  have j: "sys_safe (as_reader j m)" using inv ij(2) by (simp add: many_inv_def)
  have eq: "as_reader j m = (as_reader i m)\<lparr>s_pc := ms_pcs m ! j\<rparr>" by (simp add: as_reader_def)
  have "fire l (as_reader j m) = Some (Inr (s'\<lparr>s_pc := ms_pcs m ! j\<rparr>))"
    unfolding eq using fire_other_pc [OF False l(3), of "ms_pcs m ! j"] by blast
  then show ?thesis using fire_kept [OF j l(1)] l(2) by (auto simp: kept_def)
next
  case True
  have i: "sys_safe (as_reader i m)" and j: "sys_safe (as_reader j m)" using inv ij by (auto simp: many_inv_def)
  have s': "sys_safe s'" using fire_kept [OF i l(1) _ l(3)] l(2) by (simp add: kept_def)
  show ?thesis
  proof (cases "busy (ms_pcs m ! j)")
    case False
    then have "pc_ok (ms_pcs m ! j) (s_db s')" by (cases "ms_pcs m ! j") simp_all
    then show ?thesis using s' by (simp add: sys_safe_def)
  next
    case busy_j: True
    then have "\<not> enters l" using turn ij(2) by auto
    moreover have "\<not> busy (ms_pcs m ! i)"
      using at_most_one [of busy "ms_pcs m" i j] inv ij busy_j by (auto simp: many_inv_def)
    ultimately have "db_currentBuffer (s_db s') = db_currentBuffer (s_db (ms_sys m))"
      using quiet_step_buffer [OF l(3) True] by simp
    then have "pc_ok (ms_pcs m ! j) (s_db s')" using j by (cases "ms_pcs m ! j") (auto simp: sys_safe_def)
    then show ?thesis using s' by (simp add: sys_safe_def)
  qed
qed

lemma becomes_busy:
  assumes "fire l s = Some (Inr s')" "\<not> busy (s_pc s)" "busy (s_pc s')"
  shows "enters l"
  using quiet_step_buffer [OF assms(1)] fire_other_pc [OF _ assms(1)] assms(2,3) by metis

lemma turns_keep:
  assumes "many_inv m" "valid_label l" "db_clock (s_db (ms_sys m)) < counter_limit" "fire_turns (i, l) m = Some r"
  shows "\<exists>m'. r = Inr m' \<and> many_inv m' \<and> db_clock (s_db (ms_sys m')) \<le> db_clock (s_db (ms_sys m)) + 1 \<and>
    (is_open (s_db (ms_sys m)) \<and> l \<noteq> LClose \<longrightarrow>
       flow_mset (ms_sys m) (ms_sys m') \<and> (in_order l \<longrightarrow> flow (ms_sys m) (ms_sys m')))"
proof -
  obtain r0 where f: "i < length (ms_pcs m)" "fire l (as_reader i m) = Some r0"
      "r = bind_go r0 (\<lambda>s. Inr \<lparr>ms_sys = s, ms_pcs = (ms_pcs m)[i := s_pc s]\<rparr>)"
      and turn: "enters l \<longrightarrow> (\<forall>pc \<in> set (ms_pcs m). \<not> busy pc)"
    using fire_turnsE [OF assms(4)] by blast
  have i: "sys_safe (as_reader i m)" using assms(1) f(1) by (simp add: many_inv_def)
  obtain s' where s': "r0 = Inr s'" "kept (as_reader i m) s'"
    using fire_kept [OF i assms(2) _ f(2)] assms(3) by auto
  have step: "fire l (as_reader i m) = Some (Inr s')" using f(2) s'(1) by simp
  let ?m = "\<lparr>ms_sys = s', ms_pcs = (ms_pcs m)[i := s_pc s']\<rparr>"
  have "sys_safe (as_reader j ?m)" if "j < length (ms_pcs ?m)" for j
  proof (cases "j = i")
    case True
    then show ?thesis using s'(2) f(1) by (simp add: as_reader_def kept_def sys_safe_def)
  next
    case False
    then show ?thesis
      using other_reader_safe [OF assms(1) f(1) _ False assms(2,3) step turn] that by (simp add: as_reader_def)
  qed
  moreover have "length (filter busy (ms_pcs ?m)) \<le> 1"
  proof -
    have n: "length (filter busy (ms_pcs ?m)) + one_if (busy (ms_pcs m ! i)) =
        length (filter busy (ms_pcs m)) + one_if (busy (s_pc s'))"
      using filter_update [OF f(1), of busy "s_pc s'"] by simp
    have le: "length (filter busy (ms_pcs m)) \<le> 1" using assms(1) by (simp add: many_inv_def)
    show ?thesis
    proof (cases "busy (s_pc s') \<and> \<not> busy (ms_pcs m ! i)")
      case True
      then have "enters l" using becomes_busy [OF step] by simp
      then have "filter busy (ms_pcs m) = []" using turn by (simp add: filter_empty_conv)
      then show ?thesis using n True by (simp add: one_if_def)
    next
      case False
      then show ?thesis using n le by (simp add: one_if_def split: if_splits)
    qed
  qed
  ultimately have "many_inv ?m" by (simp add: many_inv_def)
  moreover have "flow_mset (as_reader i m) s' \<and> (in_order l \<longrightarrow> flow (as_reader i m) s')"
    if "is_open (s_db (ms_sys m))" "l \<noteq> LClose"
    using fire_flow [OF i assms(2) _ step] that assms(3) by simp
  ultimately show ?thesis using f(3) s' by (auto simp: kept_def flow_def flow_mset_def)
qed

interpretation many_readers:
  guarded_system fire_turns "\<lambda>(i, l). valid_label l" many_inv "\<lambda>m. db_clock (s_db (ms_sys m))" counter_limit
proof unfold_locales
  fix m m' p and k :: "nat \<times> label"
  obtain i l where k: "k = (i, l)" by fastforce
  assume a: "many_inv m" "case k of (i, l) \<Rightarrow> valid_label l" "db_clock (s_db (ms_sys m)) < counter_limit"
  then have v: "valid_label l" by (simp add: k)
  show "fire_turns k m \<noteq> Some (Inl p)" unfolding k using turns_keep [OF a(1) v a(3)] by blast
  assume "fire_turns k m = Some (Inr m')"
  then show "many_inv m'" "db_clock (s_db (ms_sys m')) \<le> db_clock (s_db (ms_sys m)) + 1"
    unfolding k using turns_keep [OF a(1) v a(3)] by blast+
qed

lemma exec_many_flow:
  assumes "exec fire_turns ls m m'" "many_inv m" "is_open (s_db (ms_sys m))"
    "\<forall>(i, l) \<in> set ls. valid_label l \<and> l \<noteq> LClose" "db_clock (s_db (ms_sys m)) + int (length ls) \<le> counter_limit"
  shows "flow_mset (ms_sys m) (ms_sys m') \<and> ((\<forall>(i, l) \<in> set ls. in_order l) \<longrightarrow> flow (ms_sys m) (ms_sys m'))"
  using assms
proof (induction rule: exec.induct)
  case (exec_done m)
  then show ?case by (simp add: flow_mset_def flow_def)
next
  case (exec_step ls m m1 k m2)
  obtain i l where k: "k = (i, l)" by fastforce
  have pre: "flow_mset (ms_sys m) (ms_sys m1) \<and> ((\<forall>(i, l) \<in> set ls. in_order l) \<longrightarrow> flow (ms_sys m) (ms_sys m1))"
    using exec_step by auto
  have "\<forall>x \<in> set ls. case x of (i, l) \<Rightarrow> valid_label l" using exec_step.prems(3) by auto
  then have "many_inv m1" "db_clock (s_db (ms_sys m1)) < counter_limit"
    using many_readers.exec_inv [OF exec_step.hyps(1) exec_step.prems(1)] exec_step.prems(3,4) by auto
  then have post: "flow_mset (ms_sys m1) (ms_sys m2) \<and> (in_order l \<longrightarrow> flow (ms_sys m1) (ms_sys m2))"
    using turns_keep [of m1 l i "Inr m2"] exec_step.hyps(2) exec_step.prems(3) pre by (auto simp: k flow_mset_def)
  show ?case
    using pre post flow_trans [of "ms_sys m" "ms_sys m1" "ms_sys m2"] flow_mset_trans [of "ms_sys m" "ms_sys m1" "ms_sys m2"]
    by (auto simp: k)
qed

section \<open>Runs\<close>

definition demo_many :: "nat \<Rightarrow> ((nat \<times> label) \<Rightarrow> msys \<Rightarrow> msys go option) \<Rightarrow> (nat \<times> label) list \<Rightarrow> msys go option" where
  "demo_many n fire0 ls =
     (case open_buffer 1 sample_condition [] 0 sample_memory ZeroCopyRead of
        None \<Rightarrow> None
      | Some d \<Rightarrow> run_labels fire0 ls (many_start n d))"

lemma demo_many_exec:
  "demo_many n fire0 ls = Some (Inr m) \<Longrightarrow>
   \<exists>d. open_buffer 1 sample_condition [] 0 sample_memory ZeroCopyRead = Some d \<and> exec fire0 ls (many_start n d) m"
  by (auto simp: demo_many_def intro: run_labels_exec split: option.splits)

lemma observe: "map_option (map_sum id f) r = Some (Inr x) \<Longrightarrow> \<exists>s. r = Some (Inr s) \<and> f s = x"
  by (cases r; cases "the r"; simp)

text \<open>Three messages in two switched rings; the last one is in the active ring.\<close>

definition demo_filled :: "(nat \<times> label) list" where
  "demo_filled = map (Pair 0) [demo_write 1, demo_write 2, demo_write 3, LNumber 0, LNumber 0, LPush 0, LPush 0]"

section \<open>Properties\<close>



text \<open>
  Without turns a buffer is lost: both consumers are in the loop of \<open>pickBufferFromHeap\<close>, and the second assignment
  of \<open>currentBuffer\<close> overwrites the first. Three messages were accepted; the second one is delivered, and only the
  third is left inside.
\<close>

theorem overlapping_readers_lose_buffer:
  "map_option (map_sum id (\<lambda>s. (map snd (s_written (ms_sys s)), map snd (s_delivered (ms_sys s)), length (content (s_db (ms_sys s))))))
     (demo_many 2 fire_many (demo_filled @ [(0, LBegin), (1, LBegin), (0, LPick), (1, LPick), (0, LRead None 0)])) =
   Some (Inr ([[1, 7], [2, 7], [3, 7]], [[2, 7]], 1))"
  by code_simp

text \<open>
  And a nil pointer is dereferenced: while one consumer is about to read, another one finds the buffer exhausted and
  sets \<open>currentBuffer\<close> to nil.
\<close>

theorem overlapping_readers_panic:
  "map_option (map_sum id (\<lambda>s. ()))
     (demo_many 2 fire_many
       [(0, demo_write 1), (0, demo_write 2), (0, LNumber 0), (0, LPush 0),
        (0, LBegin), (0, LPick), (1, LBegin), (0, LRead None 0), (0, LBegin), (1, LRead None 0)]) =
   Some (Inl NilDereference)"
  by code_simp

end
