(* ===== verification/Write_Race.thy ===== *)
theory Write_Race
  imports Buffer_Invariant Exec_Spec
begin

text \<open>
  \<open>Write\<close>, \<open>switchChannel\<close>, the loop of \<open>swapMonitor\<close> and \<open>Close\<close> of \<open>src/core/double_buffer.go\<close> at the granularity of
  their accesses to shared memory, for any number of goroutines. \<open>Buffer_System\<close> takes a call as one
  step; here a writer can be interrupted between loading \<open>d.active\<close> and writing through the pointer, between
  the write and \<open>d.count.Add(1)\<close>, or anywhere in a switch. Rings are references into a store, because a
  goroutine may hold a pointer to a ring that has been switched out since. \<open>Push\<close> of a ring is one step
  (\<open>Push_Race\<close> has its instructions, \<open>Fine_Race\<close> puts them in here).

  What happens to a ring that was switched out (sequence numbers, heap, notification) is the subject of
  the other theories: here \<open>rc_spawned\<close> are the rings handed to the goroutines of switches, and the
  consumer takes them from there, pops items and puts the empty ring back into the pool.
\<close>

section \<open>Program points\<close>

text \<open>
  \<open>switchChannel\<close>: the compare-and-swap of the state, \<open>switchLock.Lock\<close>, marking the active ring, \<open>pool.Get\<close>,
  \<open>swapChannels\<close>, resetting the count, storing the time, starting the goroutine, and the deferred store of the
  state and \<open>Unlock\<close>.
\<close>

datatype switch_pc =
    SCas | SLock | SMark | SGet | SSwap nat | SCount nat | STime nat | SGo nat | SState | SUnlock | SEnd

datatype write_pc =
    WStart | WFastCheck | WLoadActive | WFastWrite nat | WFastCount
  | WLock | WGetState | WSwitch switch_pc | WReload | WSlowWrite nat | WSlowCount
  | WUnlock "ts_error option" | WDone "ts_error option"

datatype monitor_pc = MLoop | MSwitch switch_pc | MExit

datatype close_pc = CCas | CStop | CPutActive | CPutPassive | CWait | CDrain | CDone

text \<open>
  A goroutine: a call of \<open>Write\<close> with the item it has prepared, the monitor with the number of ticks its ticker
  will still deliver, or a call of \<open>Close\<close>.
\<close>

datatype thread = Writer buffer_item write_pc | Monitor nat monitor_pc | Closer close_pc

record races =
  rc_mem :: "nat \<Rightarrow> smart_buffer"
  rc_next :: nat
  rc_active :: nat
  rc_passive :: nat
  rc_pool :: "nat list"
  rc_spawned :: "nat list"
  rc_current :: "nat option"
  rc_size :: int
  rc_count :: int
  rc_state :: int
  rc_lastSwitch :: int
  rc_writeLock :: "nat option"
  rc_switchLock :: "nat option"
  rc_stop :: bool
  rc_threads :: "thread list"
  rc_delivered :: "buffer_item list"

section \<open>Steps\<close>

definition ring_pool_get :: "nat option \<Rightarrow> races \<Rightarrow> (nat \<times> races) go" where
  "ring_pool_get choice s =
     (case choice of
        Some k \<Rightarrow>
          if k < length (rc_pool s) then Inr (rc_pool s ! k, s\<lparr>rc_pool := remove_nth k (rc_pool s)\<rparr>)
          else bind_go (NewSmartBuffer (rc_size s)) (\<lambda>b.
            Inr (rc_next s, s\<lparr>rc_mem := (rc_mem s)(rc_next s := b), rc_next := Suc (rc_next s)\<rparr>))
      | None \<Rightarrow>
          bind_go (NewSmartBuffer (rc_size s)) (\<lambda>b.
            Inr (rc_next s, s\<lparr>rc_mem := (rc_mem s)(rc_next s := b), rc_next := Suc (rc_next s)\<rparr>)))"

fun switch_step :: "nat \<Rightarrow> nat option \<Rightarrow> int \<Rightarrow> switch_pc \<Rightarrow> races \<Rightarrow> (switch_pc \<times> races) go option" where
  "switch_step i choice now SCas s =
     Some (Inr (if rc_state s = WritingState then (SLock, s\<lparr>rc_state := SwitchingState\<rparr>) else (SEnd, s)))"
| "switch_step i choice now SLock s =
     (if rc_switchLock s = None then Some (Inr (SMark, s\<lparr>rc_switchLock := Some i\<rparr>)) else None)"
| "switch_step i choice now SMark s =
     Some (Inr (SGet, s\<lparr>rc_mem := (rc_mem s)(rc_active s := SetState ReadOnly (rc_mem s (rc_active s)))\<rparr>))"
| "switch_step i choice now SGet s =
     Some (bind_go (ring_pool_get choice s) (\<lambda>(nb, s1). Inr (SSwap nb, s1)))"
| "switch_step i choice now (SSwap nb) s =
     Some (Inr (SCount (rc_active s), s\<lparr>rc_active := rc_passive s, rc_passive := nb\<rparr>))"
| "switch_step i choice now (SCount b) s = Some (Inr (STime b, s\<lparr>rc_count := 0\<rparr>))"
| "switch_step i choice now (STime b) s = Some (Inr (SGo b, s\<lparr>rc_lastSwitch := UnixMilli now\<rparr>))"
| "switch_step i choice now (SGo b) s = Some (Inr (SState, s\<lparr>rc_spawned := rc_spawned s @ [b]\<rparr>))"
| "switch_step i choice now SState s = Some (Inr (SUnlock, s\<lparr>rc_state := WritingState\<rparr>))"
| "switch_step i choice now SUnlock s = Some (Inr (SEnd, s\<lparr>rc_switchLock := None\<rparr>))"
| "switch_step i choice now SEnd s = None"

text \<open>\<open>r.Write(item)\<close> through a pointer to the ring \<open>r\<close>, and \<open>d.count.Add(1)\<close>.\<close>

definition ring_write :: "nat \<Rightarrow> buffer_item \<Rightarrow> races \<Rightarrow> (ts_error option \<times> races) go" where
  "ring_write r item s =
     bind_go (Write_sb item (rc_mem s r)) (\<lambda>(err, b). Inr (err, s\<lparr>rc_mem := (rc_mem s)(r := b)\<rparr>))"

definition count_up :: "races \<Rightarrow> races" where
  "count_up s = s\<lparr>rc_count := wrap32 (rc_count s + 1)\<rparr>"

fun write_step ::
    "nat \<Rightarrow> nat option \<Rightarrow> int \<Rightarrow> buffer_item \<Rightarrow> write_pc \<Rightarrow> races \<Rightarrow> (write_pc \<times> races) go option" where
  "write_step i choice now item WStart s =
     Some (Inr (if rc_state s = ClosedState then WDone (Some ErrBufferClose) else WFastCheck, s))"
| "write_step i choice now item WFastCheck s =
     Some (Inr (if rc_state s = WritingState then WLoadActive else WLock, s))"
| "write_step i choice now item WLoadActive s = Some (Inr (WFastWrite (rc_active s), s))"
| "write_step i choice now item (WFastWrite r) s =
     Some (bind_go (ring_write r item s) (\<lambda>(err, s1). Inr (if err = None then WFastCount else WLock, s1)))"
| "write_step i choice now item WFastCount s = Some (Inr (WDone None, count_up s))"
| "write_step i choice now item WLock s =
     (if rc_writeLock s = None then Some (Inr (WGetState, s\<lparr>rc_writeLock := Some i\<rparr>)) else None)"
| "write_step i choice now item WGetState s =
     Some (Inr (if GetState (rc_mem s (rc_active s)) = ReadOnly then WSwitch SCas else WReload, s))"
| "write_step i choice now item (WSwitch p) s =
     (if p = SEnd then Some (Inr (WReload, s))
      else map_option (\<lambda>r. bind_go r (\<lambda>(p1, s1). Inr (WSwitch p1, s1))) (switch_step i choice now p s))"
| "write_step i choice now item WReload s = Some (Inr (WSlowWrite (rc_active s), s))"
| "write_step i choice now item (WSlowWrite r) s =
     Some (bind_go (ring_write r item s) (\<lambda>(err, s1). Inr (if err = None then WSlowCount else WUnlock err, s1)))"
| "write_step i choice now item WSlowCount s = Some (Inr (WUnlock None, count_up s))"
| "write_step i choice now item (WUnlock err) s = Some (Inr (WDone err, s\<lparr>rc_writeLock := None\<rparr>))"
| "write_step i choice now item (WDone err) s = None"

text \<open>
  The monitor: the \<open>select\<close> of its loop chooses the closed channel \<open>stop\<close> or a tick; \<open>need\<close> is the answer of
  \<open>needSwitch\<close>. (When both are ready, a tick without need changes nothing and the loop comes back to the same
  choice, so it is left out.)
\<close>

fun monitor_step ::
    "nat \<Rightarrow> nat option \<Rightarrow> int \<Rightarrow> bool \<Rightarrow> nat \<Rightarrow> monitor_pc \<Rightarrow> races \<Rightarrow> ((nat \<times> monitor_pc) \<times> races) go option" where
  "monitor_step i choice now need ticks MLoop s =
     (if ticks = 0 then (if rc_stop s then Some (Inr ((0, MExit), s)) else None)
      else if rc_stop s \<and> \<not> need then Some (Inr ((ticks, MExit), s))
      else Some (Inr ((ticks - 1, if need then MSwitch SCas else MLoop), s)))"
| "monitor_step i choice now need ticks (MSwitch p) s =
     (if p = SEnd then Some (Inr ((ticks, MLoop), s))
      else map_option (\<lambda>r. bind_go r (\<lambda>(p1, s1). Inr ((ticks, MSwitch p1), s1))) (switch_step i choice now p s))"
| "monitor_step i choice now need ticks MExit s = None"

fun monitor_gone :: "thread \<Rightarrow> bool" where
  "monitor_gone (Monitor ticks pc) = (pc = MExit)"
| "monitor_gone _ = True"

text \<open>\<open>Close\<close>: \<open>wg.Wait\<close> blocks until the monitor has returned; draining puts the pending rings into the pool.\<close>

fun close_step :: "close_pc \<Rightarrow> races \<Rightarrow> (close_pc \<times> races) go option" where
  "close_step CCas s =
     Some (Inr (if rc_state s = WritingState then (CStop, s\<lparr>rc_state := ClosedState\<rparr>) else (CDone, s)))"
| "close_step CStop s =
     Some (if rc_stop s then Inl CloseOfClosedChannel else Inr (CPutActive, s\<lparr>rc_stop := True\<rparr>))"
| "close_step CPutActive s = Some (Inr (CPutPassive, s\<lparr>rc_pool := rc_pool s @ [rc_active s]\<rparr>))"
| "close_step CPutPassive s = Some (Inr (CWait, s\<lparr>rc_pool := rc_pool s @ [rc_passive s]\<rparr>))"
| "close_step CWait s = (if list_all monitor_gone (rc_threads s) then Some (Inr (CDrain, s)) else None)"
| "close_step CDrain s = Some (Inr (CDone, s\<lparr>rc_pool := rc_pool s @ rc_spawned s, rc_spawned := []\<rparr>))"
| "close_step CDone s = None"

fun thread_step ::
    "nat \<Rightarrow> nat option \<Rightarrow> int \<Rightarrow> bool \<Rightarrow> thread \<Rightarrow> races \<Rightarrow> (thread \<times> races) go option" where
  "thread_step i choice now need (Writer item pc) s =
     map_option (\<lambda>r. bind_go r (\<lambda>(pc1, s1). Inr (Writer item pc1, s1))) (write_step i choice now item pc s)"
| "thread_step i choice now need (Monitor ticks pc) s =
     map_option (\<lambda>r. bind_go r (\<lambda>((n, pc1), s1). Inr (Monitor n pc1, s1))) (monitor_step i choice now need ticks pc s)"
| "thread_step i choice now need (Closer pc) s =
     map_option (\<lambda>r. bind_go r (\<lambda>(pc1, s1). Inr (Closer pc1, s1))) (close_step pc s)"

text \<open>
  A label is a step of the goroutine \<open>i\<close>, or one of the consumer: it takes a ring that was switched out, pops an
  item, or puts the exhausted ring back into the pool.
\<close>

datatype race_label = Go nat "nat option" int bool | Take nat | PopItem | Recycle

fun fire_writes :: "race_label \<Rightarrow> races \<Rightarrow> races go option" where
  "fire_writes (Go i choice now need) s =
     (if i < length (rc_threads s) then
        map_option (\<lambda>r. bind_go r (\<lambda>(t, s1). Inr (s1\<lparr>rc_threads := (rc_threads s)[i := t]\<rparr>)))
          (thread_step i choice now need (rc_threads s ! i) s)
      else None)"
| "fire_writes (Take k) s =
     (if k < length (rc_spawned s) \<and> rc_current s = None
      then Some (Inr (s\<lparr>rc_current := Some (rc_spawned s ! k), rc_spawned := remove_nth k (rc_spawned s)\<rparr>))
      else None)"
| "fire_writes PopItem s =
     (case rc_current s of
        None \<Rightarrow> None
      | Some r \<Rightarrow>
          if Len (rc_mem s r) = 0 then None
          else Some (bind_go (Pop (rc_mem s r)) (\<lambda>((ptr, sz), b).
            Inr (s\<lparr>rc_mem := (rc_mem s)(r := b),
                   rc_delivered := rc_delivered s @ [\<lparr>bi_Ptr = ptr, bi_Size = sz\<rparr>]\<rparr>))))"
| "fire_writes Recycle s =
     (case rc_current s of
        None \<Rightarrow> None
      | Some r \<Rightarrow>
          if Len (rc_mem s r) = 0
          then Some (Inr (s\<lparr>rc_mem := (rc_mem s)(r := Reset (rc_mem s r)), rc_current := None,
                            rc_pool := rc_pool s @ [r]\<rparr>))
          else None)"

text \<open>A new buffer and the goroutines that will work on it: the items of the writers, ticks of the monitor, closers.\<close>

definition race_start :: "int \<Rightarrow> buffer_item list \<Rightarrow> nat \<Rightarrow> nat \<Rightarrow> races go" where
  "race_start sz items ticks closers =
     bind_go (NewSmartBuffer sz) (\<lambda>b.
       Inr \<lparr>rc_mem = (\<lambda>_. b), rc_next = 2, rc_active = 0, rc_passive = 1, rc_pool = [], rc_spawned = [],
            rc_current = None, rc_size = sz, rc_count = 0, rc_state = WritingState, rc_lastSwitch = 0,
            rc_writeLock = None, rc_switchLock = None, rc_stop = False,
            rc_threads = Monitor ticks MLoop # map (\<lambda>x. Writer x WStart) items @ replicate closers (Closer CCas),
            rc_delivered = []\<rparr>)"

section \<open>Who is where\<close>

lemma bind_go_iff:
  "bind_go r f = Inr y \<longleftrightarrow> (\<exists>x. r = Inr x \<and> f x = Inr y)"
  "bind_go r f = Inl p \<longleftrightarrow> r = Inl p \<or> (\<exists>x. r = Inr x \<and> f x = Inl p)"
  by (cases r; simp add: bind_go_def)+

fun switch_pc_of :: "thread \<Rightarrow> switch_pc" where
  "switch_pc_of (Writer item (WSwitch p)) = p"
| "switch_pc_of (Monitor ticks (MSwitch p)) = p"
| "switch_pc_of _ = SEnd"

definition inside :: "switch_pc \<Rightarrow> bool" where
  "inside p \<longleftrightarrow> p \<noteq> SCas \<and> p \<noteq> SUnlock \<and> p \<noteq> SEnd"

definition has_switch_lock :: "switch_pc \<Rightarrow> bool" where
  "has_switch_lock p \<longleftrightarrow> p \<noteq> SCas \<and> p \<noteq> SLock \<and> p \<noteq> SEnd"

fun has_write_lock :: "thread \<Rightarrow> bool" where
  "has_write_lock (Writer item pc) =
     (case pc of WGetState \<Rightarrow> True | WSwitch p \<Rightarrow> True | WReload \<Rightarrow> True | WSlowWrite r \<Rightarrow> True | WSlowCount \<Rightarrow> True
      | WUnlock err \<Rightarrow> True | _ \<Rightarrow> False)"
| "has_write_lock _ = False"

text \<open>Rings in the hands of a goroutine that switches: a new one, or the one that was active.\<close>

fun new_ring :: "switch_pc \<Rightarrow> nat list" where
  "new_ring (SSwap nb) = [nb]"
| "new_ring _ = []"

fun old_ring :: "switch_pc \<Rightarrow> nat list" where
  "old_ring (SCount b) = [b]"
| "old_ring (STime b) = [b]"
| "old_ring (SGo b) = [b]"
| "old_ring _ = []"

text \<open>The ring a writer points to, and the item of a call that has been accepted.\<close>

fun pointed :: "thread \<Rightarrow> nat list" where
  "pointed (Writer item (WFastWrite r)) = [r]"
| "pointed (Writer item (WSlowWrite r)) = [r]"
| "pointed _ = []"

fun accepted_by :: "thread \<Rightarrow> buffer_item list" where
  "accepted_by (Writer item pc) =
     (case pc of WFastCount \<Rightarrow> [item] | WSlowCount \<Rightarrow> [item] | WUnlock None \<Rightarrow> [item] | WDone None \<Rightarrow> [item] | _ \<Rightarrow> [])"
| "accepted_by _ = []"

definition accepted :: "races \<Rightarrow> buffer_item list" where
  "accepted s = concat (map accepted_by (rc_threads s))"

text \<open>Case analysis of one step of a goroutine.\<close>

fun_cases switch_stepE: "switch_step i choice now p s = Some (Inr (p', s'))"

lemmas step_splits = if_splits prod.splits sum.splits option.splits

section \<open>Locks\<close>

lemma ring_pool_get_frame:
  "ring_pool_get choice s = Inr (nb, s') \<Longrightarrow>
   rc_state s' = rc_state s \<and> rc_switchLock s' = rc_switchLock s \<and> rc_writeLock s' = rc_writeLock s \<and>
   rc_stop s' = rc_stop s \<and> rc_threads s' = rc_threads s \<and> rc_size s' = rc_size s \<and> rc_active s' = rc_active s \<and>
   rc_passive s' = rc_passive s \<and> rc_spawned s' = rc_spawned s \<and> rc_current s' = rc_current s \<and>
   rc_delivered s' = rc_delivered s"
  by (auto simp: ring_pool_get_def bind_go_iff split: step_splits)

lemma ring_write_frame:
  "ring_write r item s = Inr (err, s') \<Longrightarrow> \<exists>b. s' = s\<lparr>rc_mem := (rc_mem s)(r := b)\<rparr>"
  by (auto simp: ring_write_def bind_go_iff split: step_splits)

text \<open>
  What a step does to the locks and the state: only a goroutine that goes through \<open>switchLock.Lock\<close> takes the
  lock, and only from the free lock; the state is \<open>SwitchingState\<close> for as long as one is inside.
\<close>

definition lock_effect :: "nat \<Rightarrow> switch_pc \<Rightarrow> races \<Rightarrow> switch_pc \<Rightarrow> races \<Rightarrow> bool" where
  "lock_effect i p s p' s' \<longleftrightarrow>
     rc_threads s' = rc_threads s \<and> rc_stop s' = rc_stop s \<and>
     (rc_switchLock s' = rc_switchLock s \<and> has_switch_lock p' = has_switch_lock p \<or>
      rc_switchLock s = None \<and> rc_switchLock s' = Some i \<and> has_switch_lock p' \<or>
      rc_switchLock s' = None \<and> has_switch_lock p \<and> \<not> has_switch_lock p') \<and>
     (rc_state s' = rc_state s \<and> inside p' = inside p \<or>
      rc_state s = WritingState \<and> rc_state s' = SwitchingState \<and> \<not> inside p \<and> inside p' \<or>
      rc_state s' = WritingState \<and> inside p \<and> \<not> inside p')"

lemma switch_lock_effect:
  assumes "switch_step i choice now p s = Some (Inr (p', s'))"
  shows "lock_effect i p s p' s' \<and> rc_writeLock s' = rc_writeLock s"
  using assms
  by (cases p) (auto simp: lock_effect_def has_switch_lock_def inside_def bind_go_iff split: step_splits
      dest!: ring_pool_get_frame)

definition locks_step :: "nat \<Rightarrow> thread \<Rightarrow> races \<Rightarrow> thread \<Rightarrow> races \<Rightarrow> bool" where
  "locks_step i t s t' s' \<longleftrightarrow>
     (let p = switch_pc_of t; p' = switch_pc_of t' in
     (rc_switchLock s' = rc_switchLock s \<and> has_switch_lock p' = has_switch_lock p \<or>
      rc_switchLock s = None \<and> rc_switchLock s' = Some i \<and> has_switch_lock p' \<or>
      rc_switchLock s' = None \<and> has_switch_lock p \<and> \<not> has_switch_lock p') \<and>
     (rc_writeLock s' = rc_writeLock s \<and> has_write_lock t' = has_write_lock t \<or>
      rc_writeLock s = None \<and> rc_writeLock s' = Some i \<and> has_write_lock t' \<or>
      rc_writeLock s' = None \<and> has_write_lock t \<and> \<not> has_write_lock t') \<and>
     (rc_state s' = rc_state s \<and> inside p' = inside p \<or>
      rc_state s = WritingState \<and> rc_state s' = SwitchingState \<and> \<not> inside p \<and> inside p' \<or>
      rc_state s' = WritingState \<and> inside p \<and> \<not> inside p' \<or>
      rc_state s = WritingState \<and> rc_state s' = ClosedState \<and> \<not> inside p \<and> \<not> inside p'))"

lemma pc_simps [simp]:
  "\<not> inside SCas" "\<not> inside SEnd" "\<not> inside SUnlock" "\<not> has_switch_lock SCas" "\<not> has_switch_lock SEnd"
  by (simp_all add: inside_def has_switch_lock_def)

lemma writer_locks:
  assumes "write_step i choice now item pc s = Some (Inr (pc', s'))"
  shows "locks_step i (Writer item pc) s (Writer item pc') s'"
proof (cases "\<exists>p. pc = WSwitch p \<and> p \<noteq> SEnd")
  case True
  then obtain p where p: "pc = WSwitch p" "p \<noteq> SEnd" by blast
  then obtain p' where "pc' = WSwitch p'" "switch_step i choice now p s = Some (Inr (p', s'))"
    using assms by (auto simp: bind_go_iff split: step_splits)
  then show ?thesis using switch_lock_effect [of i choice now p s p' s'] p
    by (simp add: locks_step_def lock_effect_def) blast
next
  case False
  then show ?thesis
    using assms by (cases pc) (auto simp: locks_step_def count_up_def bind_go_iff split: step_splits dest!: ring_write_frame)
qed

lemma monitor_locks:
  assumes "monitor_step i choice now need ticks pc s = Some (Inr ((n', pc'), s'))"
  shows "locks_step i (Monitor ticks pc) s (Monitor n' pc') s'"
proof (cases "\<exists>p. pc = MSwitch p \<and> p \<noteq> SEnd")
  case True
  then obtain p where p: "pc = MSwitch p" "p \<noteq> SEnd" by blast
  then obtain p' where "pc' = MSwitch p'" "switch_step i choice now p s = Some (Inr (p', s'))"
    using assms by (auto simp: bind_go_iff split: step_splits)
  then show ?thesis using switch_lock_effect [of i choice now p s p' s'] p
    by (simp add: locks_step_def lock_effect_def) blast
next
  case False
  then show ?thesis using assms by (cases pc) (auto simp: locks_step_def split: step_splits)
qed

lemma thread_stepE:
  assumes "thread_step i choice now need t s = Some (Inr (t', s'))"
  obtains item pc pc' where "t = Writer item pc" "t' = Writer item pc'" "write_step i choice now item pc s = Some (Inr (pc', s'))"
  | ticks pc n' pc' where "t = Monitor ticks pc" "t' = Monitor n' pc'"
      "monitor_step i choice now need ticks pc s = Some (Inr ((n', pc'), s'))"
  | pc pc' where "t = Closer pc" "t' = Closer pc'" "close_step pc s = Some (Inr (pc', s'))"
  using assms by (cases t) (auto simp: bind_go_iff split: step_splits)

lemma thread_locks:
  assumes "thread_step i choice now need t s = Some (Inr (t', s'))"
  shows "locks_step i t s t' s'"
  using assms
proof (cases rule: thread_stepE)
  case (1 item pc pc')
  then show ?thesis using writer_locks by simp
next
  case (2 ticks pc n' pc')
  then show ?thesis using monitor_locks by simp
next
  case (3 pc pc')
  then show ?thesis by (cases pc) (auto simp: locks_step_def split: step_splits)
qed

text \<open>The locks agree with the goroutines, and one goroutine is inside exactly while the state is switching.\<close>

definition owner_ok :: "(thread \<Rightarrow> bool) \<Rightarrow> nat option \<Rightarrow> thread list \<Rightarrow> bool" where
  "owner_ok P lock ts \<longleftrightarrow>
     (\<forall>i < length ts. P (ts ! i) \<longleftrightarrow> lock = Some i) \<and> (\<forall>i. lock = Some i \<longrightarrow> i < length ts)"

definition lock_inv :: "races \<Rightarrow> bool" where
  "lock_inv s \<longleftrightarrow>
     owner_ok (has_switch_lock \<circ> switch_pc_of) (rc_switchLock s) (rc_threads s) \<and>
     owner_ok has_write_lock (rc_writeLock s) (rc_threads s) \<and>
     length (filter (inside \<circ> switch_pc_of) (rc_threads s)) = one_if (rc_state s = SwitchingState) \<and>
     rc_state s \<in> {WritingState, SwitchingState, ClosedState}"

lemma owner_step:
  assumes "owner_ok P lock ts" "i < length ts"
    and "lock' = lock \<and> P t' = P (ts ! i) \<or> lock = None \<and> lock' = Some i \<and> P t' \<or>
         lock' = None \<and> P (ts ! i) \<and> \<not> P t'"
  shows "owner_ok P lock' (ts[i := t'])"
  using assms by (auto simp: owner_ok_def nth_list_update)

lemma inside_none:
  "length (filter P xs) = 0 \<Longrightarrow> i < length xs \<Longrightarrow> \<not> P (xs ! i)"
  by (metis length_0_conv filter_empty_conv nth_mem)

lemma const_distinct [simp]: "SwitchingState \<noteq> WritingState" "SwitchingState \<noteq> ClosedState" "ClosedState \<noteq> SwitchingState"
  by (simp_all add: WritingState_def ClosedState_def SwitchingState_def)

lemma inside_switching:
  assumes "lock_inv s" "i < length (rc_threads s)" "inside (switch_pc_of (rc_threads s ! i))"
  shows "rc_state s = SwitchingState"
  using inside_none [of "inside \<circ> switch_pc_of" "rc_threads s" i] assms
  by (auto simp: lock_inv_def one_if_def split: if_splits)

lemma lock_inv_exclusive:
  assumes "lock_inv s"
  shows "\<forall>i j. i < length (rc_threads s) \<and> j < length (rc_threads s) \<and>
      inside (switch_pc_of (rc_threads s ! i)) \<and> inside (switch_pc_of (rc_threads s ! j)) \<longrightarrow> i = j"
    "rc_state s = SwitchingState \<longleftrightarrow> (\<exists>t \<in> set (rc_threads s). inside (switch_pc_of t))"
    "\<forall>i j. i < length (rc_threads s) \<and> j < length (rc_threads s) \<and>
      has_write_lock (rc_threads s ! i) \<and> has_write_lock (rc_threads s ! j) \<longrightarrow> i = j"
proof -
  let ?ts = "rc_threads s" and ?in = "inside \<circ> switch_pc_of"
  have n: "length (filter ?in ?ts) = one_if (rc_state s = SwitchingState)" and w: "owner_ok has_write_lock (rc_writeLock s) ?ts"
    using assms by (simp_all add: lock_inv_def)
  show "\<forall>i j. i < length ?ts \<and> j < length ?ts \<and> inside (switch_pc_of (?ts ! i)) \<and> inside (switch_pc_of (?ts ! j)) \<longrightarrow> i = j"
  proof (intro allI impI)
    fix i j
    assume "i < length ?ts \<and> j < length ?ts \<and> inside (switch_pc_of (?ts ! i)) \<and> inside (switch_pc_of (?ts ! j))"
    then show "i = j" using at_most_one [of ?in ?ts i j] n by (simp add: one_if_def)
  qed
  have "rc_state s = SwitchingState \<longleftrightarrow> filter ?in ?ts \<noteq> []"
    using n by (cases "rc_state s = SwitchingState") (auto simp: one_if_def simp del: filter_empty_conv)
  then show "rc_state s = SwitchingState \<longleftrightarrow> (\<exists>t \<in> set ?ts. inside (switch_pc_of t))" by (auto simp: filter_empty_conv)
  show "\<forall>i j. i < length ?ts \<and> j < length ?ts \<and> has_write_lock (?ts ! i) \<and> has_write_lock (?ts ! j) \<longrightarrow> i = j"
    using w by (auto simp: owner_ok_def)
qed

lemma lock_inv_step:
  assumes "lock_inv s" "i < length (rc_threads s)" "locks_step i (rc_threads s ! i) s t' s'"
    "rc_threads s'' = (rc_threads s)[i := t']" "rc_switchLock s'' = rc_switchLock s'"
    "rc_writeLock s'' = rc_writeLock s'" "rc_state s'' = rc_state s'"
  shows "lock_inv s''"
proof -
  let ?ts = "rc_threads s"
  have o1: "owner_ok (has_switch_lock \<circ> switch_pc_of) (rc_switchLock s') (?ts[i := t'])"
    by (rule owner_step [where lock = "rc_switchLock s", OF _ assms(2)])
      (use assms(1,3) in \<open>simp_all add: lock_inv_def locks_step_def Let_def\<close>)
  have o2: "owner_ok has_write_lock (rc_writeLock s') (?ts[i := t'])"
    by (rule owner_step [where lock = "rc_writeLock s", OF _ assms(2)])
      (use assms(1,3) in \<open>simp_all add: lock_inv_def locks_step_def Let_def\<close>)
  let ?n = "length (filter (inside \<circ> switch_pc_of) ?ts)" and ?n' = "length (filter (inside \<circ> switch_pc_of) (?ts[i := t']))"
  have n: "?n' + one_if (inside (switch_pc_of (?ts ! i))) = ?n + one_if (inside (switch_pc_of t'))"
    using filter_update [OF assms(2), of "inside \<circ> switch_pc_of" t'] by simp
  have one: "?n = one_if (rc_state s = SwitchingState)" using assms(1) by (simp add: lock_inv_def)
  let ?p = "inside (switch_pc_of (?ts ! i))" and ?p' = "inside (switch_pc_of t')"
  have sw: "?p \<Longrightarrow> rc_state s = SwitchingState"
    by (rule inside_switching [OF assms(1,2)])
  then have "?n' = one_if (rc_state s' = SwitchingState) \<and> rc_state s' \<in> {WritingState, SwitchingState, ClosedState}"
  proof -
    consider "rc_state s' = rc_state s" "?p' = ?p" | "rc_state s = WritingState" "rc_state s' = SwitchingState" "\<not> ?p" "?p'"
      | "rc_state s' = WritingState" "?p" "\<not> ?p'" | "rc_state s = WritingState" "rc_state s' = ClosedState" "\<not> ?p" "\<not> ?p'"
      using assms(3) unfolding locks_step_def Let_def by blast
    then show ?thesis
    proof cases
      case 1
      then show ?thesis using n one assms(1) by (simp add: lock_inv_def)
    qed (use n one sw in \<open>simp_all add: one_if_def\<close>)
  qed
  with o1 o2 assms(4-7) show ?thesis by (simp add: lock_inv_def)
qed

lemma lock_inv_frame:
  "lock_inv s \<Longrightarrow> rc_threads s' = rc_threads s \<Longrightarrow> rc_switchLock s' = rc_switchLock s \<Longrightarrow>
   rc_writeLock s' = rc_writeLock s \<Longrightarrow> rc_state s' = rc_state s \<Longrightarrow> lock_inv s'"
  by (simp add: lock_inv_def)

lemma fire_GoE:
  assumes "fire_writes (Go i choice now need) s = Some (Inr s')"
  obtains t' s1 where "i < length (rc_threads s)" "thread_step i choice now need (rc_threads s ! i) s = Some (Inr (t', s1))"
    "s' = s1\<lparr>rc_threads := (rc_threads s)[i := t']\<rparr>"
  using assms by (auto simp: bind_go_iff split: step_splits)

lemma lock_inv_keeps:
  assumes "lock_inv s" "fire_writes l s = Some (Inr s')"
  shows "lock_inv s'"
proof (cases l)
  case (Go i choice now need)
  then obtain t' s1 where g: "i < length (rc_threads s)"
      "thread_step i choice now need (rc_threads s ! i) s = Some (Inr (t', s1))"
      "s' = s1\<lparr>rc_threads := (rc_threads s)[i := t']\<rparr>"
    using assms(2) fire_GoE by metis
  show ?thesis by (rule lock_inv_step [OF assms(1) g(1) thread_locks [OF g(2)]]) (simp_all add: g(3))
next
  case (Take k)
  then show ?thesis using assms by (auto split: if_splits intro: lock_inv_frame)
next
  case PopItem
  then show ?thesis using assms by (auto simp: bind_go_iff split: step_splits intro: lock_inv_frame)
next
  case Recycle
  then show ?thesis using assms by (auto split: step_splits intro: lock_inv_frame)
qed

section \<open>Rings\<close>

text \<open>
  Every ring has one place: active, passive, pool, handed over, being read, or in the hands of a
  goroutine. Rings that are handed over or read are read-only; only a ring at its start accepts writes.
\<close>

definition ring_ok :: "int \<Rightarrow> smart_buffer \<Rightarrow> bool" where
  "ring_ok sz b \<longleftrightarrow> sb_inv b \<and> sb_capacity b = sz \<and>
     (sb_state b = WriteOnly \<and> sb_tail b = -1 \<or> sb_state b = ReadOnly)"

definition read_only :: "races \<Rightarrow> nat \<Rightarrow> bool" where
  "read_only s r \<longleftrightarrow> sb_state (rc_mem s r) = ReadOnly"

definition placed :: "races \<Rightarrow> nat list" where
  "placed s = rc_active s # rc_passive s # rc_spawned s @ (case rc_current s of None \<Rightarrow> [] | Some r \<Rightarrow> [r])"

definition in_hand :: "switch_pc \<Rightarrow> nat list" where
  "in_hand p = new_ring p @ old_ring p"

definition hands :: "thread list \<Rightarrow> nat list" where
  "hands ts = concat (map (in_hand \<circ> switch_pc_of) ts)"

definition ring_inv :: "races \<Rightarrow> nat list \<Rightarrow> bool" where
  "ring_inv s H \<longleftrightarrow>
     1 \<le> rc_size s \<and> rc_size s < 2 ^ 31 \<and> (\<forall>r < rc_next s. ring_ok (rc_size s) (rc_mem s r)) \<and>
     distinct (placed s @ H) \<and> (\<forall>r \<in> set (placed s @ H @ rc_pool s). r < rc_next s) \<and>
     (\<forall>r \<in> set (rc_spawned s) \<union> set_option (rc_current s). read_only s r) \<and>
     (rc_state s \<noteq> ClosedState \<longrightarrow>
        distinct (rc_pool s) \<and> set (rc_pool s) \<inter> set (placed s @ H) = {} \<and>
        (\<forall>r < rc_next s. r \<in> set (placed s @ H @ rc_pool s)))"

definition pc_ok :: "races \<Rightarrow> switch_pc \<Rightarrow> bool" where
  "pc_ok s p \<longleftrightarrow>
     (case p of SGet \<Rightarrow> read_only s (rc_active s) | SSwap nb \<Rightarrow> read_only s (rc_active s) | _ \<Rightarrow> True) \<and>
     (\<forall>r \<in> set (old_ring p). read_only s r) \<and> (inside p \<longrightarrow> rc_state s = SwitchingState)"

definition thread_ok :: "races \<Rightarrow> thread \<Rightarrow> bool" where
  "thread_ok s t \<longleftrightarrow> pc_ok s (switch_pc_of t) \<and> (\<forall>r \<in> set (pointed t). r < rc_next s)"

text \<open>The items in all rings.\<close>

definition stored :: "races \<Rightarrow> buffer_item multiset" where
  "stored s = (\<Sum>r < rc_next s. mset (sb_items (rc_mem s r)))"

lemma ring_inv_perm: "mset H = mset H' \<Longrightarrow> ring_inv s H \<longleftrightarrow> ring_inv s H'"
proof -
  assume eq: "mset H = mset H'"
  have "distinct (placed s @ H) \<longleftrightarrow> distinct (placed s @ H')"
    using eq by (intro mset_eq_imp_distinct_iff) simp
  moreover have "set H = set H'" using eq by (rule mset_eq_setD)
  ultimately show ?thesis by (simp add: ring_inv_def)
qed

lemma stored_update:
  assumes "r < rc_next s" "rc_mem s' = (rc_mem s)(r := b)" "rc_next s' = rc_next s"
  shows "stored s' + mset (sb_items (rc_mem s r)) = stored s + mset (sb_items b)"
proof -
  have 1: "stored s = mset (sb_items (rc_mem s r)) + (\<Sum>k \<in> {..<rc_next s} - {r}. mset (sb_items (rc_mem s k)))"
    unfolding stored_def using assms(1) by (intro sum.remove) auto
  have "stored s' = mset (sb_items (rc_mem s' r)) + (\<Sum>k \<in> {..<rc_next s} - {r}. mset (sb_items (rc_mem s' k)))"
    unfolding stored_def assms(3) using assms(1) by (intro sum.remove) auto
  also have "(\<Sum>k \<in> {..<rc_next s} - {r}. mset (sb_items (rc_mem s' k))) =
      (\<Sum>k \<in> {..<rc_next s} - {r}. mset (sb_items (rc_mem s k)))"
    by (rule sum.cong) (auto simp: assms(2))
  finally show ?thesis using 1 by (simp add: assms(2))
qed

text \<open>The effect of a step on the rings.\<close>

definition ring_step :: "nat list \<Rightarrow> switch_pc \<Rightarrow> races \<Rightarrow> switch_pc \<Rightarrow> races \<Rightarrow> bool" where
  "ring_step oth p s p' s' \<longleftrightarrow>
     ring_inv s' (in_hand p' @ oth) \<and> pc_ok s' p' \<and> rc_next s \<le> rc_next s' \<and>
     (\<forall>r < rc_next s. read_only s r \<longrightarrow> read_only s' r) \<and>
     (rc_active s' = rc_active s \<or> inside p) \<and> rc_delivered s' = rc_delivered s"

lemma fresh_ring: "1 \<le> sz \<Longrightarrow> sz < 2 ^ 31 \<Longrightarrow> \<exists>b. NewSmartBuffer sz = Inr b \<and> ring_ok sz b \<and> sb_items b = [] \<and> sb_count b = 0"
  by (simp add: NewSmartBuffer_def ring_ok_def sb_inv_def sb_items_def)

lemma ring_pool_get_ok:
  assumes "ring_inv s H" "rc_state s \<noteq> ClosedState"
  shows "\<exists>nb s'. ring_pool_get choice s = Inr (nb, s') \<and> ring_inv s' (nb # H) \<and> stored s' = stored s \<and>
    rc_next s \<le> rc_next s' \<and> (\<forall>r < rc_next s. rc_mem s' r = rc_mem s r)"
proof (cases "\<exists>k. choice = Some k \<and> k < length (rc_pool s)")
  case True
  then obtain k where k: "choice = Some k" "k < length (rc_pool s)" by blast
  let ?s = "s\<lparr>rc_pool := remove_nth k (rc_pool s)\<rparr>"
  have m: "mset (rc_pool s) = add_mset (rc_pool s ! k) (mset (remove_nth k (rc_pool s)))" by (rule mset_remove_nth [OF k(2)])
  then have m2: "mset (rc_pool s) = mset (rc_pool s ! k # remove_nth k (rc_pool s))" by simp
  have "distinct (rc_pool s) \<longleftrightarrow> distinct (rc_pool s ! k # remove_nth k (rc_pool s))"
    by (rule mset_eq_imp_distinct_iff [OF m2])
  moreover have "set (rc_pool s) = set (rc_pool s ! k # remove_nth k (rc_pool s))"
    by (rule mset_eq_setD [OF m2])
  ultimately have "ring_inv ?s (rc_pool s ! k # H)"
    using assms unfolding ring_inv_def placed_def read_only_def by (simp add: read_only_def)
  moreover have "ring_pool_get choice s = Inr (rc_pool s ! k, ?s)" using k by (simp add: ring_pool_get_def)
  moreover have "stored ?s = stored s" by (simp add: stored_def)
  moreover have "rc_next s \<le> rc_next ?s" "\<forall>r < rc_next s. rc_mem ?s r = rc_mem s r" by simp_all
  ultimately show ?thesis by blast
next
  case False
  have sz: "1 \<le> rc_size s" "rc_size s < 2 ^ 31" using assms(1) by (simp_all add: ring_inv_def)
  obtain b where b: "NewSmartBuffer (rc_size s) = Inr b" "ring_ok (rc_size s) b" "sb_items b = []"
    using fresh_ring [OF sz] by blast
  let ?s = "s\<lparr>rc_mem := (rc_mem s)(rc_next s := b), rc_next := Suc (rc_next s)\<rparr>"
  have g: "ring_pool_get choice s = Inr (rc_next s, ?s)"
    using False b(1) by (auto simp: ring_pool_get_def split: option.splits)
  have lt: "\<forall>r \<in> set (placed s @ H @ rc_pool s). r < rc_next s" using assms(1) by (simp add: ring_inv_def)
  have p: "placed ?s = placed s" by (simp add: placed_def)
  have "set (rc_spawned s) \<union> set_option (rc_current s) \<subseteq> set (placed s)" by (auto simp: placed_def split: option.splits)
  then have "\<forall>r \<in> set (rc_spawned s) \<union> set_option (rc_current s). read_only ?s r"
    using assms(1) lt by (fastforce simp: ring_inv_def read_only_def)
  then have "ring_inv ?s (rc_next s # H)"
    using assms b(2) lt unfolding ring_inv_def p by (auto simp: less_Suc_eq)
  moreover have "stored ?s = stored s" using b(3) by (simp add: stored_def)
  ultimately show ?thesis using g by auto
qed

lemma ring_mark:
  assumes "ring_ok sz b"
  shows "ring_ok sz (SetState ReadOnly b) \<and> sb_items (SetState ReadOnly b) = sb_items b"
  using assms by (auto simp: ring_ok_def SetState_def sb_inv_def sb_items_def)

text \<open>Changing one ring without making it writable.\<close>

lemma ring_inv_mem:
  assumes "ring_inv s H" "ring_ok (rc_size s) b" "read_only s r \<longrightarrow> sb_state b = ReadOnly"
  shows "ring_inv (s\<lparr>rc_mem := (rc_mem s)(r := b)\<rparr>) H"
  using assms by (auto simp: ring_inv_def placed_def read_only_def)

lemma switch_rings:
  assumes "switch_step i choice now p s = Some r" "ring_inv s (in_hand p @ oth)" "pc_ok s p"
  shows "\<exists>p' s'. r = Inr (p', s') \<and> ring_step oth p s p' s' \<and> stored s' = stored s"
proof (cases p)
  case SCas
  then show ?thesis
    using assms by (auto simp: ring_step_def ring_inv_def placed_def read_only_def in_hand_def pc_ok_def stored_def inside_def)
next
  case SLock
  then show ?thesis
    using assms by (auto simp: ring_step_def ring_inv_def placed_def read_only_def in_hand_def pc_ok_def stored_def inside_def
        split: if_splits)
next
  case SMark
  let ?b = "SetState ReadOnly (rc_mem s (rc_active s))" and ?s = "s\<lparr>rc_mem := (rc_mem s)(rc_active s := SetState ReadOnly (rc_mem s (rc_active s)))\<rparr>"
  have a: "rc_active s < rc_next s" "ring_ok (rc_size s) (rc_mem s (rc_active s))"
    using assms(2) by (auto simp: ring_inv_def placed_def)
  have "ring_inv ?s (in_hand SGet @ oth)"
    using ring_inv_mem [OF assms(2), of ?b "rc_active s"] ring_mark [OF a(2)] SMark by (simp add: in_hand_def SetState_def)
  moreover have "stored ?s = stored s" using stored_update [OF a(1), of ?s ?b] ring_mark [OF a(2)] by simp
  ultimately show ?thesis
    using assms(1,3) SMark by (auto simp: ring_step_def pc_ok_def read_only_def SetState_def inside_def)
next
  case SGet
  then have "rc_state s \<noteq> ClosedState" using assms(3) by (simp add: pc_ok_def inside_def)
  then obtain nb s' where g: "ring_pool_get choice s = Inr (nb, s')" "ring_inv s' (nb # in_hand SGet @ oth)"
      "stored s' = stored s" "rc_next s \<le> rc_next s'" "\<forall>r < rc_next s. rc_mem s' r = rc_mem s r"
    using ring_pool_get_ok [of s "in_hand SGet @ oth" choice] assms(2) SGet by auto
  have "rc_active s < rc_next s" using assms(2) by (simp add: ring_inv_def placed_def)
  then show ?thesis
    using g ring_pool_get_frame [OF g(1)] assms(1,3) SGet
    by (auto simp: ring_step_def pc_ok_def read_only_def in_hand_def inside_def)
next
  case (SSwap nb)
  then show ?thesis
    using assms by (auto simp: ring_step_def ring_inv_def placed_def read_only_def in_hand_def pc_ok_def stored_def inside_def)
next
  case (SGo b)
  then show ?thesis
    using assms by (auto simp: ring_step_def ring_inv_def placed_def read_only_def in_hand_def pc_ok_def stored_def inside_def)
qed (use assms in \<open>auto simp: ring_step_def ring_inv_def placed_def read_only_def in_hand_def pc_ok_def stored_def inside_def\<close>)

text \<open>A write through a pointer.\<close>

lemma ring_write_ok:
  assumes "ring_inv s H" "r < rc_next s"
  shows "\<exists>err s'. ring_write r item s = Inr (err, s') \<and> ring_inv s' H \<and> rc_next s' = rc_next s \<and>
    (\<forall>k. read_only s k \<longrightarrow> read_only s' k) \<and> rc_active s' = rc_active s \<and> rc_passive s' = rc_passive s \<and>
    rc_delivered s' = rc_delivered s \<and> rc_state s' = rc_state s \<and> rc_pool s' = rc_pool s \<and>
    (\<forall>k. k \<noteq> r \<longrightarrow> rc_mem s' k = rc_mem s k) \<and>
    stored s' = stored s + mset (if err = None then [item] else [])"
proof -
  let ?b = "rc_mem s r"
  have b: "sb_inv ?b" "sb_capacity ?b = rc_size s" "rc_size s < 2 ^ 31"
      "sb_state ?b = WriteOnly \<and> sb_tail ?b = -1 \<or> sb_state ?b = ReadOnly"
    using assms by (auto simp: ring_inv_def ring_ok_def)
  have open_ring: "sb_state ?b \<noteq> ClosedState"
    using b(4) by (auto simp: WriteOnly_def ReadOnly_def ClosedState_def)
  show ?thesis
  proof (cases "sb_state ?b = WriteOnly \<and> sb_count ?b < sb_capacity ?b")
    case True
    then have h: "sb_head ?b < 2 ^ 31 - 1" using b by (auto simp: sb_inv_def)
    let ?s = "s\<lparr>rc_mem := (rc_mem s)(r := pushed item ?b)\<rparr>"
    have "Push item ?b = Inr (None, pushed item ?b)" using True b h by (intro Push_accepted) auto
    then have w: "ring_write r item s = Inr (None, ?s)" using open_ring by (simp add: ring_write_def Write_sb_def)
    have ro: "\<not> read_only s r" using True by (simp add: read_only_def)
    have "ring_ok (rc_size s) (pushed item ?b)"
      using sb_inv_pushed [OF b(1) _ h] True b by (auto simp: ring_ok_def pushed_def)
    then have "ring_inv ?s H" using ring_inv_mem [OF assms(1)] ro by simp
    moreover have "stored ?s = stored s + {#item#}"
      using stored_update [OF assms(2), of ?s "pushed item ?b"] sb_items_pushed [OF b(1)] True by simp
    ultimately show ?thesis using w ro by (auto simp: read_only_def)
  next
    case False
    let ?c = "if sb_state ?b = WriteOnly then ?b\<lparr>sb_state := ReadOnly\<rparr> else ?b"
    let ?s = "s\<lparr>rc_mem := (rc_mem s)(r := ?c)\<rparr>"
    have "sb_state ?b = ReadOnly \<or> sb_count ?b = sb_capacity ?b" using False b by (auto simp: sb_inv_def)
    then have w: "ring_write r item s = Inr (Some ErrBufferReadOnly, ?s)"
      using Push_refused [OF b(1), of item] open_ring by (simp add: ring_write_def Write_sb_def)
    have c: "ring_ok (rc_size s) ?c" "sb_items ?c = sb_items ?b" "sb_state ?c = ReadOnly"
      using b by (auto simp: ring_ok_def sb_inv_def sb_items_def)
    then have "ring_inv ?s H" using ring_inv_mem [OF assms(1)] by simp
    moreover have "stored ?s = stored s" using stored_update [OF assms(2), of ?s ?c] c(2) by simp
    ultimately show ?thesis using w c(3) by (auto simp: read_only_def)
  qed
qed

lemma ring_step_refl:
  assumes "ring_inv s (in_hand p @ oth)" "pc_ok s p"
    and "rc_mem s' = rc_mem s" "rc_next s' = rc_next s" "placed s' = placed s" "rc_pool s' = rc_pool s" "rc_size s' = rc_size s"
    and "rc_state s' = rc_state s" "rc_delivered s' = rc_delivered s" "rc_spawned s' = rc_spawned s" "rc_current s' = rc_current s"
  shows "ring_step oth p s p s' \<and> stored s' = stored s"
proof -
  have "rc_active s' = rc_active s" using assms(5) by (simp add: placed_def)
  moreover have "read_only s' r = read_only s r" for r using assms(3) by (simp add: read_only_def)
  ultimately show ?thesis
    using assms(1,2) unfolding ring_step_def ring_inv_def pc_ok_def assms(3-11) by (auto simp: stored_def assms(3,4) cong: switch_pc.case_cong)
qed

text \<open>The steps of the three kinds of goroutines.\<close>

definition good_step :: "nat list \<Rightarrow> thread \<Rightarrow> races \<Rightarrow> thread \<Rightarrow> races \<Rightarrow> bool" where
  "good_step oth t s t' s' \<longleftrightarrow>
     ring_step oth (switch_pc_of t) s (switch_pc_of t') s' \<and> thread_ok s' t' \<and>
     stored s' + mset (accepted_by t) = stored s + mset (accepted_by t')"

lemma active_placed: "ring_inv s H \<Longrightarrow> rc_active s < rc_next s"
  by (simp add: ring_inv_def placed_def)

lemma pc_ok_outside: "\<not> inside p \<Longrightarrow> pc_ok s p"
  by (cases p) (simp_all add: pc_ok_def inside_def)

lemma in_hand_outside: "\<not> inside p \<Longrightarrow> in_hand p = []"
  by (cases p) (simp_all add: in_hand_def inside_def)

text \<open>A write through a pointer, on the fast or on the slow path.\<close>

lemma writer_ring_write:
  assumes "write_step i choice now item pc s = Some r" "pc = WFastWrite a \<or> pc = WSlowWrite a"
    "ring_inv s (in_hand SEnd @ oth)" "thread_ok s (Writer item pc)"
  shows "\<exists>pc' s'. r = Inr (pc', s') \<and> good_step oth (Writer item pc) s (Writer item pc') s'"
proof -
  have a: "a < rc_next s" using assms(2,4) by (auto simp: thread_ok_def)
  obtain err s' where w: "ring_write a item s = Inr (err, s')" "ring_inv s' (in_hand SEnd @ oth)" "rc_next s' = rc_next s"
      "\<forall>k. read_only s k \<longrightarrow> read_only s' k" "rc_active s' = rc_active s" "rc_delivered s' = rc_delivered s"
      "stored s' = stored s + mset (if err = None then [item] else [])"
    using ring_write_ok [OF assms(3) a, of item] by auto
  then show ?thesis
    using assms(1,2) by (cases err) (auto simp: good_step_def ring_step_def thread_ok_def pc_ok_outside)
qed

lemma writer_rings:
  assumes "write_step i choice now item pc s = Some r"
    "ring_inv s (in_hand (switch_pc_of (Writer item pc)) @ oth)" "thread_ok s (Writer item pc)"
  shows "\<exists>pc' s'. r = Inr (pc', s') \<and> good_step oth (Writer item pc) s (Writer item pc') s'"
proof -
  have pcok: "pc_ok s (switch_pc_of (Writer item pc))" using assms(3) by (simp add: thread_ok_def)
  note refl = ring_step_refl [OF assms(2) pcok]
  note act = active_placed [OF assms(2)]
  show ?thesis
  proof (cases pc)
    case (WSwitch p)
    show ?thesis
    proof (cases "p = SEnd")
      case True
      then show ?thesis
        using WSwitch assms refl [of s] act by (auto simp: good_step_def thread_ok_def)
    next
      case False
      then obtain r1 where r1: "switch_step i choice now p s = Some r1" "r = bind_go r1 (\<lambda>(p1, s1). Inr (WSwitch p1, s1))"
        using assms(1) WSwitch by auto
      then obtain p' s' where "r1 = Inr (p', s')" "ring_step oth p s p' s'" "stored s' = stored s"
        using switch_rings [OF r1(1), of oth] assms(2) pcok WSwitch by auto
      then show ?thesis using r1(2) WSwitch by (auto simp: good_step_def thread_ok_def ring_step_def)
    qed
  next
    case (WFastWrite a)
    then show ?thesis using writer_ring_write [OF assms(1), of a oth] assms(2,3) by simp
  next
    case (WSlowWrite a)
    then show ?thesis using writer_ring_write [OF assms(1), of a oth] assms(2,3) by simp
  next
    case WLock
    then show ?thesis using assms(1) refl [of "s\<lparr>rc_writeLock := Some i\<rparr>"]
      by (auto simp: good_step_def thread_ok_def pc_ok_outside placed_def split: if_splits)
  next
    case WGetState
    moreover have "ring_step oth SEnd s SCas s" using refl [of s] WGetState by (simp add: ring_step_def in_hand_outside pc_ok_outside)
    ultimately show ?thesis using assms(1) refl [of s] act by (auto simp: good_step_def thread_ok_def pc_ok_outside)
  next
    case (WUnlock err)
    then show ?thesis using assms(1) refl [of "s\<lparr>rc_writeLock := None\<rparr>"]
      by (cases err) (auto simp: good_step_def thread_ok_def pc_ok_outside placed_def)
  qed (use assms(1) refl [of s] refl [of "count_up s"] act in
      \<open>auto simp: good_step_def thread_ok_def pc_ok_outside count_up_def placed_def\<close>)
qed

lemma monitor_rings:
  assumes "monitor_step i choice now need ticks pc s = Some r"
    "ring_inv s (in_hand (switch_pc_of (Monitor ticks pc)) @ oth)" "thread_ok s (Monitor ticks pc)"
  shows "\<exists>n' pc' s'. r = Inr ((n', pc'), s') \<and> good_step oth (Monitor ticks pc) s (Monitor n' pc') s'"
proof -
  have pcok: "pc_ok s (switch_pc_of (Monitor ticks pc))" using assms(3) by (simp add: thread_ok_def)
  note refl = ring_step_refl [OF assms(2) pcok, of s]
  show ?thesis
  proof (cases pc)
    case MLoop
    moreover have "ring_step oth SEnd s SCas s" using refl MLoop by (simp add: ring_step_def in_hand_outside pc_ok_outside)
    ultimately show ?thesis
      using assms(1) refl by (auto simp: good_step_def thread_ok_def pc_ok_outside split: if_splits)
  next
    case (MSwitch p)
    show ?thesis
    proof (cases "p = SEnd")
      case True
      then show ?thesis using MSwitch assms(1) refl by (auto simp: good_step_def thread_ok_def pc_ok_outside)
    next
      case False
      then obtain r1 where r1: "switch_step i choice now p s = Some r1"
          "r = bind_go r1 (\<lambda>(p1, s1). Inr ((ticks, MSwitch p1), s1))"
        using assms(1) MSwitch by auto
      then obtain p' s' where "r1 = Inr (p', s')" "ring_step oth p s p' s'" "stored s' = stored s"
        using switch_rings [OF r1(1), of oth] assms(2) pcok MSwitch by auto
      then show ?thesis using r1(2) MSwitch by (auto simp: good_step_def thread_ok_def ring_step_def)
    qed
  next
    case MExit
    then show ?thesis using assms(1) by simp
  qed
qed

fun closing :: "thread \<Rightarrow> bool" where
  "closing (Closer pc) = (pc \<noteq> CCas \<and> pc \<noteq> CDone)"
| "closing _ = False"

lemma closer_rings:
  assumes "close_step pc s = Some r" "ring_inv s oth" "closing (Closer pc) \<longrightarrow> rc_state s = ClosedState"
    "pc = CStop \<longrightarrow> \<not> rc_stop s"
  shows "\<exists>pc' s'. r = Inr (pc', s') \<and> good_step oth (Closer pc) s (Closer pc') s'"
proof -
  have e: "ring_inv s (in_hand SEnd @ oth)" using assms(2) by (simp add: in_hand_outside)
  have simps: "good_step oth (Closer pc) s (Closer pc') s' \<longleftrightarrow>
      ring_inv s' oth \<and> rc_next s \<le> rc_next s' \<and> (\<forall>r < rc_next s. read_only s r \<longrightarrow> read_only s' r) \<and>
      rc_active s' = rc_active s \<and> rc_delivered s' = rc_delivered s \<and> stored s' = stored s" for pc' s'
    by (auto simp: good_step_def ring_step_def thread_ok_def pc_ok_outside in_hand_outside)
  show ?thesis
    using assms unfolding simps
    by (cases pc) (auto simp: ring_inv_def placed_def read_only_def stored_def split: if_splits)
qed

section \<open>The invariant\<close>

definition close_inv :: "races \<Rightarrow> bool" where
  "close_inv s \<longleftrightarrow>
     (rc_state s \<noteq> ClosedState \<longrightarrow> \<not> rc_stop s \<and> (\<forall>t \<in> set (rc_threads s). \<not> closing t)) \<and>
     length (filter closing (rc_threads s)) \<le> 1 \<and>
     (\<forall>t \<in> set (rc_threads s). closing t \<longrightarrow> (t = Closer CStop \<longleftrightarrow> \<not> rc_stop s))"

definition race_inv :: "races \<Rightarrow> bool" where
  "race_inv s \<longleftrightarrow> lock_inv s \<and> close_inv s \<and> ring_inv s (hands (rc_threads s)) \<and>
     (\<forall>t \<in> set (rc_threads s). thread_ok s t) \<and>
     mset (accepted s) = mset (rc_delivered s) + stored s"

text \<open>Splitting off one goroutine.\<close>

lemma remove_nth_update [simp]: "remove_nth i (xs[i := x]) = remove_nth i xs"
  by (simp add: remove_nth_def)

lemma concat_split:
  "i < length ts \<Longrightarrow> mset (concat (map f ts)) = mset (f (ts ! i)) + mset (concat (map f (remove_nth i ts)))"
proof -
  assume i: "i < length ts"
  have "concat (map f ts) = concat (map f (take i ts @ ts ! i # drop (Suc i) ts))"
    using id_take_nth_drop [OF i] by simp
  then show ?thesis by (simp add: remove_nth_def)
qed

lemma concat_update:
  "i < length ts \<Longrightarrow> mset (concat (map f (ts[i := t]))) = mset (f t) + mset (concat (map f (remove_nth i ts)))"
  using concat_split [of i "ts[i := t]" f] by simp

lemma hands_split: "i < length ts \<Longrightarrow> mset (hands ts) = mset (in_hand (switch_pc_of (ts ! i)) @ hands (remove_nth i ts))"
  and hands_update: "i < length ts \<Longrightarrow> mset (hands (ts[i := t])) = mset (in_hand (switch_pc_of t) @ hands (remove_nth i ts))"
  using concat_split [of i ts "in_hand \<circ> switch_pc_of"] concat_update [of i ts "in_hand \<circ> switch_pc_of" t]
  by (simp_all add: hands_def)

lemma in_hands: "t \<in> set ts \<Longrightarrow> r \<in> set (in_hand (switch_pc_of t)) \<Longrightarrow> r \<in> set (hands ts)"
  by (auto simp: hands_def)

text \<open>The other goroutines are not disturbed.\<close>

lemma others_ok:
  assumes "race_inv s" "i < length (rc_threads s)" "j < length (rc_threads s)" "j \<noteq> i"
    and "ring_step oth (switch_pc_of (rc_threads s ! i)) s p' s'" "locks_step i (rc_threads s ! i) s t' s'"
  shows "thread_ok s' (rc_threads s ! j)"
proof -
  let ?t = "rc_threads s ! i" and ?u = "rc_threads s ! j"
  let ?q = "switch_pc_of ?u"
  have u: "?u \<in> set (rc_threads s)" using assms(3) by simp
  then have ok: "thread_ok s ?u" using assms(1) by (simp add: race_inv_def)
  have next_ge: "rc_next s \<le> rc_next s'" using assms(5) by (simp add: ring_step_def)
  have "pc_ok s' ?q"
  proof (cases "inside ?q")
    case False
    then show ?thesis by (rule pc_ok_outside)
  next
    case True
    have "length (filter (inside \<circ> switch_pc_of) (rc_threads s)) \<le> 1"
      using assms(1) by (simp add: race_inv_def lock_inv_def one_if_def)
    then have out: "\<not> inside (switch_pc_of ?t)" using at_most_one [of "inside \<circ> switch_pc_of" "rc_threads s" i j] True assms(2-4) by auto
    then have act: "rc_active s' = rc_active s" using assms(5) by (simp add: ring_step_def)
    have sw: "rc_state s = SwitchingState" using ok True by (simp add: thread_ok_def pc_ok_def)
    then have "rc_state s' = SwitchingState" using assms(6) out by (auto simp: locks_step_def Let_def)
    moreover have "read_only s' r" if "r < rc_next s" "read_only s r" for r using that assms(5) by (simp add: ring_step_def)
    moreover have "rc_active s < rc_next s" using assms(1) active_placed by (auto simp: race_inv_def)
    moreover have "r < rc_next s" if "r \<in> set (old_ring ?q)" for r
      using in_hands [OF u, of r] that assms(1) by (auto simp: race_inv_def ring_inv_def in_hand_def)
    ultimately show ?thesis
      using ok by (auto simp: thread_ok_def pc_ok_def act split: switch_pc.splits)
  qed
  then show ?thesis using ok next_ge by (auto simp: thread_ok_def)
qed

lemma switch_stop: "switch_step i choice now p s = Some (Inr (p', s')) \<Longrightarrow> rc_stop s' = rc_stop s"
  using switch_lock_effect [of i choice now p s p' s'] by (simp add: lock_effect_def)

lemma close_effect:
  assumes "thread_step i choice now need t s = Some (Inr (t', s'))"
  obtains "\<not> closing t" "\<not> closing t'" "rc_stop s' = rc_stop s"
  | "t = Closer CCas" "t' = Closer CStop" "rc_state s = WritingState" "rc_state s' = ClosedState" "rc_stop s' = rc_stop s"
  | "t = Closer CStop" "t' = Closer CPutActive" "rc_stop s'"
  | "closing t" "t \<noteq> Closer CStop" "t' \<noteq> Closer CStop" "rc_stop s' = rc_stop s"
  using assms
proof (cases rule: thread_stepE)
  case (1 item pc pc')
  then have "rc_stop s' = rc_stop s"
    by (cases pc) (auto simp: bind_go_iff count_up_def split: step_splits dest!: ring_write_frame dest: switch_stop)
  with 1 that(1) show ?thesis by simp
next
  case (2 ticks pc n' pc')
  then have "rc_stop s' = rc_stop s"
    by (cases pc) (auto simp: bind_go_iff split: step_splits dest: switch_stop)
  with 2 that(1) show ?thesis by simp
next
  case (3 pc pc')
  then show ?thesis using that by (cases pc) (auto split: if_splits)
qed

lemma closed_stays:
  assumes "inside (switch_pc_of t) \<longrightarrow> rc_state s = SwitchingState" "locks_step i t s t' s'" "rc_state s = ClosedState"
  shows "rc_state s' = ClosedState"
  using assms by (auto simp: locks_step_def Let_def)

lemma close_inv_step:
  assumes "lock_inv s" "close_inv s" "i < length (rc_threads s)" "thread_step i choice now need (rc_threads s ! i) s = Some (Inr (t', s'))"
    "rc_threads s'' = (rc_threads s)[i := t']" "rc_state s'' = rc_state s'" "rc_stop s'' = rc_stop s'"
  shows "close_inv s''"
proof -
  let ?ts = "rc_threads s" and ?t = "rc_threads s ! i"
  have t: "?t \<in> set ?ts" using assms(3) by simp
  note c = assms(2)
  have stays: "rc_state s = ClosedState \<Longrightarrow> rc_state s' = ClosedState"
    by (rule closed_stays [OF _ thread_locks [OF assms(4)]]) (use inside_switching [OF assms(1,3)] in blast)
  have n: "length (filter closing (?ts[i := t'])) + one_if (closing ?t) = length (filter closing ?ts) + one_if (closing t')"
    by (rule filter_update [OF assms(3)])
  have sub: "set (?ts[i := t']) \<subseteq> insert t' (set ?ts)" by (rule set_update_subset_insert)
  show ?thesis
  proof (cases rule: close_effect [OF assms(4)])
    case 1
    then show ?thesis
      using c n sub stays unfolding close_inv_def assms(5-7) by (auto simp: one_if_def)
  next
    case 2
    have none: "\<forall>u \<in> set ?ts. \<not> closing u" "\<not> rc_stop s" using c 2(3) by (auto simp: close_inv_def)
    then have "filter closing ?ts = []" by (simp add: filter_empty_conv)
    then show ?thesis
      using n 2 sub none unfolding close_inv_def assms(5-7) by (auto simp: one_if_def)
  next
    case 3
    have closed: "rc_state s = ClosedState" using c t 3(1) by (force simp: close_inv_def)
    have "\<not> closing (?ts ! j)" if "j < length ?ts" "j \<noteq> i" for j
      using at_most_one [of closing ?ts i j] c that assms(3) 3(1) by (auto simp: close_inv_def)
    then have "\<forall>u \<in> set (?ts[i := t']). closing u \<longrightarrow> u = Closer CPutActive"
      using 3(2) by (intro all_update [OF assms(3)]) auto
    then show ?thesis
      using n 3 stays [OF closed] c unfolding close_inv_def assms(5-7) by (auto simp: one_if_def)
  next
    case 4
    have "rc_state s = ClosedState" "rc_stop s" using c t 4(1,2) by (auto simp: close_inv_def)
    then show ?thesis
      using n 4 stays c sub unfolding close_inv_def assms(5-7) by (auto simp: one_if_def split: if_splits)
  qed
qed

section \<open>Every step keeps the invariant and none panics\<close>

lemma thread_good:
  assumes "race_inv s" "i < length (rc_threads s)" "thread_step i choice now need (rc_threads s ! i) s = Some r"
  shows "\<exists>t' s'. r = Inr (t', s') \<and> good_step (hands (remove_nth i (rc_threads s))) (rc_threads s ! i) s t' s'"
proof -
  let ?t = "rc_threads s ! i" and ?oth = "hands (remove_nth i (rc_threads s))"
  have t: "?t \<in> set (rc_threads s)" using assms(2) by simp
  have ri: "ring_inv s (in_hand (switch_pc_of ?t) @ ?oth)"
    using assms(1) ring_inv_perm [OF hands_split [OF assms(2)]] by (simp add: race_inv_def)
  have ok: "thread_ok s ?t" using assms(1) t by (simp add: race_inv_def)
  show ?thesis
  proof (cases ?t)
    case (Writer item pc)
    then obtain r1 where "write_step i choice now item pc s = Some r1" "r = bind_go r1 (\<lambda>(pc1, s1). Inr (Writer item pc1, s1))"
      using assms(3) by auto
    then show ?thesis using writer_rings [of i choice now item pc s r1 ?oth] ri ok Writer by auto
  next
    case (Monitor ticks pc)
    then obtain r1 where "monitor_step i choice now need ticks pc s = Some r1"
        "r = bind_go r1 (\<lambda>((n, pc1), s1). Inr (Monitor n pc1, s1))"
      using assms(3) by auto
    then show ?thesis using monitor_rings [of i choice now need ticks pc s r1 ?oth] ri ok Monitor by auto
  next
    case (Closer pc)
    then obtain r1 where r1: "close_step pc s = Some r1" "r = bind_go r1 (\<lambda>(pc1, s1). Inr (Closer pc1, s1))"
      using assms(3) by auto
    have c: "close_inv s" using assms(1) by (simp add: race_inv_def)
    have "closing (Closer pc) \<longrightarrow> rc_state s = ClosedState" "pc = CStop \<longrightarrow> \<not> rc_stop s"
      using c t Closer unfolding close_inv_def by (force, force)
    then show ?thesis using closer_rings [OF r1(1), of ?oth] ri r1(2) Closer by (auto simp: in_hand_outside)
  qed
qed

lemma go_keeps:
  assumes "race_inv s" "fire_writes (Go i choice now need) s = Some r"
  shows "\<exists>s'. r = Inr s' \<and> race_inv s'"
proof -
  obtain r1 where i: "i < length (rc_threads s)" and r1: "thread_step i choice now need (rc_threads s ! i) s = Some r1"
      "r = bind_go r1 (\<lambda>(t, s1). Inr (s1\<lparr>rc_threads := (rc_threads s)[i := t]\<rparr>))"
    using assms(2) by (auto split: if_splits)
  let ?oth = "hands (remove_nth i (rc_threads s))"
  obtain t' s1 where g: "r1 = Inr (t', s1)" "good_step ?oth (rc_threads s ! i) s t' s1"
    using thread_good [OF assms(1) i r1(1)] by blast
  let ?s = "s1\<lparr>rc_threads := (rc_threads s)[i := t']\<rparr>"
  have st: "thread_step i choice now need (rc_threads s ! i) s = Some (Inr (t', s1))" using r1(1) g(1) by simp
  note lk = thread_locks [OF st]
  have rs: "ring_step ?oth (switch_pc_of (rc_threads s ! i)) s (switch_pc_of t') s1" and tok: "thread_ok s1 t'"
    and acc: "stored s1 + mset (accepted_by (rc_threads s ! i)) = stored s + mset (accepted_by t')"
    using g(2) by (auto simp: good_step_def)
  have "lock_inv ?s" by (rule lock_inv_step [OF _ i lk]) (use assms(1) in \<open>simp_all add: race_inv_def\<close>)
  moreover have "close_inv ?s" by (rule close_inv_step [OF _ _ i st]) (use assms(1) in \<open>simp_all add: race_inv_def\<close>)
  moreover have "ring_inv s1 (hands ((rc_threads s)[i := t']))"
    using rs ring_inv_perm [OF hands_update [OF i, of t']] by (simp add: ring_step_def)
  then have "ring_inv ?s (hands (rc_threads ?s))" by (simp add: ring_inv_def placed_def read_only_def)
  moreover have "\<forall>u \<in> set (rc_threads ?s). thread_ok s1 u"
    using all_update [OF i, of "thread_ok s1" t'] tok others_ok [OF assms(1) i _ _ rs lk] by simp
  then have "\<forall>u \<in> set (rc_threads ?s). thread_ok ?s u"
    by (simp add: thread_ok_def pc_ok_def read_only_def cong: switch_pc.case_cong)
  moreover have "mset (accepted ?s) = mset (rc_delivered ?s) + stored ?s"
  proof -
    have "mset (accepted s) = mset (rc_delivered s) + stored s" using assms(1) by (simp add: race_inv_def)
    moreover have "stored ?s = stored s1" "rc_delivered ?s = rc_delivered s"
      using rs by (simp_all add: stored_def ring_step_def)
    moreover have "mset (accepted ?s) + mset (accepted_by (rc_threads s ! i)) = mset (accepted s) + mset (accepted_by t')"
      using concat_split [OF i, of accepted_by] concat_update [OF i, of accepted_by t'] by (simp add: accepted_def)
    ultimately show ?thesis using acc by (metis (no_types, lifting) add.assoc add_right_cancel)
  qed
  ultimately have "race_inv ?s" by (simp add: race_inv_def)
  then show ?thesis using r1(2) g(1) by simp
qed

text \<open>Steps of the consumer leave the goroutines alone.\<close>

lemma race_inv_rings:
  assumes "race_inv s" "rc_threads s' = rc_threads s" "rc_switchLock s' = rc_switchLock s"
    "rc_writeLock s' = rc_writeLock s" "rc_state s' = rc_state s" "rc_stop s' = rc_stop s"
    "rc_active s' = rc_active s" "rc_next s' = rc_next s"
    and "ring_inv s' (hands (rc_threads s))"
    and "\<forall>r \<in> set (rc_active s # hands (rc_threads s)). read_only s r \<longrightarrow> read_only s' r"
    and "mset (rc_delivered s') + stored s' = mset (rc_delivered s) + stored s"
  shows "race_inv s'"
proof -
  have "thread_ok s' t" if t: "t \<in> set (rc_threads s)" for t
  proof -
    have ok: "thread_ok s t" using assms(1) t by (simp add: race_inv_def)
    have "r \<in> set (hands (rc_threads s))" if "r \<in> set (old_ring (switch_pc_of t))" for r
      using in_hands [OF t, of r] that by (simp add: in_hand_def)
    then show ?thesis
      using ok assms(10) by (auto simp: thread_ok_def pc_ok_def assms(5,7,8) split: switch_pc.splits)
  qed
  moreover have "lock_inv s'" by (rule lock_inv_frame [OF _ assms(2-5)]) (use assms(1) in \<open>simp add: race_inv_def\<close>)
  moreover have "close_inv s'" using assms(1) by (simp add: race_inv_def close_inv_def assms(2,5,6))
  moreover have "mset (accepted s') = mset (rc_delivered s') + stored s'"
    using assms(1,11) by (simp add: race_inv_def accepted_def assms(2))
  ultimately show ?thesis using assms(9) by (simp add: race_inv_def assms(2))
qed

lemma take_keeps:
  assumes "race_inv s" "fire_writes (Take k) s = Some r"
  shows "\<exists>s'. r = Inr s' \<and> race_inv s'"
proof -
  have k: "k < length (rc_spawned s)" "rc_current s = None"
    and r: "r = Inr (s\<lparr>rc_current := Some (rc_spawned s ! k), rc_spawned := remove_nth k (rc_spawned s)\<rparr>)"
    using assms(2) by (auto split: if_splits)
  let ?s = "s\<lparr>rc_current := Some (rc_spawned s ! k), rc_spawned := remove_nth k (rc_spawned s)\<rparr>"
  have m: "mset (placed ?s) = mset (placed s)" using mset_remove_nth [OF k(1)] k(2) by (simp add: placed_def)
  have "mset (placed ?s @ hands (rc_threads s)) = mset (placed s @ hands (rc_threads s))" using m by simp
  then have d: "distinct (placed ?s @ hands (rc_threads s)) = distinct (placed s @ hands (rc_threads s))"
    by (rule mset_eq_imp_distinct_iff)
  have e: "set (placed ?s) = set (placed s)" by (rule mset_eq_setD [OF m])
  have ri: "ring_inv s (hands (rc_threads s))" using assms(1) by (simp add: race_inv_def)
  have "set (remove_nth k (rc_spawned s)) \<subseteq> set (rc_spawned s)" "rc_spawned s ! k \<in> set (rc_spawned s)"
    using set_remove_nth [of k "rc_spawned s"] k(1) by simp_all
  then have "\<forall>x \<in> set (rc_spawned ?s) \<union> set_option (rc_current ?s). read_only ?s x"
    using ri by (auto simp: ring_inv_def read_only_def)
  then have "ring_inv ?s (hands (rc_threads s))"
    using ri unfolding ring_inv_def d set_append e by simp
  then have "race_inv ?s" by (rule race_inv_rings [OF assms(1), rotated 7]) (simp_all add: read_only_def stored_def)
  with r show ?thesis by blast
qed

lemma current_ring:
  assumes "race_inv s" "rc_current s = Some r"
  shows "r < rc_next s" "ring_ok (rc_size s) (rc_mem s r)" "read_only s r" "r \<noteq> rc_active s" "r \<noteq> rc_passive s"
    "r \<notin> set (rc_spawned s)" "r \<notin> set (hands (rc_threads s))"
    "rc_state s \<noteq> ClosedState \<Longrightarrow> r \<notin> set (rc_pool s)"
  using assms by (auto simp: race_inv_def ring_inv_def placed_def)

lemma pop_keeps:
  assumes "race_inv s" "fire_writes PopItem s = Some x"
  shows "\<exists>s'. x = Inr s' \<and> race_inv s'"
proof -
  obtain r where r: "rc_current s = Some r" "Len (rc_mem s r) \<noteq> 0" using assms(2) by (auto split: option.splits if_splits)
  note c = current_ring [OF assms(1) r(1)]
  let ?b = "rc_mem s r"
  let ?h = "hd (sb_items ?b)"
  have b: "sb_inv ?b" "sb_count ?b \<noteq> 0" using c(2) r(2) by (simp_all add: ring_ok_def Len_def)
  let ?s = "s\<lparr>rc_mem := (rc_mem s)(r := popped ?b), rc_delivered := rc_delivered s @ [?h]\<rparr>"
  have h: "\<lparr>bi_Ptr = bi_Ptr y, bi_Size = bi_Size y\<rparr> = y" for y :: buffer_item by simp
  have "x = Inr (s\<lparr>rc_mem := (rc_mem s)(r := popped ?b),
      rc_delivered := rc_delivered s @ [\<lparr>bi_Ptr = bi_Ptr ?h, bi_Size = bi_Size ?h\<rparr>]\<rparr>)"
    using assms(2) r Pop_nonempty [OF b] by simp
  then have x: "x = Inr ?s" unfolding h .
  have "ring_ok (rc_size s) (popped ?b)" "sb_state (popped ?b) = ReadOnly"
    using c(2,3) sb_inv_popped [OF b] by (simp_all add: ring_ok_def popped_def read_only_def)
  moreover have ri: "ring_inv s (hands (rc_threads s))" using assms(1) by (simp add: race_inv_def)
  ultimately have "ring_inv (s\<lparr>rc_mem := (rc_mem s)(r := popped ?b)\<rparr>) (hands (rc_threads s))"
    using ring_inv_mem [OF ri] by simp
  then have "ring_inv ?s (hands (rc_threads s))" by (simp add: ring_inv_def placed_def read_only_def)
  moreover have "mset (rc_delivered ?s) + stored ?s = mset (rc_delivered s) + stored s"
  proof -
    have "stored ?s + mset (sb_items ?b) = stored s + mset (sb_items (popped ?b))"
      by (rule stored_update [OF c(1)]) simp_all
    moreover have "mset (sb_items ?b) = add_mset ?h (mset (sb_items (popped ?b)))"
      by (subst sb_items_popped [OF b]) simp
    ultimately show ?thesis by simp
  qed
  ultimately have "race_inv ?s"
    using c(3) by (intro race_inv_rings [OF assms(1)]) (auto simp: read_only_def popped_def)
  with x show ?thesis by blast
qed

lemma recycle_keeps:
  assumes "race_inv s" "fire_writes Recycle s = Some x"
  shows "\<exists>s'. x = Inr s' \<and> race_inv s'"
proof -
  obtain r where r: "rc_current s = Some r" "Len (rc_mem s r) = 0" using assms(2) by (auto split: option.splits if_splits)
  note c = current_ring [OF assms(1) r(1)]
  let ?b = "rc_mem s r" and ?H = "hands (rc_threads s)"
  let ?s = "s\<lparr>rc_mem := (rc_mem s)(r := Reset ?b), rc_current := None, rc_pool := rc_pool s @ [r]\<rparr>"
  have x: "x = Inr ?s" using assms(2) r by simp
  have ri: "ring_inv s ?H" using assms(1) by (simp add: race_inv_def)
  have b: "sb_inv ?b" "sb_capacity ?b = rc_size s" using c(2) by (simp_all add: ring_ok_def)
  have ok: "ring_ok (rc_size s) (Reset ?b)" "sb_items (Reset ?b) = sb_items ?b"
    using Reset_ok [OF b(1)] b r(2) sb_items_empty_iff [OF b(1)] by (simp_all add: ring_ok_def Reset_def Len_def)
  have p: "placed s = placed ?s @ [r]" using r(1) by (simp add: placed_def)
  have "ring_inv ?s ?H"
    using ri c ok(1) unfolding ring_inv_def p by (auto simp: read_only_def r(1))
  moreover have "stored ?s = stored s" using stored_update [OF c(1), of ?s "Reset ?b"] ok(2) by simp
  ultimately have "race_inv ?s"
    using c(4,7) by (intro race_inv_rings [OF assms(1)]) (auto simp: read_only_def)
  with x show ?thesis by blast
qed

lemma fire_writes_keeps:
  assumes "race_inv s" "fire_writes l s = Some r"
  shows "\<exists>s'. r = Inr s' \<and> race_inv s'"
  using assms go_keeps take_keeps pop_keeps recycle_keeps by (cases l) blast+

interpretation write_race: safe_system fire_writes race_inv
proof unfold_locales
  fix s l s' p
  assume inv: "race_inv s"
  show "fire_writes l s \<noteq> Some (Inl p)" using fire_writes_keeps [OF inv] by blast
  assume "fire_writes l s = Some (Inr s')"
  then show "race_inv s'" using fire_writes_keeps [OF inv] by blast
qed

lemma race_start_inv:
  assumes "race_start sz items ticks closers = Inr s" "1 \<le> sz" "sz < 2 ^ 31"
  shows "race_inv s"
proof -
  obtain b where b: "NewSmartBuffer sz = Inr b" "ring_ok sz b" "sb_items b = []" using fresh_ring [OF assms(2,3)] by blast
  have s: "s = \<lparr>rc_mem = (\<lambda>_. b), rc_next = 2, rc_active = 0, rc_passive = 1, rc_pool = [], rc_spawned = [],
            rc_current = None, rc_size = sz, rc_count = 0, rc_state = WritingState, rc_lastSwitch = 0,
            rc_writeLock = None, rc_switchLock = None, rc_stop = False,
            rc_threads = Monitor ticks MLoop # map (\<lambda>x. Writer x WStart) items @ replicate closers (Closer CCas),
            rc_delivered = []\<rparr>"
    using assms(1) b(1) by (simp add: race_start_def)
  have pc: "switch_pc_of t = SEnd \<and> \<not> has_write_lock t \<and> \<not> closing t \<and> pointed t = [] \<and> accepted_by t = []"
    if "t \<in> set (rc_threads s)" for t
    using that by (auto simp: s)
  have f: "filter (inside \<circ> switch_pc_of) (rc_threads s) = []" "filter closing (rc_threads s) = []"
    using pc by (simp_all add: filter_empty_conv)
  have h: "hands (rc_threads s) = []" "accepted s = []"
    using pc by (auto simp: hands_def accepted_def in_hand_outside)
  have "owner_ok (has_switch_lock \<circ> switch_pc_of) None (rc_threads s)" "owner_ok has_write_lock None (rc_threads s)"
    using pc by (auto simp: owner_ok_def)
  then have "lock_inv s" using f(1) by (simp add: lock_inv_def one_if_def) (simp add: s)
  moreover have "close_inv s" using pc f(2) by (simp add: close_inv_def) (simp add: s)
  moreover have "ring_inv s []" using assms(2,3) b(2) by (auto simp: s ring_inv_def placed_def less_2_cases_iff)
  moreover have "thread_ok s t" if "t \<in> set (rc_threads s)" for t
    using pc [OF that] by (simp add: thread_ok_def pc_ok_outside)
  moreover have "stored s = {#}" "rc_delivered s = []" using b(3) by (simp_all add: s stored_def)
  ultimately show ?thesis by (simp add: race_inv_def h)
qed

end
