(* ===== verification/Write_Outcomes.thy ===== *)
theory Write_Outcomes
  imports Write_Race
begin

text \<open>
  What concurrent calls of \<open>Write\<close>, switches and \<open>Close\<close> achieve, on the model of \<open>Write_Race\<close>: mutual exclusion, no
  panic, what is accepted is stored exactly once, every call returns within a bounded number of steps and
  none of them waits for ever. The last section has the schedules in which the code does something else than it
  means to.
\<close>

section \<open>Where the items are\<close>

text \<open>
  As long as the consumer puts no ring back into the pool, the passive ring and the one a switch has just taken
  from the pool are empty and no writer points to them.
\<close>

definition spare_clean :: "races \<Rightarrow> nat list \<Rightarrow> nat set \<Rightarrow> bool" where
  "spare_clean s N P \<longleftrightarrow> (rc_state s \<noteq> ClosedState \<longrightarrow> rc_pool s = []) \<and>
     (\<forall>r \<in> insert (rc_passive s) (set N). sb_count (rc_mem s r) = 0 \<and> r \<notin> P)"

definition new_rings :: "thread list \<Rightarrow> nat list" where
  "new_rings ts = concat (map (new_ring \<circ> switch_pc_of) ts)"

definition pointers :: "thread list \<Rightarrow> nat set" where
  "pointers ts = (\<Union>t \<in> set ts. set (pointed t))"

lemma switch_clean:
  assumes "switch_step i choice now p s = Some (Inr (p', s'))" "spare_clean s (new_ring p @ ON) P"
    "ring_inv s (in_hand p @ oth)" "pc_ok s p" "set ON \<subseteq> set oth" "\<forall>r \<in> P. r < rc_next s"
  shows "spare_clean s' (new_ring p' @ ON) P"
proof (cases p)
  case SMark
  have "\<forall>r \<in> insert (rc_passive s) (set ON). r \<noteq> rc_active s"
    using assms(3,5) by (auto simp: ring_inv_def placed_def)
  then show ?thesis using assms(1,2) SMark by (auto simp: spare_clean_def)
next
  case SGet
  have "rc_state s \<noteq> ClosedState" using assms(4) SGet by (simp add: pc_ok_def inside_def)
  then have pool: "rc_pool s = []" using assms(2) by (simp add: spare_clean_def)
  have lt: "\<forall>r \<in> insert (rc_passive s) (set ON). r < rc_next s"
    using assms(3,5) by (auto simp: ring_inv_def placed_def)
  have sz: "1 \<le> rc_size s" "rc_size s < 2 ^ 31" using assms(3) by (simp_all add: ring_inv_def)
  obtain b where b: "NewSmartBuffer (rc_size s) = Inr b" "sb_count b = 0" using fresh_ring [OF sz] by blast
  have "p' = SSwap (rc_next s) \<and> s' = s\<lparr>rc_mem := (rc_mem s)(rc_next s := b), rc_next := Suc (rc_next s)\<rparr>"
    using assms(1) SGet pool b(1) by (auto simp: ring_pool_get_def split: option.splits)
  then show ?thesis using assms(2,6) SGet lt b(2) by (fastforce simp: spare_clean_def)
qed (use assms(1,2,4) in \<open>auto simp: spare_clean_def pc_ok_def inside_def split: if_splits\<close>)

lemma ring_write_clean:
  assumes "ring_write r item s = Inr (err, s')" "spare_clean s N P" "r \<in> P" "P' \<subseteq> P"
  shows "spare_clean s' N P'"
proof -
  obtain b where "s' = s\<lparr>rc_mem := (rc_mem s)(r := b)\<rparr>" using ring_write_frame [OF assms(1)] by blast
  then show ?thesis using assms(2-4) by (auto simp: spare_clean_def)
qed

lemma writer_clean:
  assumes "write_step i choice now item pc s = Some (Inr (pc', s'))"
    "spare_clean s (new_ring (switch_pc_of (Writer item pc)) @ ON) (set (pointed (Writer item pc)) \<union> P)"
    "ring_inv s (in_hand (switch_pc_of (Writer item pc)) @ oth)" "pc_ok s (switch_pc_of (Writer item pc))"
    "set ON \<subseteq> set oth" "\<forall>r \<in> P. r < rc_next s"
  shows "spare_clean s' (new_ring (switch_pc_of (Writer item pc')) @ ON) (set (pointed (Writer item pc')) \<union> P)"
proof -
  have act: "\<forall>r \<in> insert (rc_passive s) (set ON). r \<noteq> rc_active s"
    using assms(3,5) by (auto simp: ring_inv_def placed_def)
  show ?thesis
  proof (cases pc)
    case (WSwitch p)
    show ?thesis
    proof (cases "p = SEnd")
      case True
      then show ?thesis using WSwitch assms(1,2) by simp
    next
      case False
      then obtain p' where "pc' = WSwitch p'" "switch_step i choice now p s = Some (Inr (p', s'))"
        using assms(1) WSwitch by (auto simp: bind_go_iff split: step_splits)
      then show ?thesis using switch_clean [of i choice now p s p' s' ON P oth] WSwitch assms(2-6) by simp
    qed
  next
    case (WFastWrite r)
    then obtain err where w: "ring_write r item s = Inr (err, s')" "pc' = (if err = None then WFastCount else WLock)"
      using assms(1) by (auto simp: bind_go_iff)
    then show ?thesis using ring_write_clean [OF w(1), of ON "insert r P" P] assms(2) WFastWrite by auto
  next
    case (WSlowWrite r)
    then obtain err where w: "ring_write r item s = Inr (err, s')" "pc' = (if err = None then WSlowCount else WUnlock err)"
      using assms(1) by (auto simp: bind_go_iff)
    then show ?thesis using ring_write_clean [OF w(1), of ON "insert r P" P] assms(2) WSlowWrite by auto
  qed (use assms(1,2) act in \<open>auto simp: spare_clean_def count_up_def split: if_splits\<close>)
qed

lemma thread_clean:
  assumes "thread_step i choice now need t s = Some (Inr (t', s'))"
    "spare_clean s (new_ring (switch_pc_of t) @ ON) (set (pointed t) \<union> P)"
    "ring_inv s (in_hand (switch_pc_of t) @ oth)" "pc_ok s (switch_pc_of t)"
    "set ON \<subseteq> set oth" "\<forall>r \<in> P. r < rc_next s" "closing t \<longrightarrow> rc_state s = ClosedState"
  shows "spare_clean s' (new_ring (switch_pc_of t') @ ON) (set (pointed t') \<union> P)"
  using assms(1)
proof (cases rule: thread_stepE)
  case (1 item pc pc')
  then show ?thesis using writer_clean [of i choice now item pc s pc' s' ON P oth] assms(2-6) by simp
next
  case (2 ticks pc n' pc')
  show ?thesis
  proof (cases "\<exists>p. pc = MSwitch p \<and> p \<noteq> SEnd")
    case True
    then obtain p p' where "pc = MSwitch p" "pc' = MSwitch p'" "switch_step i choice now p s = Some (Inr (p', s'))"
      using 2(3) by (auto simp: bind_go_iff split: step_splits)
    then show ?thesis using switch_clean [of i choice now p s p' s' ON P oth] 2 assms(2-6) by simp
  next
    case False
    then show ?thesis using 2 assms(2) by (cases pc) (auto split: if_splits)
  qed
next
  case (3 pc pc')
  then show ?thesis using assms(2,7) by (cases pc) (auto simp: spare_clean_def split: if_splits)
qed

abbreviation all_clean :: "races \<Rightarrow> bool" where
  "all_clean s \<equiv> spare_clean s (new_rings (rc_threads s)) (pointers (rc_threads s))"

lemma spare_clean_cong:
  "spare_clean s N P \<Longrightarrow> set N = set N' \<Longrightarrow> P = P' \<Longrightarrow> spare_clean s N' P'"
  by (simp add: spare_clean_def)

lemma set_split: "i < length ts \<Longrightarrow> set ts = insert (ts ! i) (set (remove_nth i ts))"
  using mset_remove_nth [of i ts] by (metis set_mset_add_mset_insert set_mset_mset)

lemma clean_go:
  assumes "race_inv s" "all_clean s" "fire_writes (Go i choice now need) s = Some (Inr s')"
  shows "all_clean s'"
proof -
  let ?ts = "rc_threads s"
  let ?t = "?ts ! i" and ?rest = "remove_nth i ?ts"
  obtain t' s1 where g: "i < length ?ts" "thread_step i choice now need ?t s = Some (Inr (t', s1))"
      "s' = s1\<lparr>rc_threads := ?ts[i := t']\<rparr>"
    using fire_GoE [OF assms(3)] by metis
  have set_ts: "set ?ts = insert ?t (set ?rest)" "set (?ts[i := t']) = insert t' (set ?rest)"
    using set_split [OF g(1)] set_split [of i "?ts[i := t']"] g(1) by simp_all
  have "?t \<in> set ?ts" using g(1) by simp
  then have t: "thread_ok s ?t" "closing ?t \<longrightarrow> rc_state s = ClosedState"
    using assms(1) by (auto simp: race_inv_def close_inv_def)
  have ri: "ring_inv s (in_hand (switch_pc_of ?t) @ hands ?rest)"
    using assms(1) ring_inv_perm [OF hands_split [OF g(1)]] by (simp add: race_inv_def)
  have sub: "set (new_rings ?rest) \<subseteq> set (hands ?rest)" by (auto simp: new_rings_def hands_def in_hand_def)
  have lt: "\<forall>r \<in> pointers ?rest. r < rc_next s"
    using assms(1) set_ts(1) by (auto simp: race_inv_def thread_ok_def pointers_def)
  have "spare_clean s (new_ring (switch_pc_of ?t) @ new_rings ?rest) (set (pointed ?t) \<union> pointers ?rest)"
    by (rule spare_clean_cong [OF assms(2)]) (auto simp: new_rings_def pointers_def set_ts(1))
  then have "spare_clean s1 (new_ring (switch_pc_of t') @ new_rings ?rest) (set (pointed t') \<union> pointers ?rest)"
    using thread_clean [OF g(2) _ ri _ sub lt t(2)] t(1) by (simp add: thread_ok_def)
  then have "spare_clean s1 (new_rings (?ts[i := t'])) (pointers (?ts[i := t']))"
    by (rule spare_clean_cong) (auto simp: new_rings_def pointers_def set_ts(2))
  then show ?thesis by (simp add: g(3) spare_clean_def)
qed

lemma clean_step:
  assumes "race_inv s" "all_clean s" "fire_writes l s = Some (Inr s')" "l \<noteq> Recycle"
  shows "all_clean s'"
proof (cases l)
  case (Go i choice now need)
  then show ?thesis using clean_go [OF assms(1,2)] assms(3) by simp
next
  case (Take k)
  then show ?thesis using assms(2,3) by (auto simp: spare_clean_def split: if_splits)
next
  case PopItem
  then obtain r b xs where r: "rc_current s = Some r" "s' = s\<lparr>rc_mem := (rc_mem s)(r := b), rc_delivered := xs\<rparr>"
    using assms(3) by (auto simp: bind_go_iff split: step_splits)
  have "set (new_rings (rc_threads s)) \<subseteq> set (hands (rc_threads s))"
    by (auto simp: new_rings_def hands_def in_hand_def)
  then have "\<forall>k \<in> insert (rc_passive s) (set (new_rings (rc_threads s))). k \<noteq> r"
    using current_ring(5,7) [OF assms(1) r(1)] by auto
  then show ?thesis using assms(2) r(2) by (auto simp: spare_clean_def)
next
  case Recycle
  with assms(4) show ?thesis by simp
qed

lemma start_clean:
  assumes "race_start sz items ticks closers = Inr s" "1 \<le> sz" "sz < 2 ^ 31"
  shows "all_clean s"
proof -
  obtain b where b: "NewSmartBuffer sz = Inr b" "sb_count b = 0" using fresh_ring [OF assms(2,3)] by blast
  have "switch_pc_of t = SEnd \<and> pointed t = []" if "t \<in> set (rc_threads s)" for t
    using that assms(1) b(1) by (auto simp: race_start_def)
  then have "new_rings (rc_threads s) = []" "pointers (rc_threads s) = {}" by (auto simp: new_rings_def pointers_def)
  moreover have "rc_pool s = []" "sb_count (rc_mem s (rc_passive s)) = 0" using assms(1) b by (auto simp: race_start_def)
  ultimately show ?thesis by (simp add: spare_clean_def)
qed

lemma exec_clean:
  assumes "exec fire_writes ls s s'" "race_inv s" "all_clean s" "Recycle \<notin> set ls"
  shows "all_clean s'"
  using assms
proof (induction rule: exec.induct)
  case (exec_done s)
  then show ?case by simp
next
  case (exec_step ls s s1 l s2)
  then show ?case using clean_step [of s1 l s2] write_race.always_inv [OF exec_step.hyps(1)] by auto
qed

text \<open>The items in the rings where the consumer will find them: active, handed over, and being read.\<close>

definition reachable_items :: "races \<Rightarrow> buffer_item list" where
  "reachable_items s =
     sb_items (rc_mem s (rc_active s)) @
     concat (map (\<lambda>r. sb_items (rc_mem s r)) (rc_spawned s @ (case rc_current s of None \<Rightarrow> [] | Some r \<Rightarrow> [r])))"

lemma stored_reachable:
  assumes "race_inv s" "all_clean s" "rc_state s = WritingState"
  shows "stored s = mset (reachable_items s)"
proof -
  let ?f = "\<lambda>r. mset (sb_items (rc_mem s r))"
  have ri: "ring_inv s (hands (rc_threads s))" using assms(1) by (simp add: race_inv_def)
  have "length (filter (inside \<circ> switch_pc_of) (rc_threads s)) = 0"
    using assms(1,3) by (simp add: race_inv_def lock_inv_def one_if_def)
  then have "\<not> inside (switch_pc_of t)" if "t \<in> set (rc_threads s)" for t
    using that by (auto simp: filter_empty_conv)
  then have h: "hands (rc_threads s) = []" by (auto simp: hands_def in_hand_outside)
  have pool: "rc_pool s = []" using assms(2,3) by (simp add: spare_clean_def)
  have d: "distinct (placed s)" "{..<rc_next s} = set (placed s)"
    using ri assms(3) h pool by (auto simp: ring_inv_def)
  have "stored s = sum ?f (set (placed s))" by (simp add: stored_def d(2))
  also have "\<dots> = sum_list (map ?f (placed s))" by (rule sum.distinct_set_conv_list [OF d(1)])
  also have "\<dots> = ?f (rc_passive s) + mset (reachable_items s)"
    by (simp add: placed_def reachable_items_def mset_concat comp_def split: option.splits)
  also have "?f (rc_passive s) = {#}"
  proof -
    have "rc_passive s < rc_next s" using ri by (simp add: ring_inv_def placed_def)
    then have "sb_inv (rc_mem s (rc_passive s))" using ri by (simp add: ring_inv_def ring_ok_def)
    then show ?thesis using assms(2) by (simp add: spare_clean_def sb_items_empty_iff)
  qed
  finally show ?thesis by simp
qed

section \<open>Every call returns\<close>

fun switch_rank :: "switch_pc \<Rightarrow> nat" where
  "switch_rank SCas = 10"
| "switch_rank SLock = 9"
| "switch_rank SMark = 8"
| "switch_rank SGet = 7"
| "switch_rank (SSwap nb) = 6"
| "switch_rank (SCount b) = 5"
| "switch_rank (STime b) = 4"
| "switch_rank (SGo b) = 3"
| "switch_rank SState = 2"
| "switch_rank SUnlock = 1"
| "switch_rank SEnd = 0"

fun write_rank :: "write_pc \<Rightarrow> nat" where
  "write_rank WStart = 21"
| "write_rank WFastCheck = 20"
| "write_rank WLoadActive = 19"
| "write_rank (WFastWrite r) = 18"
| "write_rank WFastCount = 1"
| "write_rank WLock = 17"
| "write_rank WGetState = 16"
| "write_rank (WSwitch p) = 5 + switch_rank p"
| "write_rank WReload = 4"
| "write_rank (WSlowWrite r) = 3"
| "write_rank WSlowCount = 2"
| "write_rank (WUnlock err) = 1"
| "write_rank (WDone err) = 0"

fun monitor_rank :: "nat \<Rightarrow> monitor_pc \<Rightarrow> nat" where
  "monitor_rank ticks MLoop = 12 * ticks + 1"
| "monitor_rank ticks (MSwitch p) = 12 * ticks + 2 + switch_rank p"
| "monitor_rank ticks MExit = 0"

fun close_rank :: "close_pc \<Rightarrow> nat" where
  "close_rank CCas = 6"
| "close_rank CStop = 5"
| "close_rank CPutActive = 4"
| "close_rank CPutPassive = 3"
| "close_rank CWait = 2"
| "close_rank CDrain = 1"
| "close_rank CDone = 0"

fun thread_rank :: "thread \<Rightarrow> nat" where
  "thread_rank (Writer item pc) = write_rank pc"
| "thread_rank (Monitor ticks pc) = monitor_rank ticks pc"
| "thread_rank (Closer pc) = close_rank pc"

lemma switch_rank_down: "switch_step i choice now p s = Some (Inr (p', s')) \<Longrightarrow> switch_rank p' < switch_rank p"
  by (cases p) (auto simp: bind_go_iff split: step_splits)

lemma thread_rank_down:
  assumes "thread_step i choice now need t s = Some (Inr (t', s'))"
  shows "thread_rank t' < thread_rank t"
  using assms
proof (cases rule: thread_stepE)
  case (1 item pc pc')
  then show ?thesis by (cases pc) (auto simp: bind_go_iff split: step_splits dest: switch_rank_down)
next
  case (2 ticks pc n' pc')
  then show ?thesis by (cases pc) (auto simp: bind_go_iff split: step_splits dest: switch_rank_down)
next
  case (3 pc pc')
  then show ?thesis by (cases pc) (auto split: if_splits)
qed

definition total_rank :: "races \<Rightarrow> nat" where
  "total_rank s = sum_list (map thread_rank (rc_threads s))"

fun is_go :: "race_label \<Rightarrow> bool" where
  "is_go (Go i choice now need) = True"
| "is_go _ = False"

lemma total_rank_step:
  assumes "fire_writes l s = Some (Inr s')"
  shows "total_rank s' + one_if (is_go l) \<le> total_rank s"
proof (cases l)
  case (Go i choice now need)
  then obtain t' s1 where g: "i < length (rc_threads s)"
      "thread_step i choice now need (rc_threads s ! i) s = Some (Inr (t', s1))"
      "s' = s1\<lparr>rc_threads := (rc_threads s)[i := t']\<rparr>"
    using assms fire_GoE by metis
  let ?r = "map thread_rank (rc_threads s)"
  have "thread_rank t' < ?r ! i" using thread_rank_down [OF g(2)] g(1) by simp
  moreover have "total_rank s' = sum_list ?r + thread_rank t' - ?r ! i"
    using g(1) sum_list_update [of i ?r "thread_rank t'"] by (simp add: total_rank_def g(3) map_update)
  moreover have "?r ! i \<le> sum_list ?r" using g(1) by (intro elem_le_sum_list) simp
  ultimately show ?thesis using Go by (simp add: total_rank_def one_if_def)
qed (use assms in \<open>auto simp: total_rank_def one_if_def bind_go_iff split: step_splits\<close>)

lemma exec_rank: "exec fire_writes ls s s' \<Longrightarrow> length (filter is_go ls) + total_rank s' \<le> total_rank s"
proof (induction rule: exec.induct)
  case (exec_done s)
  then show ?case by simp
next
  case (exec_step ls s s1 l s2)
  then show ?case using total_rank_step [of l s1 s2] by (auto simp: one_if_def split: if_splits)
qed

text \<open>A goroutine that has returned, or the monitor waiting for a tick that does not come.\<close>

fun settled :: "bool \<Rightarrow> thread \<Rightarrow> bool" where
  "settled stop (Writer item pc) = (case pc of WDone err \<Rightarrow> True | _ \<Rightarrow> False)"
| "settled stop (Monitor ticks pc) = (pc = MExit \<or> pc = MLoop \<and> ticks = 0 \<and> \<not> stop)"
| "settled stop (Closer pc) = (pc = CDone)"

definition can_move :: "races \<Rightarrow> nat \<Rightarrow> bool" where
  "can_move s i \<longleftrightarrow> (\<exists>need s'. fire_writes (Go i None 0 need) s = Some (Inr s'))"

lemma can_moveI:
  assumes "race_inv s" "i < length (rc_threads s)" "thread_step i None 0 need (rc_threads s ! i) s \<noteq> None"
  shows "can_move s i"
proof -
  obtain r where "fire_writes (Go i None 0 need) s = Some r" using assms(2,3) by auto
  with go_keeps [OF assms(1)] obtain s' where "fire_writes (Go i None 0 need) s = Some (Inr s')" by metis
  then show ?thesis unfolding can_move_def by blast
qed

lemma switch_enabled: "p \<noteq> SEnd \<Longrightarrow> p = SLock \<longrightarrow> rc_switchLock s = None \<Longrightarrow> switch_step i choice now p s \<noteq> None"
  by (cases p) auto

lemma move_switching:
  assumes "race_inv s" "i < length (rc_threads s)" "switch_pc_of (rc_threads s ! i) = p" "p \<noteq> SEnd"
    "p = SLock \<longrightarrow> rc_switchLock s = None"
  shows "can_move s i"
proof -
  obtain r where "switch_step i None 0 p s = Some r" using switch_enabled [OF assms(4,5), of i None 0] by auto
  then have "thread_step i None 0 False (rc_threads s ! i) s \<noteq> None"
    using assms(3,4) by (cases "rc_threads s ! i" rule: switch_pc_of.cases) auto
  then show ?thesis by (rule can_moveI [OF assms(1,2)])
qed

lemma move_unlocked:
  assumes "race_inv s" "i < length (rc_threads s)" "rc_switchLock s = None" "\<not> settled (rc_stop s) (rc_threads s ! i)"
    "\<forall>item. rc_threads s ! i = Writer item WLock \<longrightarrow> rc_writeLock s = None"
    "rc_threads s ! i = Closer CWait \<longrightarrow> list_all monitor_gone (rc_threads s)"
  shows "can_move s i"
proof (cases "switch_pc_of (rc_threads s ! i) = SEnd")
  case False
  then show ?thesis using move_switching [OF assms(1,2) refl] assms(3) by simp
next
  case True
  have "thread_step i None 0 False (rc_threads s ! i) s \<noteq> None"
  proof (cases "rc_threads s ! i")
    case (Writer item pc)
    then show ?thesis using assms(4,5) True by (cases pc) auto
  next
    case (Monitor ticks pc)
    then show ?thesis using assms(4) True by (cases pc) auto
  next
    case (Closer pc)
    then show ?thesis using assms(4,6) by (cases pc) auto
  qed
  then show ?thesis by (rule can_moveI [OF assms(1,2)])
qed

lemma no_deadlock:
  assumes "race_inv s" "\<exists>t \<in> set (rc_threads s). \<not> settled (rc_stop s) t"
  shows "\<exists>i. can_move s i"
proof (cases "rc_switchLock s")
  case (Some k)
  have "owner_ok (has_switch_lock \<circ> switch_pc_of) (rc_switchLock s) (rc_threads s)"
    using assms(1) by (simp add: race_inv_def lock_inv_def)
  then have k: "k < length (rc_threads s)" "has_switch_lock (switch_pc_of (rc_threads s ! k))"
    using Some by (auto simp: owner_ok_def)
  then have "can_move s k" using move_switching [OF assms(1) k(1) refl] by (auto simp: has_switch_lock_def)
  then show ?thesis ..
next
  case None
  note move = move_unlocked [OF assms(1) _ None]
  have own: "owner_ok has_write_lock (rc_writeLock s) (rc_threads s)" using assms(1) by (simp add: race_inv_def lock_inv_def)
  obtain i where i: "i < length (rc_threads s)" "\<not> settled (rc_stop s) (rc_threads s ! i)"
    using assms(2) by (auto simp: in_set_conv_nth)
  consider (lock) item where "rc_threads s ! i = Writer item WLock" "rc_writeLock s \<noteq> None"
    | (wait) "rc_threads s ! i = Closer CWait" "\<not> list_all monitor_gone (rc_threads s)"
    | (free) "\<forall>item. rc_threads s ! i = Writer item WLock \<longrightarrow> rc_writeLock s = None"
        "rc_threads s ! i = Closer CWait \<longrightarrow> list_all monitor_gone (rc_threads s)"
    by blast
  then show ?thesis
  proof cases
    case lock
    then obtain k where "rc_writeLock s = Some k" by blast
    then have k: "k < length (rc_threads s)" "has_write_lock (rc_threads s ! k)" using own by (auto simp: owner_ok_def)
    then obtain item pc where w: "rc_threads s ! k = Writer item pc" by (cases "rc_threads s ! k") auto
    then have "can_move s k" using k(2) by (intro move [OF k(1)]) (auto split: write_pc.splits)
    then show ?thesis ..
  next
    case wait
    have "Closer CWait \<in> set (rc_threads s)" using i(1) wait(1) by (metis nth_mem)
    then have stop: "rc_stop s" using assms(1) by (force simp: race_inv_def close_inv_def)
    obtain k where k: "k < length (rc_threads s)" "\<not> monitor_gone (rc_threads s ! k)"
      using wait(2) by (auto simp: list_all_length)
    then obtain ticks pc where m: "rc_threads s ! k = Monitor ticks pc" "pc \<noteq> MExit" by (cases "rc_threads s ! k") auto
    then have "can_move s k" using stop by (intro move [OF k(1)]) auto
    then show ?thesis ..
  next
    case free
    then show ?thesis using move [OF i(1,2)] by blast
  qed
qed

section \<open>Runs\<close>

definition race_run :: "int \<Rightarrow> buffer_item list \<Rightarrow> nat \<Rightarrow> nat \<Rightarrow> race_label list \<Rightarrow> races option" where
  "race_run sz items ticks closers ls =
     (case race_start sz items ticks closers of
        Inl p \<Rightarrow> None
      | Inr s \<Rightarrow> (case run_labels fire_writes ls s of Some (Inr s') \<Rightarrow> Some s' | _ \<Rightarrow> None))"

lemma race_run_exec:
  "race_run sz items ticks closers ls = Some s \<Longrightarrow>
   \<exists>s0. race_start sz items ticks closers = Inr s0 \<and> exec fire_writes ls s0 s"
  by (auto simp: race_run_def intro: run_labels_exec split: option.splits sum.splits)

definition demo_item :: "nat \<Rightarrow> buffer_item" where
  "demo_item n = \<lparr>bi_Ptr = UserMem n, bi_Size = 8\<rparr>"

text \<open>\<open>steps i n\<close>: the goroutine \<open>i\<close> takes \<open>n\<close> steps; the ticks of the monitor ask for a switch.\<close>

definition steps :: "nat \<Rightarrow> nat \<Rightarrow> race_label list" where
  "steps i n = replicate n (Go i None 0 True)"

section \<open>Properties\<close>

lemma reach_inv:
  assumes "race_start sz items ticks closers = Inr s0" "1 \<le> sz" "sz < 2 ^ 31" "exec fire_writes ls s0 s"
  shows "race_inv s"
  using write_race.always_inv [OF assms(4) race_start_inv [OF assms(1-3)]] .

text \<open>
  Mutual exclusion and safety of concurrent calls. In every interleaving of any number of calls of
  \<open>Write\<close> and \<open>Close\<close> with the monitor and the consumer, at the granularity of single accesses to shared
  memory: no step panics; at most one goroutine is between the successful compare-and-swap and the release of the
  state of a switch, and the state is \<open>SwitchingState\<close> exactly then; at most one is in the slow path of \<open>Write\<close>; no
  ring holds more than its capacity.
\<close>

theorem concurrent_calls_exclusive:
  assumes "race_start sz items ticks closers = Inr s0" "1 \<le> sz" "sz < 2 ^ 31" "exec fire_writes ls s0 s"
  shows "fire_writes l s \<noteq> Some (Inl p) \<and>
    (let ts = rc_threads s in
      (\<forall>i j. i < length ts \<and> j < length ts \<and> inside (switch_pc_of (ts ! i)) \<and> inside (switch_pc_of (ts ! j)) \<longrightarrow> i = j) \<and>
      (rc_state s = SwitchingState \<longleftrightarrow> (\<exists>t \<in> set ts. inside (switch_pc_of t))) \<and>
      (\<forall>i j. i < length ts \<and> j < length ts \<and> has_write_lock (ts ! i) \<and> has_write_lock (ts ! j) \<longrightarrow> i = j)) \<and>
    (\<forall>r < rc_next s. Len (rc_mem s r) \<le> rc_size s)"
proof -
  have inv: "race_inv s" by (rule reach_inv [OF assms])
  then have "lock_inv s" by (simp add: race_inv_def)
  note exclusive = lock_inv_exclusive [OF this]
  have "Len (rc_mem s r) \<le> rc_size s" if "r < rc_next s" for r
    using inv that by (auto simp: race_inv_def ring_inv_def ring_ok_def sb_inv_def Len_def)
  moreover have "fire_writes l s \<noteq> Some (Inl p)" by (rule write_race.no_panic [OF inv])
  ultimately show ?thesis using exclusive unfolding Let_def by blast
qed

theorem concurrent_calls_exclusive_witness:
  "\<exists>s. race_run 1 [demo_item 1, demo_item 2] 1 1 (steps 1 5 @ steps 2 8 @ steps 0 2 @ steps 3 1) = Some s \<and>
     rc_state s = SwitchingState \<and> fire_writes (Go 2 None 0 True) s \<noteq> Some (Inl CloseOfClosedChannel)"
proof -
  let ?ls = "steps 1 5 @ steps 2 8 @ steps 0 2 @ steps 3 1"
  have "map_option rc_state (race_run 1 [demo_item 1, demo_item 2] 1 1 ?ls) = Some SwitchingState" by code_simp
  then obtain s where s: "race_run 1 [demo_item 1, demo_item 2] 1 1 ?ls = Some s" "rc_state s = SwitchingState" by auto
  then obtain s0 where "race_start 1 [demo_item 1, demo_item 2] 1 1 = Inr s0" "exec fire_writes ?ls s0 s"
    using race_run_exec by blast
  from concurrent_calls_exclusive [OF this(1) _ _ this(2), of "Go 2 None 0 True" CloseOfClosedChannel] s show ?thesis by auto
qed



text \<open>
  C8: concurrent calls return. \<open>n\<close> calls of \<open>Write\<close>, \<open>c\<close> calls of \<open>Close\<close> and a monitor with \<open>k\<close> ticks
  take at most \<open>21 * n + 6 * c + 12 * k + 1\<close> steps together, in every interleaving, and as long as one of them
  has not returned, one of them can take a step: the two mutexes, the state and the waiting of \<open>Close\<close> for the monitor
  do not deadlock.
\<close>

theorem concurrent_calls_return:
  assumes "race_start sz items ticks closers = Inr s0" "1 \<le> sz" "sz < 2 ^ 31" "exec fire_writes ls s0 s"
  shows "length (filter is_go ls) \<le> 21 * length items + 6 * closers + 12 * ticks + 1 \<and>
    ((\<forall>i. \<not> can_move s i) \<longrightarrow> (\<forall>t \<in> set (rc_threads s). settled (rc_stop s) t))"
proof -
  have ts: "rc_threads s0 = Monitor ticks MLoop # map (\<lambda>x. Writer x WStart) items @ replicate closers (Closer CCas)"
    using assms(1) by (auto simp: race_start_def bind_go_iff)
  have "map (thread_rank \<circ> (\<lambda>x. Writer x WStart)) items = replicate (length items) 21"
    by (simp add: map_replicate_const comp_def)
  then have "total_rank s0 = 21 * length items + 6 * closers + 12 * ticks + 1"
    by (simp add: total_rank_def ts sum_list_replicate comp_def)
  then have "length (filter is_go ls) \<le> 21 * length items + 6 * closers + 12 * ticks + 1"
    using exec_rank [OF assms(4)] by simp
  moreover have "\<forall>t \<in> set (rc_threads s). settled (rc_stop s) t" if "\<forall>i. \<not> can_move s i"
    using no_deadlock [OF reach_inv [OF assms]] that by blast
  ultimately show ?thesis by blast
qed

theorem concurrent_calls_return_witness:
  "\<exists>s. race_run 1 [demo_item 1, demo_item 2] 0 1 (steps 1 5 @ steps 2 20 @ steps 3 4) = Some s \<and>
     length (filter is_go (steps 1 5 @ steps 2 20 @ steps 3 4)) \<le> 49 \<and> (\<exists>i. can_move s i)"
proof -
  let ?ls = "steps 1 5 @ steps 2 20 @ steps 3 4"
  have "map_option (\<lambda>s. list_all (settled (rc_stop s)) (rc_threads s)) (race_run 1 [demo_item 1, demo_item 2] 0 1 ?ls) = Some False"
    by code_simp
  then obtain s where s: "race_run 1 [demo_item 1, demo_item 2] 0 1 ?ls = Some s"
      "\<not> list_all (settled (rc_stop s)) (rc_threads s)" by auto
  then obtain s0 where r: "race_start 1 [demo_item 1, demo_item 2] 0 1 = Inr s0" "exec fire_writes ?ls s0 s"
    using race_run_exec by blast
  show ?thesis using concurrent_calls_return [OF r(1) _ _ r(2)] s by (auto simp: list_all_iff)
qed

section \<open>Schedules with other outcomes\<close>

text \<open>
  A call of \<open>Write\<close> that has passed its first check succeeds after \<open>Close\<close> has returned: the slow path does
  not look at the state. The item is in a ring that has been put back into the pool.
\<close>

theorem write_after_close_accepted:
  "map_option (\<lambda>s. (rc_threads s, reachable_items s, rc_active s \<in> set (rc_pool s)))
     (race_run 2 [demo_item 1] 0 1 (steps 1 1 @ steps 2 4 @ steps 0 1 @ steps 2 2 @ steps 1 7)) =
   Some ([Monitor 0 MExit, Writer (demo_item 1) (WDone None), Closer CDone], [demo_item 1], True)"
  by code_simp

text \<open>
  A call of \<open>Write\<close> fails although nothing is wrong: it has switched the full ring, and before it writes, another
  writer fills the new one.
\<close>

theorem write_fails_under_contention:
  "map_option (\<lambda>s. (rc_threads s ! 2, rc_state s, rc_stop s))
     (race_run 1 [demo_item 1, demo_item 2, demo_item 3] 0 0 (steps 1 5 @ steps 2 17 @ steps 3 5 @ steps 2 3)) =
   Some (Writer (demo_item 2) (WDone (Some ErrBufferReadOnly)), WritingState, False)"
  by code_simp

text \<open>The count of the active ring drifts: a writer adds one after a switch has reset the counter.\<close>

theorem count_drifts:
  "map_option (\<lambda>s. (rc_count s, Len (rc_mem s (rc_active s)), rc_threads s ! 1))
     (race_run 2 [demo_item 1] 1 0 (steps 1 4 @ steps 0 12 @ steps 1 1)) =
   Some (1, 0, Writer (demo_item 1) (WDone None))"
  by code_simp

text \<open>
  A writer holds a pointer to the active ring while the ring is switched out, found empty by the consumer and put
  back into the pool: the write succeeds, and the item is in no ring the consumer will see.
\<close>

theorem stale_pointer_strands_item:
  "map_option (\<lambda>s. (accepted s, rc_delivered s, reachable_items s, rc_pool s, rc_threads s ! 1))
     (race_run 2 [demo_item 1] 1 0 (steps 1 3 @ steps 0 12 @ [Take 0, Recycle] @ steps 1 2)) =
   Some ([demo_item 1], [], [], [0], Writer (demo_item 1) (WDone None))"
  by code_simp

end
