(* ===== verification/Push_Race.thy ===== *)
theory Push_Race
  imports Smart_Buffer Exec_Spec
begin

text \<open>
  \<open>SmartBuffer.Push\<close> at the granularity of its atomic instructions, executed by several writers on one
  buffer. A writer is its item, its position in the code and its local variable \<open>head\<close>; one step is
  one load, compare-and-swap, store or addition. The loop over \<open>maxRetry\<close> only reads the slot that the
  store writes, at the same index, and is left out. Shown: a writer that is not disturbed does what \<open>Push\<close>
  of \<open>Smart_Buffer\<close> does; when there is room for all writers every push succeeds and no item is lost;
  without that, the check of the count and the reservation of the slot are not one step, so the ring
  can be overfilled, but by less than the number of writers.
\<close>

section \<open>Writers\<close>

datatype push_pc =
    AtState
  | AtCount
  | AtSetReadOnly
  | AtHead
  | AtCas
  | AtStore
  | AtInc
  | Done "ts_error option"

record push_thread =
  th_item :: buffer_item
  th_pc :: push_pc
  th_head :: int

definition new_thread :: "buffer_item \<Rightarrow> push_thread" where
  "new_thread x = \<lparr>th_item = x, th_pc = AtState, th_head = 0\<rparr>"

definition push_step :: "push_thread \<Rightarrow> smart_buffer \<Rightarrow> (push_thread \<times> smart_buffer) go" where
  "push_step t s =
     (case th_pc t of
        AtState \<Rightarrow>
          Inr (t\<lparr>th_pc := (if sb_state s = ReadOnly then Done (Some ErrBufferReadOnly) else AtCount)\<rparr>, s)
      | AtCount \<Rightarrow>
          Inr (t\<lparr>th_pc := (if sb_count s \<ge> sb_capacity s then AtSetReadOnly else AtHead)\<rparr>, s)
      | AtSetReadOnly \<Rightarrow>
          Inr (t\<lparr>th_pc := Done (Some ErrBufferReadOnly)\<rparr>,
               if sb_state s = WriteOnly then s\<lparr>sb_state := ReadOnly\<rparr> else s)
      | AtHead \<Rightarrow> Inr (t\<lparr>th_pc := AtCas, th_head := sb_head s\<rparr>, s)
      | AtCas \<Rightarrow>
          if sb_head s = th_head t
          then Inr (t\<lparr>th_pc := AtStore\<rparr>, s\<lparr>sb_head := wrap32 (th_head t + 1)\<rparr>)
          else Inr (t\<lparr>th_pc := AtState\<rparr>, s)
      | AtStore \<Rightarrow>
          (case slot_set (sb_buf s) (calcPos s (th_head t)) (th_item t) of
             Inl p \<Rightarrow> Inl p
           | Inr b \<Rightarrow> Inr (t\<lparr>th_pc := AtInc\<rparr>, s\<lparr>sb_buf := b\<rparr>))
      | AtInc \<Rightarrow> Inr (t\<lparr>th_pc := Done None\<rparr>, s\<lparr>sb_count := wrap32 (sb_count s + 1)\<rparr>)
      | Done err \<Rightarrow> Inr (t, s))"

section \<open>One writer alone\<close>

fun push_solo :: "nat \<Rightarrow> push_thread \<Rightarrow> smart_buffer \<Rightarrow> (push_thread \<times> smart_buffer) go" where
  "push_solo 0 t s = Inr (t, s)"
| "push_solo (Suc n) t s = (case push_step t s of Inl p \<Rightarrow> Inl p | Inr (t', s') \<Rightarrow> push_solo n t' s')"

section \<open>Several writers\<close>

fun is_done :: "push_pc \<Rightarrow> bool" where
  "is_done (Done err) = True"
| "is_done _ = False"

lemma is_done_iff: "is_done pc \<longleftrightarrow> (\<exists>err. pc = Done err)"
  by (cases pc) simp_all

fun fire_race :: "nat \<Rightarrow> push_thread list \<times> smart_buffer \<Rightarrow> (push_thread list \<times> smart_buffer) go option" where
  "fire_race k (ts, s) =
     (if k < length ts \<and> \<not> is_done (th_pc (ts ! k)) then
        (case push_step (ts ! k) s of
           Inl p \<Rightarrow> Some (Inl p)
         | Inr (t, s') \<Rightarrow> Some (Inr (ts[k := t], s')))
      else None)"

lemma fire_raceE:
  assumes "fire_race k (ts, s) = Some r"
  shows "k < length ts" "\<forall>err. th_pc (ts ! k) \<noteq> Done err"
    "case push_step (ts ! k) s of Inl p \<Rightarrow> r = Inl p | Inr (t, s') \<Rightarrow> r = Inr (ts[k := t], s')"
  using assms by (auto simp: is_done_iff split: if_splits sum.splits)

definition number_of :: "(push_thread \<Rightarrow> bool) \<Rightarrow> push_thread list \<Rightarrow> int" where
  "number_of P ts = int (length (filter P ts))"

lemma number_of_update:
  "k < length ts \<Longrightarrow> number_of P (ts[k := t]) = number_of P ts - of_bool (P (ts ! k)) + of_bool (P t)"
proof (induction ts arbitrary: k)
  case Nil
  then show ?case by simp
next
  case (Cons x xs)
  then show ?case by (cases k) (auto simp: number_of_def)
qed

lemma number_of_bounds: "0 \<le> number_of P ts" "number_of P ts \<le> int (length ts)"
  by (simp_all add: number_of_def)

subsection \<open>How far the ring can be overfilled\<close>

definition in_flight :: "push_thread \<Rightarrow> bool" where
  "in_flight t \<longleftrightarrow> th_pc t \<in> {AtHead, AtCas, AtStore, AtInc}"

fun race_inv :: "int \<Rightarrow> nat \<Rightarrow> push_thread list \<times> smart_buffer \<Rightarrow> bool" where
  "race_inv c n (ts, s) =
     (length ts = n \<and> sb_capacity s = c \<and> 0 \<le> c \<and> c + int n < 2 ^ 31 \<and> length (sb_buf s) = nat c \<and>
      0 \<le> sb_count s \<and> sb_count s + number_of in_flight ts \<le> c + int n - 1 \<and>
      (0 < number_of in_flight ts \<longrightarrow> 0 < c))"

lemma slot_set_ok:
  assumes "0 < sb_capacity s" "sb_capacity s < 2 ^ 31" "length (sb_buf s) = nat (sb_capacity s)"
  shows "slot_set (sb_buf s) (calcPos s i) x = Inr ((sb_buf s)[nat (i mod sb_capacity s) := x])"
  using assms by (simp add: slot_set_def calcPos_mod)

lemma race_push_ok:
  assumes inv: "race_inv c n (ts, s)" and k: "k < length ts"
  shows "\<exists>t s'. push_step (ts ! k) s = Inr (t, s') \<and> race_inv c n (ts[k := t], s')"
proof -
  let ?t = "ts ! k"
  have up: "number_of in_flight (ts[k := t]) = number_of in_flight ts - of_bool (in_flight ?t) + of_bool (in_flight t)" for t
    by (rule number_of_update [OF k])
  have le: "number_of in_flight (ts[k := t]) \<le> int n" "0 \<le> number_of in_flight (ts[k := t])" for t
    using number_of_bounds [of in_flight "ts[k := t]"] inv by auto
  have pos: "0 < c" if "in_flight ?t"
  proof -
    have "?t \<in> set (filter in_flight ts)" using that k by simp
    then have "0 < number_of in_flight ts" by (auto simp: number_of_def filter_empty_conv)
    then show ?thesis using inv by simp
  qed
  show ?thesis
  proof (cases "th_pc ?t")
    case AtCount
    show ?thesis
    proof (cases "sb_count s \<ge> sb_capacity s")
      case True
      then show ?thesis
        using AtCount inv up [of "?t\<lparr>th_pc := AtSetReadOnly\<rparr>"] by (simp add: push_step_def in_flight_def)
    next
      case False
      then show ?thesis
        using AtCount inv le [of "?t\<lparr>th_pc := AtHead\<rparr>"] by (simp add: push_step_def)
    qed
  next
    case AtStore
    have "in_flight ?t" using AtStore by (simp add: in_flight_def)
    then have "slot_set (sb_buf s) (calcPos s (th_head ?t)) (th_item ?t) =
        Inr ((sb_buf s)[nat (th_head ?t mod sb_capacity s) := th_item ?t])"
      using pos inv by (intro slot_set_ok) auto
    then show ?thesis
      using AtStore inv up [of "?t\<lparr>th_pc := AtInc\<rparr>"] by (simp add: push_step_def in_flight_def)
  next
    case AtInc
    have w: "wrap32 (sb_count s + 1) = sb_count s + 1"
      using inv number_of_bounds(1) [of in_flight ts] by simp
    then show ?thesis
      using AtInc inv up [of "?t\<lparr>th_pc := Done None\<rparr>"] by (simp add: push_step_def in_flight_def)
  next
    case AtState
    then show ?thesis
      using inv up [of "?t\<lparr>th_pc := AtCount\<rparr>"] up [of "?t\<lparr>th_pc := Done (Some ErrBufferReadOnly)\<rparr>"]
      by (simp add: push_step_def in_flight_def)
  next
    case AtSetReadOnly
    then show ?thesis
      using inv up [of "?t\<lparr>th_pc := Done (Some ErrBufferReadOnly)\<rparr>"] by (simp add: push_step_def in_flight_def)
  next
    case AtHead
    then show ?thesis
      using inv up [of "?t\<lparr>th_pc := AtCas, th_head := sb_head s\<rparr>"] by (simp add: push_step_def in_flight_def)
  next
    case AtCas
    then show ?thesis
      using inv up [of "?t\<lparr>th_pc := AtStore\<rparr>"] up [of "?t\<lparr>th_pc := AtState\<rparr>"]
      by (simp add: push_step_def in_flight_def)
  next
    case (Done err)
    then show ?thesis using inv by (simp add: push_step_def)
  qed
qed

lemma fire_race_ok:
  assumes "fire_race k (ts, s) = Some r" "\<exists>t s'. push_step (ts ! k) s = Inr (t, s') \<and> P (ts[k := t], s')"
  shows "\<exists>st. r = Inr st \<and> P st"
  using fire_raceE(3) [OF assms(1)] assms(2) by auto

interpretation race: safe_system fire_race "race_inv c n" for c n
proof unfold_locales
  fix st st' :: "push_thread list \<times> smart_buffer" and l p
  assume inv: "race_inv c n st"
  obtain ts s where st: "st = (ts, s)" by fastforce
  have ok: "\<exists>st'. r = Inr st' \<and> race_inv c n st'" if "fire_race l st = Some r" for r
    using fire_race_ok [of l ts s r] race_push_ok [OF inv [unfolded st] fire_raceE(1) [OF that [unfolded st]]]
      that [unfolded st] by blast
  show "fire_race l st \<noteq> Some (Inl p)" using ok by blast
  show "race_inv c n st'" if "fire_race l st = Some (Inr st')" using ok [OF that] by auto
qed

subsection \<open>Room for everybody\<close>

definition reserved :: "push_thread \<Rightarrow> bool" where
  "reserved t \<longleftrightarrow> th_pc t \<in> {AtStore, AtInc, Done None}"

definition stored :: "push_thread \<Rightarrow> bool" where
  "stored t \<longleftrightarrow> th_pc t \<in> {AtInc, Done None}"

definition finished :: "push_thread \<Rightarrow> bool" where
  "finished t \<longleftrightarrow> th_pc t = Done None"

definition refused :: "push_thread \<Rightarrow> bool" where
  "refused t \<longleftrightarrow> th_pc t = AtSetReadOnly \<or> (\<exists>e. th_pc t = Done (Some e))"

definition slot_of :: "smart_buffer \<Rightarrow> int \<Rightarrow> nat" where
  "slot_of s i = nat (i mod sb_capacity s)"

definition roomy :: "smart_buffer \<Rightarrow> nat \<Rightarrow> bool" where
  "roomy s n \<longleftrightarrow> sb_inv s \<and> sb_state s \<noteq> ReadOnly \<and> sb_count s + int n \<le> sb_capacity s \<and> sb_head s + int n < 2 ^ 31"

definition heads_ok :: "smart_buffer \<Rightarrow> push_thread list \<Rightarrow> smart_buffer \<Rightarrow> bool" where
  "heads_ok s0 ts s \<longleftrightarrow>
     (\<forall>i < length ts. reserved (ts ! i) \<longrightarrow> sb_head s0 \<le> th_head (ts ! i) \<and> th_head (ts ! i) < sb_head s) \<and>
     (\<forall>i < length ts. \<forall>j < length ts. i \<noteq> j \<longrightarrow> reserved (ts ! i) \<longrightarrow> reserved (ts ! j) \<longrightarrow>
        th_head (ts ! i) \<noteq> th_head (ts ! j))"

definition slots_ok :: "smart_buffer \<Rightarrow> push_thread list \<Rightarrow> smart_buffer \<Rightarrow> bool" where
  "slots_ok s0 ts s \<longleftrightarrow>
     (\<forall>i < length ts. stored (ts ! i) \<longrightarrow> sb_buf s ! slot_of s0 (th_head (ts ! i)) = th_item (ts ! i)) \<and>
     (\<forall>j. sb_tail s0 \<le> j \<and> j < sb_head s0 \<longrightarrow> sb_buf s ! slot_of s0 j = sb_buf s0 ! slot_of s0 j)"

fun room_inv :: "smart_buffer \<Rightarrow> buffer_item list \<Rightarrow> push_thread list \<times> smart_buffer \<Rightarrow> bool" where
  "room_inv s0 xs (ts, s) \<longleftrightarrow>
     roomy s0 (length xs) \<and> map th_item ts = xs \<and>
     sb_capacity s = sb_capacity s0 \<and> sb_tail s = sb_tail s0 \<and> sb_state s = sb_state s0 \<and>
     length (sb_buf s) = length (sb_buf s0) \<and>
     sb_head s = sb_head s0 + number_of reserved ts \<and> sb_count s = sb_count s0 + number_of finished ts \<and>
     (\<forall>t \<in> set ts. \<not> refused t) \<and> heads_ok s0 ts s \<and> slots_ok s0 ts s"

lemma number_of_missing: "k < length ts \<Longrightarrow> \<not> P (ts ! k) \<Longrightarrow> number_of P ts < int (length ts)"
  using length_filter_less [of "ts ! k" ts P] by (simp add: number_of_def)

lemma roomyD:
  assumes "roomy s n"
  shows "0 \<le> sb_capacity s" "sb_capacity s < 2 ^ 31" "length (sb_buf s) = nat (sb_capacity s)"
    "0 \<le> sb_count s" "sb_head s = sb_tail s + sb_count s" "-1 \<le> sb_head s"
    "sb_head s + int n \<le> sb_tail s + sb_capacity s" "sb_head s + int n < 2 ^ 31"
  using assms by (auto simp: roomy_def sb_inv_def)

text \<open>Two indices of the window of old items and reservations use different slots.\<close>

lemma slot_of_distinct:
  assumes "roomy s n" "sb_tail s \<le> i" "i < sb_head s + int n" "sb_tail s \<le> j" "j < sb_head s + int n" "i \<noteq> j"
  shows "slot_of s i \<noteq> slot_of s j"
proof -
  have c: "0 < sb_capacity s" "i < j + sb_capacity s" "j < i + sb_capacity s"
    using roomyD [OF assms(1)] assms(2-5) by linarith+
  show ?thesis
  proof (cases "i < j")
    case True
    then show ?thesis using pos_distinct [OF c(1) _ c(3)] by (simp add: slot_of_def)
  next
    case False
    then have "j < i" using assms(6) by simp
    from pos_distinct [OF c(1) this c(2)] show ?thesis by (simp add: slot_of_def)
  qed
qed

lemma map_item_update: "k < length ts \<Longrightarrow> th_item t = th_item (ts ! k) \<Longrightarrow> map th_item (ts[k := t]) = map th_item ts"
  by (simp add: map_update list_update_same_conv)

lemma not_refused_update:
  "\<forall>t \<in> set ts. \<not> refused t \<Longrightarrow> \<not> refused t' \<Longrightarrow> \<forall>t \<in> set (ts[k := t']). \<not> refused t"
  using set_update_subset_insert [of ts k t'] by auto

lemma heads_update:
  assumes "heads_ok s0 ts s" "k < length ts" "sb_head s' = sb_head s"
    "reserved t \<Longrightarrow> reserved (ts ! k) \<and> th_head t = th_head (ts ! k)"
  shows "heads_ok s0 (ts[k := t]) s'"
proof -
  have r: "reserved (ts ! i)" "th_head (ts[k := t] ! i) = th_head (ts ! i)"
    if "i < length ts" "reserved (ts[k := t] ! i)" for i
    using that assms(2,4) by (cases "i = k"; simp)+
  show ?thesis
    using assms(1,3) unfolding heads_ok_def by (auto simp: r)
qed

lemma slots_update:
  assumes "slots_ok s0 ts s" "k < length ts" "sb_buf s' = sb_buf s"
    "stored t \<Longrightarrow> stored (ts ! k) \<and> th_head t = th_head (ts ! k) \<and> th_item t = th_item (ts ! k)"
  shows "slots_ok s0 (ts[k := t]) s'"
proof -
  have r: "stored (ts ! i)" "th_head (ts[k := t] ! i) = th_head (ts ! i)" "th_item (ts[k := t] ! i) = th_item (ts ! i)"
    if "i < length ts" "stored (ts[k := t] ! i)" for i
    using that assms(2,4) by (cases "i = k"; simp)+
  show ?thesis
    using assms(1,3) unfolding slots_ok_def by (auto simp: r)
qed

text \<open>A move of a writer that holds no reservation, before and after.\<close>

lemma idle_move:
  assumes inv: "room_inv s0 xs (ts, s)" and k: "k < length ts"
    and t: "th_item t = th_item (ts ! k)" "\<not> reserved (ts ! k)" "\<not> reserved t" "\<not> refused t"
  shows "room_inv s0 xs (ts[k := t], s)"
proof -
  have imp: "stored x \<Longrightarrow> reserved x" "finished x \<Longrightarrow> reserved x" for x
    by (auto simp: stored_def reserved_def finished_def)
  have "heads_ok s0 (ts[k := t]) s" "slots_ok s0 (ts[k := t]) s"
    using inv t(2,3) imp(1) by (auto intro!: heads_update [OF _ k] slots_update [OF _ k])
  moreover have "number_of reserved (ts[k := t]) = number_of reserved ts"
      "number_of finished (ts[k := t]) = number_of finished ts"
    using number_of_update [OF k, of reserved t] number_of_update [OF k, of finished t] t(2,3) imp(2) by auto
  ultimately show ?thesis
    using inv map_item_update [OF k t(1)] not_refused_update [OF _ t(4), of ts k] by auto
qed

lemma reserve_move:
  assumes inv: "room_inv s0 xs (ts, s)" and k: "k < length ts" and pc: "th_pc (ts ! k) = AtCas" "sb_head s = th_head (ts ! k)"
  shows "room_inv s0 xs (ts[k := (ts ! k)\<lparr>th_pc := AtStore\<rparr>], s\<lparr>sb_head := wrap32 (th_head (ts ! k) + 1)\<rparr>)"
proof -
  let ?t = "(ts ! k)\<lparr>th_pc := AtStore\<rparr>" and ?s = "s\<lparr>sb_head := sb_head s + 1\<rparr>"
  have room: "roomy s0 (length xs)" and len: "length ts = length xs" using inv by auto
  have res: "\<not> reserved (ts ! k)" "\<not> stored (ts ! k)" "\<not> finished (ts ! k)" "reserved ?t" "\<not> stored ?t" "\<not> finished ?t"
    using pc(1) by (simp_all add: reserved_def stored_def finished_def)
  have num: "number_of reserved (ts[k := ?t]) = number_of reserved ts + 1"
      "number_of finished (ts[k := ?t]) = number_of finished ts"
    using number_of_update [OF k, of reserved ?t] number_of_update [OF k, of finished ?t] res by auto
  have h: "sb_head s = sb_head s0 + number_of reserved ts" using inv by simp
  have "wrap32 (sb_head s + 1) = sb_head s + 1"
    using h number_of_missing [where P = reserved, OF k res(1)] number_of_bounds(1) [of reserved ts] roomyD [OF room] len by simp
  then have s': "s\<lparr>sb_head := wrap32 (th_head (ts ! k) + 1)\<rparr> = ?s" using pc(2) by simp
  have old: "sb_head s0 \<le> th_head (ts ! i)" "th_head (ts ! i) < sb_head s" if "i < length ts" "reserved (ts ! i)" for i
    using inv that by (auto simp: heads_ok_def)
  have dis: "th_head (ts ! i) \<noteq> th_head (ts ! j)" if "i < length ts" "j < length ts" "i \<noteq> j" "reserved (ts ! i)" "reserved (ts ! j)" for i j
    using inv that by (auto simp: heads_ok_def)
  have "heads_ok s0 (ts[k := ?t]) ?s"
    unfolding heads_ok_def
  proof (intro conjI allI impI)
    fix i assume i: "i < length (ts[k := ?t])" "reserved (ts[k := ?t] ! i)"
    show "sb_head s0 \<le> th_head (ts[k := ?t] ! i)" "th_head (ts[k := ?t] ! i) < sb_head ?s"
      using i old [of i] pc(2) h number_of_bounds(1) [of reserved ts] by (cases "i = k"; force)+
    fix j assume j: "j < length (ts[k := ?t])" "i \<noteq> j" "reserved (ts[k := ?t] ! j)"
    show "th_head (ts[k := ?t] ! i) \<noteq> th_head (ts[k := ?t] ! j)"
      using i j old [of i] old [of j] dis [of i j] pc(2) by (cases "i = k"; cases "j = k") auto
  qed
  moreover have "slots_ok s0 (ts[k := ?t]) ?s"
    using inv res(5) by (intro slots_update [OF _ k, of s0 s]) auto
  moreover have "\<not> refused ?t" by (simp add: refused_def)
  ultimately show ?thesis
    using inv num h map_item_update [OF k, of ?t] not_refused_update [of ts ?t k] unfolding s' by auto
qed

lemma store_move:
  assumes inv: "room_inv s0 xs (ts, s)" and k: "k < length ts" and pc: "th_pc (ts ! k) = AtStore"
  shows "\<exists>b. slot_set (sb_buf s) (calcPos s (th_head (ts ! k))) (th_item (ts ! k)) = Inr b \<and>
    room_inv s0 xs (ts[k := (ts ! k)\<lparr>th_pc := AtInc\<rparr>], s\<lparr>sb_buf := b\<rparr>)"
proof -
  let ?t = "(ts ! k)\<lparr>th_pc := AtInc\<rparr>" and ?h = "th_head (ts ! k)"
  let ?b = "(sb_buf s)[slot_of s0 ?h := th_item (ts ! k)]"
  have room: "roomy s0 (length xs)" and len: "length ts = length xs" and cap: "sb_capacity s = sb_capacity s0"
      "length (sb_buf s) = length (sb_buf s0)" "sb_head s = sb_head s0 + number_of reserved ts"
    using inv by auto
  note rd = roomyD [OF room]
  have res: "reserved (ts ! k)" "\<not> stored (ts ! k)" "\<not> finished (ts ! k)" "reserved ?t" "stored ?t" "\<not> finished ?t"
    using pc by (simp_all add: reserved_def stored_def finished_def)
  have win: "sb_head s0 \<le> th_head (ts ! i)" "th_head (ts ! i) < sb_head s0 + int (length xs)"
    if "i < length ts" "reserved (ts ! i)" for i
  proof -
    have "heads_ok s0 ts s" using inv by simp
    then have "sb_head s0 \<le> th_head (ts ! i) \<and> th_head (ts ! i) < sb_head s" using that by (simp add: heads_ok_def)
    then show "sb_head s0 \<le> th_head (ts ! i)" "th_head (ts ! i) < sb_head s0 + int (length xs)"
      using cap(3) number_of_bounds(2) [of reserved ts] len by linarith+
  qed
  have c: "0 < sb_capacity s0" using rd k len by simp
  have st: "slot_set (sb_buf s) (calcPos s ?h) (th_item (ts ! k)) = Inr ?b"
    using slot_set_ok [of s ?h "th_item (ts ! k)"] cap rd(2,3) c by (simp add: slot_of_def)
  have bnd: "slot_of s0 ?h < length (sb_buf s)"
    using c rd(3) cap(2) by (simp add: slot_of_def nat_less_iff)
  have tail: "sb_tail s0 \<le> sb_head s0" using rd by linarith
  have other: "slot_of s0 j \<noteq> slot_of s0 ?h" if "sb_tail s0 \<le> j" "j < sb_head s0 + int (length xs)" "j \<noteq> ?h" for j
    using slot_of_distinct [OF room that(1,2) _ _ that(3)] win [OF k res(1)] tail by linarith
  have dis: "th_head (ts ! i) \<noteq> ?h" if "i < length ts" "i \<noteq> k" "reserved (ts ! i)" for i
    using inv that res(1) k by (auto simp: heads_ok_def)
  have "slots_ok s0 (ts[k := ?t]) (s\<lparr>sb_buf := ?b\<rparr>)"
    unfolding slots_ok_def
  proof (intro conjI allI impI)
    fix i assume i: "i < length (ts[k := ?t])" "stored (ts[k := ?t] ! i)"
    show "sb_buf (s\<lparr>sb_buf := ?b\<rparr>) ! slot_of s0 (th_head (ts[k := ?t] ! i)) = th_item (ts[k := ?t] ! i)"
    proof (cases "i = k")
      case True
      then show ?thesis using k bnd by simp
    next
      case False
      then have r: "i < length ts" "stored (ts ! i)" "reserved (ts ! i)" using i by (auto simp: stored_def reserved_def)
      have "slot_of s0 (th_head (ts ! i)) \<noteq> slot_of s0 ?h"
        by (rule other) (use win [OF r(1,3)] tail dis [OF r(1) False r(3)] in linarith)+
      then show ?thesis using False r inv by (simp add: slots_ok_def)
    qed
  next
    fix j assume j: "sb_tail s0 \<le> j \<and> j < sb_head s0"
    then have "slot_of s0 j \<noteq> slot_of s0 ?h" using other [of j] win [OF k res(1)] by linarith
    then show "sb_buf (s\<lparr>sb_buf := ?b\<rparr>) ! slot_of s0 j = sb_buf s0 ! slot_of s0 j"
      using j inv by (simp add: slots_ok_def)
  qed
  moreover have "heads_ok s0 (ts[k := ?t]) (s\<lparr>sb_buf := ?b\<rparr>)"
    using inv res(1) by (intro heads_update [OF _ k, of s0 s]) auto
  moreover have "number_of reserved (ts[k := ?t]) = number_of reserved ts"
      "number_of finished (ts[k := ?t]) = number_of finished ts"
    using number_of_update [OF k, of reserved ?t] number_of_update [OF k, of finished ?t] res by auto
  moreover have "\<not> refused ?t" by (simp add: refused_def)
  ultimately have "room_inv s0 xs (ts[k := ?t], s\<lparr>sb_buf := ?b\<rparr>)"
    using inv map_item_update [OF k, of ?t] not_refused_update [of ts ?t k] by auto
  with st show ?thesis by blast
qed

lemma finish_move:
  assumes inv: "room_inv s0 xs (ts, s)" and k: "k < length ts" and pc: "th_pc (ts ! k) = AtInc"
  shows "room_inv s0 xs (ts[k := (ts ! k)\<lparr>th_pc := Done None\<rparr>], s\<lparr>sb_count := wrap32 (sb_count s + 1)\<rparr>)"
proof -
  let ?t = "(ts ! k)\<lparr>th_pc := Done None\<rparr>"
  have room: "roomy s0 (length xs)" and len: "length ts = length xs" using inv by auto
  have res: "reserved (ts ! k)" "stored (ts ! k)" "\<not> finished (ts ! k)" "reserved ?t" "stored ?t" "finished ?t"
    using pc by (simp_all add: reserved_def stored_def finished_def)
  have num: "number_of reserved (ts[k := ?t]) = number_of reserved ts"
      "number_of finished (ts[k := ?t]) = number_of finished ts + 1"
    using number_of_update [OF k, of reserved ?t] number_of_update [OF k, of finished ?t] res by auto
  have "sb_count s + 1 \<le> sb_capacity s0" "0 \<le> sb_count s"
    using inv number_of_missing [where P = finished, OF k res(3)] number_of_bounds(1) [of finished ts] roomyD [OF room] len
    by (auto simp: roomy_def)
  then have w: "wrap32 (sb_count s + 1) = sb_count s + 1" using roomyD(2) [OF room] by simp
  have "heads_ok s0 (ts[k := ?t]) (s\<lparr>sb_count := n\<rparr>)" "slots_ok s0 (ts[k := ?t]) (s\<lparr>sb_count := n\<rparr>)" for n
    using inv res(1,2) by (auto intro!: heads_update [OF _ k, of s0 s] slots_update [OF _ k, of s0 s])
  moreover have "\<not> refused ?t" by (simp add: refused_def)
  ultimately show ?thesis
    using inv num w map_item_update [OF k, of ?t] not_refused_update [of ts ?t k] by auto
qed

lemma room_step:
  assumes inv: "room_inv s0 xs (ts, s)" and k: "k < length ts"
  shows "\<exists>t s'. push_step (ts ! k) s = Inr (t, s') \<and> room_inv s0 xs (ts[k := t], s')"
proof -
  let ?t = "ts ! k"
  note idle = idle_move [OF inv k]
  have nr: "\<not> refused ?t" using inv k by auto
  show ?thesis
  proof (cases "th_pc ?t")
    case AtState
    then have "room_inv s0 xs (ts[k := ?t\<lparr>th_pc := AtCount\<rparr>], s)"
      by (intro idle) (auto simp: reserved_def refused_def)
    then show ?thesis using AtState inv by (simp add: push_step_def roomy_def)
  next
    case AtCount
    then have "number_of finished ts < int (length ts)" by (intro number_of_missing [OF k]) (simp add: finished_def)
    then have "\<not> sb_count s \<ge> sb_capacity s" using inv by (auto simp: roomy_def)
    moreover have "room_inv s0 xs (ts[k := ?t\<lparr>th_pc := AtHead\<rparr>], s)"
      using AtCount by (intro idle) (auto simp: reserved_def refused_def)
    ultimately show ?thesis using AtCount by (simp add: push_step_def)
  next
    case AtSetReadOnly
    then show ?thesis using nr by (simp add: refused_def)
  next
    case AtHead
    then have "room_inv s0 xs (ts[k := ?t\<lparr>th_pc := AtCas, th_head := sb_head s\<rparr>], s)"
      by (intro idle) (auto simp: reserved_def refused_def)
    then show ?thesis using AtHead by (simp add: push_step_def)
  next
    case AtCas
    then have "room_inv s0 xs (ts[k := ?t\<lparr>th_pc := AtState\<rparr>], s)"
      by (intro idle) (auto simp: reserved_def refused_def)
    then show ?thesis using AtCas reserve_move [OF inv k AtCas] by (simp add: push_step_def del: room_inv.simps)
  next
    case AtStore
    then show ?thesis using store_move [OF inv k AtStore] by (auto simp: push_step_def simp del: room_inv.simps)
  next
    case AtInc
    then show ?thesis using finish_move [OF inv k AtInc] by (simp add: push_step_def del: room_inv.simps)
  next
    case (Done err)
    then show ?thesis using inv by (simp add: push_step_def)
  qed
qed

interpretation room: safe_system fire_race "room_inv s0 xs" for s0 xs
proof unfold_locales
  fix st st' :: "push_thread list \<times> smart_buffer" and l p
  assume inv: "room_inv s0 xs st"
  obtain ts s where st: "st = (ts, s)" by fastforce
  have ok: "\<exists>st'. r = Inr st' \<and> room_inv s0 xs st'" if "fire_race l st = Some r" for r
    using fire_race_ok [of l ts s r] room_step [OF inv [unfolded st] fire_raceE(1) [OF that [unfolded st]]]
      that [unfolded st] by blast
  show "fire_race l st \<noteq> Some (Inl p)" using ok by blast
  show "room_inv s0 xs st'" if "fire_race l st = Some (Inr st')" using ok [OF that] by auto
qed

text \<open>When every writer is done, the reserved indices are a permutation of the new part of the window.\<close>

lemma all_finished:
  assumes "\<forall>t \<in> set ts. finished t"
  shows "number_of finished ts = int (length ts)" "number_of reserved ts = int (length ts)"
proof -
  have "\<forall>t \<in> set ts. reserved t" using assms by (auto simp: finished_def reserved_def)
  then show "number_of finished ts = int (length ts)" "number_of reserved ts = int (length ts)"
    using assms by (simp_all add: number_of_def filter_id_conv [THEN iffD2])
qed

lemma heads_permutation:
  assumes inv: "room_inv s0 xs (ts, s)" and fin: "\<forall>t \<in> set ts. finished t"
  shows "mset (map (\<lambda>t. nat (th_head t - sb_head s0)) ts) = mset [0..<length ts]"
proof -
  let ?f = "\<lambda>t. nat (th_head t - sb_head s0)"
  have h: "heads_ok s0 ts s" "sb_head s = sb_head s0 + int (length ts)"
    using inv all_finished [OF fin] by auto
  have r: "reserved (ts ! i)" if "i < length ts" for i
    using fin that by (auto simp: finished_def reserved_def)
  have rng: "sb_head s0 \<le> th_head (ts ! i)" "th_head (ts ! i) < sb_head s0 + int (length ts)" if "i < length ts" for i
    using h that r by (auto simp: heads_ok_def)
  have d: "distinct (map ?f ts)"
    unfolding distinct_conv_nth
  proof (intro allI impI)
    fix i j assume ij: "i < length (map ?f ts)" "j < length (map ?f ts)" "i \<noteq> j"
    then have "th_head (ts ! i) \<noteq> th_head (ts ! j)" using h(1) r by (simp add: heads_ok_def)
    then show "map ?f ts ! i \<noteq> map ?f ts ! j" using ij rng(1) [of i] rng(1) [of j] by simp
  qed
  have "set (map ?f ts) \<subseteq> {0..<length ts}"
  proof
    fix y assume "y \<in> set (map ?f ts)"
    then obtain i where i: "i < length ts" "y = ?f (ts ! i)" by (auto simp: in_set_conv_nth)
    then show "y \<in> {0..<length ts}" using rng [OF i(1)] by simp
  qed
  moreover have "card (set (map ?f ts)) = card {0..<length ts}" using distinct_card [OF d] by simp
  ultimately have "set (map ?f ts) = set [0..<length ts]" by (simp add: card_subset_eq)
  then show ?thesis using set_eq_iff_mset_eq_distinct [OF d distinct_upt] by blast
qed

lemma map_upt_add: "map g [0..<m + n] = map g [0..<m] @ map (\<lambda>j. g (m + j)) [0..<n]"
  by (induction n) simp_all

lemma room_result:
  assumes inv: "room_inv s0 xs (ts, s)" and fin: "\<forall>t \<in> set ts. finished t"
  shows "sb_inv s \<and> (\<exists>new. sb_items s = sb_items s0 @ new \<and> mset new = mset xs)"
proof -
  let ?n = "length ts" and ?f = "\<lambda>t. nat (th_head t - sb_head s0)" and ?c = "sb_capacity s0"
  let ?g = "\<lambda>i. sb_buf s ! slot_of s0 (sb_tail s0 + int i)"
  let ?new = "map (\<lambda>j. ?g (nat (sb_count s0) + j)) [0..<?n]"
  have room: "roomy s0 (length xs)" and len: "?n = length xs" and eqs: "sb_capacity s = ?c" "sb_tail s = sb_tail s0"
      "length (sb_buf s) = length (sb_buf s0)" "sb_head s = sb_head s0 + int ?n" "sb_count s = sb_count s0 + int ?n"
      "slots_ok s0 ts s" "map th_item ts = xs" "heads_ok s0 ts s"
    using inv all_finished [OF fin] by auto
  note rd = roomyD [OF room]
  have sinv: "sb_inv s" using room rd eqs len by (auto simp: roomy_def sb_inv_def)
  have "nat (sb_count s) = nat (sb_count s0) + ?n" using eqs(5) rd(4) by simp
  then have "sb_items s = map ?g [0..<nat (sb_count s0) + ?n]"
    using eqs by (simp add: sb_items_def slot_of_def)
  also have "\<dots> = map ?g [0..<nat (sb_count s0)] @ ?new"
    by (rule map_upt_add)
  also have "map ?g [0..<nat (sb_count s0)] = sb_items s0"
    using eqs(6) rd(4,5) by (auto simp: sb_items_def slots_ok_def slot_of_def intro!: map_cong)
  finally have items: "sb_items s = sb_items s0 @ ?new" .
  have "?g (nat (sb_count s0) + ?f t) = th_item t" if mem: "t \<in> set ts" for t
  proof -
    obtain i where i: "i < ?n" "t = ts ! i" using mem by (metis in_set_conv_nth)
    have st: "stored t" "reserved t" using fin mem by (auto simp: finished_def stored_def reserved_def)
    then have "sb_head s0 \<le> th_head t" using eqs(8) i by (auto simp: heads_ok_def)
    then have "sb_tail s0 + int (nat (sb_count s0) + ?f t) = th_head t" using rd(4,5) by simp
    then show ?thesis using eqs(6) i st by (simp add: slots_ok_def)
  qed
  then have "map (\<lambda>t. ?g (nat (sb_count s0) + ?f t)) ts = map th_item ts" by (rule map_cong [OF refl])
  moreover have "mset ?new = image_mset (\<lambda>j. ?g (nat (sb_count s0) + j)) (mset (map ?f ts))"
    by (simp only: heads_permutation [OF inv fin] mset_map [of _ "[0..<?n]"])
  ultimately have "mset ?new = mset xs"
    using eqs(7) by (simp add: mset_map [symmetric] comp_def del: mset_map)
  with items sinv show ?thesis by blast
qed

subsection \<open>With room, every schedule ends\<close>

text \<open>
  The number of steps a writer can still take. A compare-and-swap fails only because another writer
  has reserved a slot meanwhile, and only as many slots as writers are reserved; \<open>m\<close> is how many are left.
\<close>

definition steps_left :: "nat \<Rightarrow> int \<Rightarrow> push_thread \<Rightarrow> nat" where
  "steps_left m h t =
     (case th_pc t of
        AtState \<Rightarrow> 5 * m + 7
      | AtCount \<Rightarrow> 5 * m + 6
      | AtSetReadOnly \<Rightarrow> 1
      | AtHead \<Rightarrow> 5 * m + 5
      | AtCas \<Rightarrow> if th_head t = h then 5 * m + 4 else 5 * m + 8
      | AtStore \<Rightarrow> 2
      | AtInc \<Rightarrow> 1
      | Done err \<Rightarrow> 0)"

fun total_left :: "int \<Rightarrow> push_thread list \<times> smart_buffer \<Rightarrow> nat" where
  "total_left limit (ts, s) = sum_list (map (steps_left (nat (limit - sb_head s)) (sb_head s)) ts)"

lemma steps_left_reserve: "steps_left m h' t \<le> steps_left (Suc m) h t"
  by (auto simp: steps_left_def split: push_pc.split)

lemma sum_update_less:
  fixes f g :: "'a \<Rightarrow> nat"
  assumes "k < length ts" "\<And>x. g x \<le> f x" "g t < f (ts ! k)"
  shows "sum_list (map g (ts[k := t])) < sum_list (map f ts)"
  using assms(1,3)
proof (induction ts arbitrary: k)
  case Nil
  then show ?case by simp
next
  case (Cons x xs)
  have "sum_list (map g xs) \<le> sum_list (map f xs)" by (rule sum_list_mono) (rule assms(2))
  then show ?case using Cons assms(2) [of x] by (cases k) (auto intro: add_le_less_mono)
qed

lemma room_step_decreases:
  assumes inv: "room_inv s0 xs (ts, s)" and fire: "fire_race k (ts, s) = Some (Inr (ts', s'))"
  shows "total_left (sb_head s0 + int (length xs)) (ts', s') < total_left (sb_head s0 + int (length xs)) (ts, s)"
proof -
  let ?H = "sb_head s0 + int (length xs)" and ?t = "ts ! k"
  note k = fire_raceE(1) [OF fire] and live = fire_raceE(2) [OF fire]
  obtain t where t: "push_step ?t s = Inr (t, s')" "ts' = ts[k := t]"
    using fire_raceE(3) [OF fire] by (auto split: sum.splits)
  have same: ?thesis if "sb_head s' = sb_head s" "\<And>m. steps_left m (sb_head s) t < steps_left m (sb_head s) ?t"
    using sum_update_less [OF k order_refl that(2) [of "nat (?H - sb_head s)"]] that(1) t(2) by simp
  show ?thesis
  proof (cases "th_pc ?t = AtCas \<and> sb_head s = th_head ?t")
    case True
    have "\<not> reserved ?t" using True by (simp add: reserved_def)
    from number_of_missing [where P = reserved, OF k this]
    have lt: "sb_head s < ?H" "sb_head s0 \<le> sb_head s" using inv number_of_bounds(1) [of reserved ts] by auto
    have w: "wrap32 (sb_head s + 1) = sb_head s + 1" using lt inv roomyD [of s0 "length xs"] by simp
    have st: "t = ?t\<lparr>th_pc := AtStore\<rparr>" "sb_head s' = sb_head s + 1"
      using True t(1) w by (auto simp: push_step_def)
    have "nat (?H - sb_head s) = Suc (nat (?H - sb_head s'))" using lt st(2) by simp
    then show ?thesis
      using sum_update_less [OF k, of "steps_left (nat (?H - sb_head s')) (sb_head s')" "steps_left (nat (?H - sb_head s)) (sb_head s)" t] steps_left_reserve True st(1) t(2)
      by (simp add: steps_left_def)
  next
    case False
    have "sb_head s' = sb_head s" "\<And>m. steps_left m (sb_head s) t < steps_left m (sb_head s) ?t"
      using False t(1) live inv
      by (auto simp: push_step_def steps_left_def split: push_pc.splits if_splits sum.splits)
    then show ?thesis by (rule same)
  qed
qed

interpretation room_end: terminating_system fire_race "room_inv s0 xs" "total_left (sb_head s0 + int (length xs))" for s0 xs
proof unfold_locales
  fix st st' :: "push_thread list \<times> smart_buffer" and l
  assume "room_inv s0 xs st" "fire_race l st = Some (Inr st')"
  then show "total_left (sb_head s0 + int (length xs)) st' < total_left (sb_head s0 + int (length xs)) st"
    by (cases st; cases st') (simp only: room_step_decreases)
qed

lemma room_start:
  assumes "sb_inv s0" "sb_state s0 \<noteq> ReadOnly" "sb_count s0 + int (length xs) \<le> sb_capacity s0"
    and "sb_head s0 + int (length xs) < 2 ^ 31"
  shows "room_inv s0 xs (map new_thread xs, s0)"
proof -
  have zero: "number_of P (map new_thread xs) = 0" if "\<And>x. \<not> P (new_thread x)" for P
    using that by (simp add: number_of_def filter_map comp_def)
  have r: "\<not> reserved (new_thread x)" "\<not> stored (new_thread x)" "\<not> finished (new_thread x)" "\<not> refused (new_thread x)" for x
    by (simp_all add: new_thread_def reserved_def stored_def finished_def refused_def)
  show ?thesis
    using assms zero [of reserved] zero [of finished] r
    by (auto simp: roomy_def heads_ok_def slots_ok_def comp_def new_thread_def)
qed

section \<open>Properties\<close>

text \<open>
  An undisturbed writer needs at most six steps and then has done exactly what \<open>Push\<close> does.
\<close>

theorem solo_push_refines:
  assumes "sb_inv s"
  shows "case Push x s of
      Inl p \<Rightarrow> push_solo 6 (new_thread x) s = Inl p
    | Inr (err, s') \<Rightarrow> \<exists>t. push_solo 6 (new_thread x) s = Inr (t, s') \<and> th_pc t = Done err"
proof -
  have six: "(6::nat) = Suc (Suc (Suc (Suc (Suc (Suc 0)))))" by simp
  have cp: "calcPos (s\<lparr>sb_head := h\<rparr>) i = calcPos s i" for h i unfolding calcPos_def Let_def by simp
  consider "sb_state s = ReadOnly" | "sb_state s \<noteq> ReadOnly" "sb_count s \<ge> sb_capacity s"
    | "sb_state s \<noteq> ReadOnly" "\<not> sb_count s \<ge> sb_capacity s" by blast
  then show ?thesis
  proof cases
    case 1
    then show ?thesis by (simp add: Push_def six new_thread_def push_step_def)
  next
    case 2
    then show ?thesis by (simp add: Push_def six new_thread_def push_step_def)
  next
    case 3
    then show ?thesis
      by (cases "slot_set (sb_buf s) (calcPos s (sb_head s)) x")
         (simp_all add: Push_def six new_thread_def push_step_def Let_def cp)
  qed
qed

theorem solo_push_refines_witness:
  "\<exists>s t s'. NewSmartBuffer 1 = Inr s \<and>
     push_solo 6 (new_thread \<lparr>bi_Ptr = UserMem 1, bi_Size = 5\<rparr>) s = Inr (t, s') \<and> th_pc t = Done None"
proof -
  obtain s where s: "NewSmartBuffer 1 = Inr s" "sb_inv s" "sb_state s = WriteOnly" "sb_capacity s = 1" "sb_head s = -1"
      "sb_items s = []"
    using NewSmartBuffer_ok [of 1] by auto
  have "sb_count s = 0" using s(2,6) by (simp add: sb_items_empty_iff)
  then have "Push \<lparr>bi_Ptr = UserMem 1, bi_Size = 5\<rparr> s = Inr (None, pushed \<lparr>bi_Ptr = UserMem 1, bi_Size = 5\<rparr> s)"
    using s by (intro Push_accepted) (simp_all add: WriteOnly_def ReadOnly_def)
  then show ?thesis using solo_push_refines [OF s(2), of "\<lparr>bi_Ptr = UserMem 1, bi_Size = 5\<rparr>"] s(1) by auto
qed

text \<open>
  C23: concurrent pushes with room for all are correct. If the ring has room for every writer, then in
  any interleaving of their instructions nothing panics, and when all have finished every push was
  accepted, the old items are still there in order, and behind them are exactly the pushed items.
\<close>

theorem concurrent_push_with_room:
  assumes "sb_inv s0" "sb_state s0 \<noteq> ReadOnly" "sb_count s0 + int (length xs) \<le> sb_capacity s0"
    and "sb_head s0 + int (length xs) < 2 ^ 31"
    and "exec fire_race ls (map new_thread xs, s0) (ts, s)"
  shows "(\<forall>k p. fire_race k (ts, s) \<noteq> Some (Inl p)) \<and>
    ((\<forall>t \<in> set ts. \<exists>err. th_pc t = Done err) \<longrightarrow>
       (\<forall>t \<in> set ts. th_pc t = Done None) \<and> sb_inv s \<and>
       (\<exists>new. sb_items s = sb_items s0 @ new \<and> mset new = mset xs))"
proof -
  have "room_inv s0 xs (map new_thread xs, s0)" by (rule room_start [OF assms(1-4)])
  note inv = room.always_inv [OF assms(5) this] and safe = room.always_safe [OF assms(5) this]
  have nr: "\<forall>t \<in> set ts. \<not> refused t" using inv by simp
  show ?thesis
  proof (intro conjI impI allI)
    show "fire_race k (ts, s) \<noteq> Some (Inl p)" for k p by (rule safe)
  next
    assume d: "\<forall>t \<in> set ts. \<exists>err. th_pc t = Done err"
    then have f: "\<forall>t \<in> set ts. th_pc t = Done None"
      using nr unfolding refused_def by (metis option.exhaust)
    then show "\<forall>t \<in> set ts. th_pc t = Done None" .
    have "\<forall>t \<in> set ts. finished t" using f by (simp add: finished_def)
    then show "sb_inv s" "\<exists>new. sb_items s = sb_items s0 @ new \<and> mset new = mset xs"
      using room_result [OF inv] by auto
  qed
qed

definition race_example :: "nat list \<Rightarrow> int \<Rightarrow> (push_thread list \<times> smart_buffer) option" where
  "race_example ks c =
     (case NewSmartBuffer c of
        Inl _ \<Rightarrow> None
      | Inr s \<Rightarrow>
          (case run_labels fire_race ks
                  (map new_thread [\<lparr>bi_Ptr = UserMem 1, bi_Size = 1\<rparr>, \<lparr>bi_Ptr = UserMem 2, bi_Size = 2\<rparr>], s) of
             Some (Inr st) \<Rightarrow> Some st
           | _ \<Rightarrow> None))"

theorem concurrent_push_with_room_witness:
  "\<exists>ts s. race_example [0, 1, 0, 1, 0, 1, 0, 1, 0, 0, 1, 1, 1, 1, 1, 1] 2 = Some (ts, s) \<and>
     (\<forall>t \<in> set ts. th_pc t = Done None) \<and>
     mset (sb_items s) = {#\<lparr>bi_Ptr = UserMem 1, bi_Size = 1\<rparr>, \<lparr>bi_Ptr = UserMem 2, bi_Size = 2\<rparr>#}"
proof -
  let ?ks = "[0, 1, 0, 1, 0, 1, 0, 1, 0, 0, 1, 1, 1, 1, 1, 1]"
  let ?xs = "[\<lparr>bi_Ptr = UserMem 1, bi_Size = 1\<rparr>, \<lparr>bi_Ptr = UserMem 2, bi_Size = 2\<rparr>]"
  have "map_option (\<lambda>(ts, s). list_all (\<lambda>t. th_pc t = Done None) ts) (race_example ?ks 2) = Some True" by code_simp
  then obtain ts s where st: "race_example ?ks 2 = Some (ts, s)" "\<forall>t \<in> set ts. th_pc t = Done None"
    by (auto simp: list_all_iff)
  obtain s0 where s0: "NewSmartBuffer 2 = Inr s0" "sb_inv s0" "sb_items s0 = []" "sb_capacity s0 = 2"
      "sb_state s0 = WriteOnly" "sb_head s0 = -1"
    using NewSmartBuffer_ok [of 2] by auto
  have c0: "sb_count s0 = 0" using s0(2,3) by (simp add: sb_items_empty_iff)
  have ex: "exec fire_race ?ks (map new_thread ?xs, s0) (ts, s)"
    using st(1) s0(1) by (auto simp: race_example_def intro: run_labels_exec split: option.splits sum.splits
        simp del: run_labels.simps)
  have "(\<forall>t \<in> set ts. \<exists>err. th_pc t = Done err)" using st(2) by blast
  then obtain new where "sb_items s = sb_items s0 @ new" "mset new = mset ?xs"
    using concurrent_push_with_room [OF s0(2) _ _ _ ex] s0(4-6) c0 by (auto simp: WriteOnly_def ReadOnly_def)
  then show ?thesis using st s0(3) by simp
qed

text \<open>
  C24: with room for every writer no schedule can go on forever: \<open>n\<close> writers together take at most
  \<open>n * (5 * n + 7)\<close> steps, retries included, and where no writer can move any more each has pushed its item.
\<close>

theorem concurrent_push_terminates:
  assumes "sb_inv s0" "sb_state s0 \<noteq> ReadOnly" "sb_count s0 + int (length xs) \<le> sb_capacity s0"
    and "sb_head s0 + int (length xs) < 2 ^ 31"
    and "exec fire_race ls (map new_thread xs, s0) (ts, s)"
  shows "length ls \<le> length xs * (5 * length xs + 7) \<and>
    ((\<forall>k. fire_race k (ts, s) = None) \<longrightarrow> map th_pc ts = replicate (length xs) (Done None))"
proof -
  have start: "room_inv s0 xs (map new_thread xs, s0)" by (rule room_start [OF assms(1-4)])
  note inv = room.always_inv [OF assms(5) start]
  have "total_left (sb_head s0 + int (length xs)) (map new_thread xs, s0) = length xs * (5 * length xs + 7)"
    by (simp add: new_thread_def steps_left_def comp_def sum_list_triv)
  then have len: "length ls \<le> length xs * (5 * length xs + 7)"
    using room_end.exec_bounded [OF assms(5) start] by linarith
  have "map th_pc ts = replicate (length xs) (Done None)" if stuck: "\<forall>k. fire_race k (ts, s) = None"
  proof (rule replicate_eqI)
    show "length (map th_pc ts) = length xs" using inv by auto
    fix pc assume "pc \<in> set (map th_pc ts)"
    then obtain k where k: "k < length ts" "pc = th_pc (ts ! k)" by (auto simp: in_set_conv_nth)
    then have "is_done pc" using stuck [rule_format, of k] room_step [OF inv k(1)] by (auto split: if_splits)
    moreover have "\<not> refused (ts ! k)" using inv k(1) by simp
    ultimately show "pc = Done None" using k(2) by (auto simp: is_done_iff refused_def)
  qed
  then show ?thesis using len by blast
qed

theorem concurrent_push_terminates_witness:
  "\<exists>ts s. race_example [0, 1, 0, 1, 0, 1, 0, 1, 0, 0, 1, 1, 1, 1, 1, 1] 2 = Some (ts, s) \<and>
     map th_pc ts = [Done None, Done None]"
proof -
  let ?ks = "[0, 1, 0, 1, 0, 1, 0, 1, 0, 0, 1, 1, 1, 1, 1, 1]"
  let ?xs = "[\<lparr>bi_Ptr = UserMem 1, bi_Size = 1\<rparr>, \<lparr>bi_Ptr = UserMem 2, bi_Size = 2\<rparr>]"
  have "map_option (\<lambda>(ts, s). (length ts, list_all (is_done \<circ> th_pc) ts)) (race_example ?ks 2) = Some (2, True)"
    by code_simp
  then obtain ts s where st: "race_example ?ks 2 = Some (ts, s)" "length ts = 2" "\<forall>t \<in> set ts. is_done (th_pc t)"
    by (auto simp: list_all_iff)
  obtain s0 where s0: "NewSmartBuffer 2 = Inr s0" "sb_inv s0" "sb_items s0 = []" "sb_capacity s0 = 2"
      "sb_state s0 = WriteOnly" "sb_head s0 = -1"
    using NewSmartBuffer_ok [of 2] by auto
  have c0: "sb_count s0 = 0" using s0(2,3) by (simp add: sb_items_empty_iff)
  have ex: "exec fire_race ?ks (map new_thread ?xs, s0) (ts, s)"
    using st(1) s0(1) by (auto simp: race_example_def intro: run_labels_exec split: option.splits sum.splits
        simp del: run_labels.simps)
  have "\<forall>k. fire_race k (ts, s) = None" using st(3) by auto
  then have "map th_pc ts = replicate (length ?xs) (Done None)"
    using concurrent_push_terminates [OF s0(2) _ _ _ ex] s0(4-6) c0 by (auto simp: WriteOnly_def ReadOnly_def)
  then show ?thesis using st(1) by (simp add: numeral_2_eq_2)
qed

text \<open>
  Without room the check of the count and the reservation of the slot do not exclude each other,
  but the damage is bounded: with \<open>n\<close> writers on a ring within its capacity \<open>c\<close>, the count never
  exceeds \<open>c + n - 1\<close>, and nothing panics.
\<close>

theorem overfill_bounded:
  assumes "sb_inv s0" "xs \<noteq> []" "sb_capacity s0 + int (length xs) < 2 ^ 31"
    and "exec fire_race ls (map new_thread xs, s0) (ts, s)"
  shows "Len s \<le> sb_capacity s0 + int (length xs) - 1 \<and> (\<forall>k p. fire_race k (ts, s) \<noteq> Some (Inl p))"
proof -
  have "number_of in_flight (map new_thread xs) = 0"
    by (simp add: number_of_def filter_map comp_def in_flight_def new_thread_def)
  moreover have "1 \<le> length xs" using assms(2) by (cases xs) auto
  ultimately have i: "race_inv (sb_capacity s0) (length xs) (map new_thread xs, s0)"
    using assms(1,3) by (auto simp: sb_inv_def)
  have "race_inv (sb_capacity s0) (length xs) (ts, s)" by (rule race.always_inv [OF assms(4) i])
  then have "Len s \<le> sb_capacity s0 + int (length xs) - 1"
    using number_of_bounds(1) [of in_flight ts] by (simp add: Len_def)
  then show ?thesis using race.always_safe [OF assms(4) i] by blast
qed

theorem overfill_bounded_witness:
  "\<exists>ts s. race_example [0, 0, 1, 1] 1 = Some (ts, s) \<and> Len s \<le> 2"
proof -
  let ?ks = "[0, 0, 1, 1]"
  let ?xs = "[\<lparr>bi_Ptr = UserMem 1, bi_Size = 1\<rparr>, \<lparr>bi_Ptr = UserMem 2, bi_Size = 2\<rparr>]"
  have "map_option (\<lambda>(ts, s). length ts) (race_example ?ks 1) = Some 2" by code_simp
  then obtain ts s where st: "race_example ?ks 1 = Some (ts, s)" by auto
  obtain s0 where s0: "NewSmartBuffer 1 = Inr s0" "sb_inv s0" "sb_capacity s0 = 1" using NewSmartBuffer_ok [of 1] by auto
  have ex: "exec fire_race ?ks (map new_thread ?xs, s0) (ts, s)"
    using st s0(1) by (auto simp: race_example_def intro: run_labels_exec split: option.splits sum.splits
        simp del: run_labels.simps)
  from overfill_bounded [OF s0(2) _ _ ex] s0(3) st show ?thesis by auto
qed

text \<open>
  The race is real. Two writers that both load the count of an empty ring of capacity one both
  succeed; the count is two, and the first item has been overwritten by the second.
\<close>

theorem overfill_loses_item:
  "map_option (\<lambda>(ts, s). (map th_pc ts, sb_count s, sb_buf s))
     (race_example [0, 0, 1, 1, 0, 0, 0, 0, 1, 1, 1, 1] 1) =
   Some ([Done None, Done None], 2, [\<lparr>bi_Ptr = UserMem 2, bi_Size = 2\<rparr>])"
  by code_simp

end
