(* ===== verification/Ring_Race.thy ===== *)
theory Ring_Race
  imports Push_Race "HOL-Library.Sublist"
begin

text \<open>
  \<open>Push\<close> and \<open>Pop\<close> of \<open>SmartBuffer\<close> on one ring, instruction by instruction, by any number of writers and readers. In
  the double buffer they meet when a writer has loaded \<open>d.active\<close> and the ring is switched out and picked by the
  consumer before the writer is through with \<open>Push\<close>.

  Shown: one writer and one reader may overlap in any way, and the ring may be marked read-only at any time; the ring
  is then a FIFO queue. With two writers it is not: the count says that an item is there, not which, and the reader takes
  a slot that is reserved and not yet stored. Two readers take more than the count.
\<close>

section \<open>\<open>Pop\<close>\<close>

datatype pop_pc = PopCount | PopTail | PopCas | PopRead nat | PopClear | PopDec | PopDone "addr \<times> int"

record pop_thread =
  pt_pc :: pop_pc
  pt_tail :: int
  pt_item :: buffer_item

definition as_pair :: "buffer_item \<Rightarrow> addr \<times> int" where
  "as_pair x = (bi_Ptr x, bi_Size x)"

text \<open>The slot is read up to three times, until the pointer is not nil; whatever was read last is returned.\<close>

definition pop_step :: "pop_thread \<Rightarrow> smart_buffer \<Rightarrow> (pop_thread \<times> smart_buffer) go" where
  "pop_step t s =
     (case pt_pc t of
        PopCount \<Rightarrow> Inr (t\<lparr>pt_pc := (if sb_count s = 0 then PopDone (NilPtr, 0) else PopTail)\<rparr>, s)
      | PopTail \<Rightarrow> Inr (t\<lparr>pt_pc := PopCas, pt_tail := sb_tail s\<rparr>, s)
      | PopCas \<Rightarrow>
          if sb_tail s = pt_tail t
          then Inr (t\<lparr>pt_pc := PopRead 0\<rparr>, s\<lparr>sb_tail := wrap32 (pt_tail t + 1)\<rparr>)
          else Inr (t\<lparr>pt_pc := PopCount\<rparr>, s)
      | PopRead k \<Rightarrow>
          (case slot_get (sb_buf s) (calcPos s (pt_tail t)) of
             Inl p \<Rightarrow> Inl p
           | Inr x \<Rightarrow>
               Inr (t\<lparr>pt_pc := (if bi_Ptr x \<noteq> NilPtr \<or> 2 \<le> k then PopClear else PopRead (Suc k)), pt_item := x\<rparr>, s))
      | PopClear \<Rightarrow>
          (case slot_set (sb_buf s) (calcPos s (pt_tail t)) empty_item of
             Inl p \<Rightarrow> Inl p
           | Inr b \<Rightarrow> Inr (t\<lparr>pt_pc := PopDec\<rparr>, s\<lparr>sb_buf := b\<rparr>))
      | PopDec \<Rightarrow>
          Inr (t\<lparr>pt_pc := PopDone (as_pair (pt_item t))\<rparr>, s\<lparr>sb_count := wrap32 (sb_count s - 1)\<rparr>)
      | PopDone r \<Rightarrow> Inr (t, s))"

definition new_pop :: pop_thread where
  "new_pop = \<lparr>pt_pc = PopCount, pt_tail = 0, pt_item = empty_item\<rparr>"

fun pop_done :: "pop_pc \<Rightarrow> bool" where
  "pop_done (PopDone r) = True"
| "pop_done pc = False"

text \<open>An undisturbed reader.\<close>

fun pop_solo :: "nat \<Rightarrow> pop_thread \<Rightarrow> smart_buffer \<Rightarrow> (pop_thread \<times> smart_buffer) go" where
  "pop_solo 0 t s = Inr (t, s)"
| "pop_solo (Suc n) t s = (case pop_step t s of Inl p \<Rightarrow> Inl p | Inr (t', s') \<Rightarrow> pop_solo n t' s')"

section \<open>Writers and readers\<close>

text \<open>
  A writer is a call of \<open>Push\<close> and the items of its later calls, a reader a call of \<open>Pop\<close> and the number of its later
  calls. The last two fields are auxiliary: the items of the calls of \<open>Push\<close> that succeeded, in the order of their
  increments of the count, and the results of the calls of \<open>Pop\<close> that found a count other than zero.
\<close>

record rings =
  rr_ring :: smart_buffer
  rr_writers :: "(push_thread \<times> buffer_item list) list"
  rr_readers :: "(pop_thread \<times> nat) list"
  rr_accepted :: "buffer_item list"
  rr_popped :: "(addr \<times> int) list"

fun writer_step :: "push_thread \<times> buffer_item list \<Rightarrow> rings \<Rightarrow> ((push_thread \<times> buffer_item list) \<times> rings) go option" where
  "writer_step (t, xs) s =
     (if is_done (th_pc t) then
        (case xs of [] \<Rightarrow> None | x # ys \<Rightarrow> Some (Inr ((new_thread x, ys), s)))
      else
        (case push_step t (rr_ring s) of
           Inl p \<Rightarrow> Some (Inl p)
         | Inr (t1, b) \<Rightarrow>
             Some (Inr ((t1, xs), s\<lparr>rr_ring := b,
               rr_accepted := rr_accepted s @ (if th_pc t = AtInc then [th_item t] else [])\<rparr>))))"

fun reader_step :: "pop_thread \<times> nat \<Rightarrow> rings \<Rightarrow> ((pop_thread \<times> nat) \<times> rings) go option" where
  "reader_step (t, n) s =
     (if pop_done (pt_pc t) then
        (case n of 0 \<Rightarrow> None | Suc m \<Rightarrow> Some (Inr ((new_pop, m), s)))
      else
        (case pop_step t (rr_ring s) of
           Inl p \<Rightarrow> Some (Inl p)
         | Inr (t1, b) \<Rightarrow>
             Some (Inr ((t1, n), s\<lparr>rr_ring := b,
               rr_popped := rr_popped s @ (if pt_pc t = PopDec then [as_pair (pt_item t)] else [])\<rparr>))))"

datatype ring_label = WriterStep nat | ReaderStep nat | MarkReadOnly

fun fire_rings :: "ring_label \<Rightarrow> rings \<Rightarrow> rings go option" where
  "fire_rings (WriterStep i) s =
     (if i < length (rr_writers s) then
        (case writer_step (rr_writers s ! i) s of
           None \<Rightarrow> None
         | Some (Inl p) \<Rightarrow> Some (Inl p)
         | Some (Inr (w, s1)) \<Rightarrow> Some (Inr (s1\<lparr>rr_writers := (rr_writers s)[i := w]\<rparr>)))
      else None)"
| "fire_rings (ReaderStep j) s =
     (if j < length (rr_readers s) then
        (case reader_step (rr_readers s ! j) s of
           None \<Rightarrow> None
         | Some (Inl p) \<Rightarrow> Some (Inl p)
         | Some (Inr (r, s1)) \<Rightarrow> Some (Inr (s1\<lparr>rr_readers := (rr_readers s)[j := r]\<rparr>)))
      else None)"
| "fire_rings MarkReadOnly s = Some (Inr (s\<lparr>rr_ring := SetState ReadOnly (rr_ring s)\<rparr>))"

definition idle_writer :: push_thread where
  "idle_writer = \<lparr>th_item = empty_item, th_pc = Done None, th_head = 0\<rparr>"

definition idle_reader :: pop_thread where
  "idle_reader = \<lparr>pt_pc = PopDone (NilPtr, 0), pt_tail = 0, pt_item = empty_item\<rparr>"

definition ring_start :: "int \<Rightarrow> buffer_item list list \<Rightarrow> nat list \<Rightarrow> rings go" where
  "ring_start c xss ns =
     map_sum id (\<lambda>b. \<lparr>rr_ring = b, rr_writers = map (\<lambda>xs. (idle_writer, xs)) xss,
        rr_readers = map (\<lambda>n. (idle_reader, n)) ns, rr_accepted = [], rr_popped = []\<rparr>) (NewSmartBuffer c)"

definition ring_run :: "int \<Rightarrow> buffer_item list list \<Rightarrow> nat list \<Rightarrow> ring_label list \<Rightarrow> rings option" where
  "ring_run c xss ns ls =
     (case ring_start c xss ns of
        Inl p \<Rightarrow> None
      | Inr s0 \<Rightarrow> (case run_labels fire_rings ls s0 of Some (Inr s) \<Rightarrow> Some s | _ \<Rightarrow> None))"

lemma ring_run_exec:
  assumes "ring_run c xss ns ls = Some s"
  obtains s0 where "ring_start c xss ns = Inr s0" "exec fire_rings ls s0 s"
  using assms by (auto simp: ring_run_def intro: run_labels_exec split: option.splits sum.splits)

definition ring_item :: "nat \<Rightarrow> buffer_item" where
  "ring_item k = \<lparr>bi_Ptr = UserMem k, bi_Size = int k\<rparr>"

definition writes :: "nat \<Rightarrow> nat \<Rightarrow> ring_label list" where
  "writes i k = replicate k (WriterStep i)"

definition reads :: "nat \<Rightarrow> nat \<Rightarrow> ring_label list" where
  "reads j k = replicate k (ReaderStep j)"

section \<open>More than one of a kind\<close>

text \<open>
  Two writers and one reader. The first writer has reserved the oldest slot and is interrupted before it stores its
  item; the second writer stores in the next slot and increments the count. The reader finds the count one, takes the
  oldest slot, which is empty, three times, and returns a nil pointer. The first writer then stores its item in a slot
  that has been passed: both calls of \<open>Push\<close> have succeeded, and the reader gets nil and the second item.
\<close>

theorem pop_overtakes_store:
  "map_option (\<lambda>s. (rr_accepted s, rr_popped s, sb_count (rr_ring s), map (th_pc \<circ> fst) (rr_writers s)))
     (ring_run 4 [[ring_item 1], [ring_item 2]] [3]
       (writes 0 5 @ writes 1 7 @ [MarkReadOnly] @ reads 0 9 @ writes 0 2 @ reads 0 9)) =
   Some ([ring_item 2, ring_item 1], [(NilPtr, 0), as_pair (ring_item 2)], 0, [Done None, Done None])"
  by code_simp

text \<open>
  Two readers and one item. Both find the count one; the second takes a slot that was never written, and the count ends
  below zero, so that the ring no longer looks empty.
\<close>

theorem readers_pass_each_other:
  "map_option (\<lambda>s. (rr_accepted s, rr_popped s, sb_count (rr_ring s)))
     (ring_run 4 [[ring_item 1]] [1, 1] (writes 0 7 @ reads 0 2 @ reads 1 2 @ reads 0 5 @ reads 1 7)) =
   Some ([ring_item 1], [as_pair (ring_item 1), (NilPtr, 0)], -1)"
  by code_simp

section \<open>One writer and one reader\<close>

text \<open>Past the check of the count; the slot reserved and not yet counted; the tail moved and not yet counted.\<close>

definition past_count :: "push_thread \<Rightarrow> bool" where
  "past_count t \<longleftrightarrow> th_pc t \<in> {AtHead, AtCas, AtStore, AtInc}"

definition has_slot :: "push_thread \<Rightarrow> bool" where
  "has_slot t \<longleftrightarrow> th_pc t = AtStore \<or> th_pc t = AtInc"

definition taking :: "pop_thread \<Rightarrow> bool" where
  "taking r \<longleftrightarrow> (\<exists>k. pt_pc r = PopRead k) \<or> pt_pc r = PopClear \<or> pt_pc r = PopDec"

definition committed :: "pop_thread \<Rightarrow> bool" where
  "committed r \<longleftrightarrow> taking r \<or> pt_pc r = PopTail \<or> pt_pc r = PopCas"

text \<open>All items that have a slot, in the order of the slots.\<close>

definition placed :: "push_thread \<Rightarrow> buffer_item list \<Rightarrow> buffer_item list" where
  "placed t acc = acc @ (if has_slot t then [th_item t] else [])"

text \<open>
  The numbers of the ring between one writer and one reader. \<open>n\<close> items have a slot; \<open>past\<close>, \<open>res\<close>, \<open>com\<close> and \<open>tak\<close>
  say where the two are.
\<close>

definition numbers :: "int \<Rightarrow> nat \<Rightarrow> bool \<Rightarrow> bool \<Rightarrow> bool \<Rightarrow> bool \<Rightarrow> smart_buffer \<Rightarrow> bool" where
  "numbers c n past res com tak b \<longleftrightarrow>
     0 < c \<and> c < 2 ^ 31 \<and> sb_capacity b = c \<and> length (sb_buf b) = nat c \<and>
     sb_head b = int n - 1 \<and> int n < 2 ^ 31 \<and> -1 \<le> sb_tail b - of_bool tak \<and>
     sb_count b = sb_head b - of_bool res - (sb_tail b - of_bool tak) \<and> 0 \<le> sb_count b \<and>
     sb_count b + of_bool past \<le> c \<and> (com \<longrightarrow> 1 \<le> sb_count b)"

text \<open>The item number \<open>i + 1\<close> is in the slot of the index \<open>i\<close>, for the indices from \<open>lo\<close> up to \<open>hi\<close>.\<close>

definition slots :: "int \<Rightarrow> buffer_item list \<Rightarrow> int \<Rightarrow> int \<Rightarrow> smart_buffer \<Rightarrow> bool" where
  "slots c seen lo hi b \<longleftrightarrow> (\<forall>i. lo \<le> i \<and> i < hi \<longrightarrow> sb_buf b ! nat (i mod c) = seen ! nat (i + 1))"

definition registers :: "push_thread \<Rightarrow> pop_thread \<Rightarrow> smart_buffer \<Rightarrow> bool" where
  "registers t r b \<longleftrightarrow>
     (th_pc t = AtCas \<longrightarrow> th_head t = sb_head b) \<and> (has_slot t \<longrightarrow> th_head t = sb_head b - 1) \<and>
     (pt_pc r = PopCas \<longrightarrow> pt_tail r = sb_tail b) \<and> (taking r \<longrightarrow> pt_tail r = sb_tail b - 1)"

text \<open>A reader that has moved the tail finds its item in the slot before, until it clears it.\<close>

definition spsc_ring :: "int \<Rightarrow> buffer_item list \<Rightarrow> push_thread \<Rightarrow> pop_thread \<Rightarrow> smart_buffer \<Rightarrow> (addr \<times> int) list \<Rightarrow> bool" where
  "spsc_ring c acc t r b out \<longleftrightarrow>
     numbers c (length (placed t acc)) (past_count t) (has_slot t) (committed r) (taking r) b \<and> registers t r b \<and>
     slots c (placed t acc) (sb_tail b - of_bool (taking r \<and> pt_pc r \<noteq> PopDec)) (sb_head b - of_bool (th_pc t = AtStore)) b \<and>
     (pt_pc r = PopClear \<or> pt_pc r = PopDec \<longrightarrow> pt_item r = placed t acc ! nat (sb_tail b)) \<and>
     (\<forall>x \<in> set (placed t acc). bi_Ptr x \<noteq> NilPtr) \<and>
     out = map as_pair (take (nat (sb_tail b - of_bool (taking r) + 1)) (placed t acc))"

lemma state_irrelevant [simp]:
  "numbers c n past res com tak (b\<lparr>sb_state := v\<rparr>) = numbers c n past res com tak b"
  "slots c seen lo hi (b\<lparr>sb_state := v\<rparr>) = slots c seen lo hi b"
  "registers t r (b\<lparr>sb_state := v\<rparr>) = registers t r b"
  by (simp_all add: numbers_def slots_def registers_def)

text \<open>A step of the writer that reserves and stores nothing.\<close>

lemma spsc_writer_moves:
  assumes "spsc_ring c acc t r b out" "\<not> has_slot t" "\<not> has_slot t1"
    and "past_count t1 \<longrightarrow> past_count t \<or> sb_count b < c" "th_pc t1 = AtCas \<longrightarrow> th_head t1 = sb_head b"
  shows "spsc_ring c acc t1 r b out" "spsc_ring c acc t1 r (b\<lparr>sb_state := v\<rparr>) out"
proof -
  have n: "numbers c (length acc) (past_count t) False (committed r) (taking r) b" "registers t r b"
    using assms(1,2) by (simp_all add: spsc_ring_def placed_def)
  have st: "th_pc t \<noteq> AtStore" "th_pc t1 \<noteq> AtStore" using assms(2,3) by (simp_all add: has_slot_def)
  have "numbers c (length acc) (past_count t1) False (committed r) (taking r) b"
    using n(1) assms(4) by (cases "past_count t1"; cases "past_count t") (simp_all add: numbers_def)
  moreover have "registers t1 r b" using n(2) assms(3,5) by (simp add: registers_def)
  ultimately show one: "spsc_ring c acc t1 r b out"
    using assms(1-3) st by (simp add: spsc_ring_def placed_def)
  then show "spsc_ring c acc t1 r (b\<lparr>sb_state := v\<rparr>) out"
    by (simp add: spsc_ring_def)
qed

lemma spsc_push_step:
  assumes inv: "spsc_ring c acc t r b out" and run: "push_step t b = q" and live: "\<not> is_done (th_pc t)"
    and room: "int (length acc) < 2 ^ 31 - 1" and ptr: "bi_Ptr (th_item t) \<noteq> NilPtr"
  shows "\<exists>t1 b1. q = Inr (t1, b1) \<and> th_item t1 = th_item t \<and>
    spsc_ring c (acc @ (if th_pc t = AtInc then [th_item t] else [])) t1 r b1 out"
proof (cases "th_pc t")
  case AtState
  then show ?thesis using run spsc_writer_moves(1) [OF inv] by (auto simp: push_step_def has_slot_def past_count_def)
next
  case AtCount
  have "sb_capacity b = c" using inv by (simp add: spsc_ring_def numbers_def)
  then show ?thesis
    using AtCount run spsc_writer_moves(1) [OF inv] by (auto simp: push_step_def has_slot_def past_count_def)
next
  case AtSetReadOnly
  then show ?thesis using run spsc_writer_moves [OF inv] by (auto simp: push_step_def has_slot_def past_count_def)
next
  case AtHead
  then show ?thesis using run spsc_writer_moves(1) [OF inv] by (auto simp: push_step_def has_slot_def past_count_def)
next
  case AtCas
  have nr: "\<not> has_slot t" "past_count t" "th_pc t \<noteq> AtStore" using AtCas by (simp_all add: has_slot_def past_count_def)
  have inv': "numbers c (length acc) True False (committed r) (taking r) b" "registers t r b"
      "slots c acc (sb_tail b - of_bool (taking r \<and> pt_pc r \<noteq> PopDec)) (sb_head b) b"
      "pt_pc r = PopClear \<or> pt_pc r = PopDec \<longrightarrow> pt_item r = acc ! nat (sb_tail b)"
      "\<forall>x \<in> set acc. bi_Ptr x \<noteq> NilPtr" "out = map as_pair (take (nat (sb_tail b - of_bool (taking r) + 1)) acc)"
    using inv nr by (simp_all add: spsc_ring_def placed_def)
  let ?t = "t\<lparr>th_pc := AtStore\<rparr>" and ?b = "b\<lparr>sb_head := sb_head b + 1\<rparr>" and ?x = "th_item t"
  have H: "th_head t = sb_head b" "sb_head b = int (length acc) - 1" using inv'(1,2) AtCas by (simp_all add: registers_def numbers_def)
  have q: "q = Inr (?t, ?b)" using run AtCas room H by (simp add: push_step_def)
  have new: "has_slot ?t" "past_count ?t" "placed ?t acc = acc @ [?x]" by (simp_all add: has_slot_def past_count_def placed_def)
  have T: "-1 \<le> sb_tail b - of_bool (taking r)" "0 \<le> sb_count b" "committed r \<longrightarrow> 1 \<le> sb_count b"
    "sb_count b = sb_head b - (sb_tail b - of_bool (taking r))" using inv'(1) unfolding numbers_def by auto
  have num: "numbers c (Suc (length acc)) True True (committed r) (taking r) ?b"
    using inv'(1) room by (auto simp: numbers_def)
  have tc: "taking r \<longrightarrow> committed r" by (simp add: committed_def)
  have "slots c (acc @ [?x]) (sb_tail b - of_bool (taking r \<and> pt_pc r \<noteq> PopDec)) (sb_head b) ?b"
    unfolding slots_def
  proof (intro allI impI)
    fix i
    assume i: "sb_tail b - of_bool (taking r \<and> pt_pc r \<noteq> PopDec) \<le> i \<and> i < sb_head b"
    then have "-1 \<le> i" using T(1) by (cases "taking r"; cases "pt_pc r = PopDec") auto
    then have "nat (i + 1) < length acc" using i H(2) by linarith
    then have "(acc @ [?x]) ! nat (i + 1) = acc ! nat (i + 1)" by (simp add: nth_append)
    then show "sb_buf ?b ! nat (i mod c) = (acc @ [?x]) ! nat (i + 1)" using inv'(3) i by (simp add: slots_def)
  qed
  moreover have "pt_item r = (acc @ [?x]) ! nat (sb_tail b)" if "pt_pc r = PopClear \<or> pt_pc r = PopDec"
  proof -
    have "taking r" using that by (auto simp: taking_def)
    then have "nat (sb_tail b) < length acc" using T tc H(2) by simp
    then show ?thesis using inv'(4) that by (simp add: nth_append)
  qed
  moreover have "nat (sb_tail b - of_bool (taking r) + 1) \<le> length acc" using T H(2) by linarith
  moreover have "registers ?t r ?b" using inv'(2) H(1) by (simp add: registers_def)
  ultimately have "spsc_ring c acc ?t r ?b out"
    using num new inv'(5,6) ptr by (simp add: spsc_ring_def)
  then show ?thesis using q AtCas by simp
next
  case AtStore
  let ?t = "t\<lparr>th_pc := AtInc\<rparr>" and ?x = "th_item t"
  let ?b = "b\<lparr>sb_buf := (sb_buf b)[nat ((sb_head b - 1) mod c) := ?x]\<rparr>"
  let ?lo = "sb_tail b - of_bool (taking r \<and> pt_pc r \<noteq> PopDec)"
  have "has_slot t" "past_count t" "has_slot ?t" "past_count ?t" "placed t acc = acc @ [?x]" "placed ?t acc = acc @ [?x]"
    using AtStore by (simp_all add: has_slot_def past_count_def placed_def)
  note pl = this
  have num: "numbers c (Suc (length acc)) True True (committed r) (taking r) b" and regs: "registers t r b"
    and sl: "slots c (acc @ [?x]) ?lo (sb_head b - 1) b"
    using inv pl AtStore by (simp_all add: spsc_ring_def)
  have nums: "0 < c" "c < 2 ^ 31" "sb_capacity b = c" "length (sb_buf b) = nat c" "sb_head b = int (length acc)"
    "sb_count b = sb_head b - 1 - (sb_tail b - of_bool (taking r))" "sb_count b + 1 \<le> c"
    using num unfolding numbers_def by auto
  have head: "th_head t = sb_head b - 1" using regs pl by (simp add: registers_def)
  have q: "q = Inr (?t, ?b)"
    using run AtStore head nums slot_set_ok [of b "sb_head b - 1" ?x] by (simp add: push_step_def)
  have "slots c (acc @ [?x]) ?lo (sb_head b) ?b"
    unfolding slots_def
  proof (intro allI impI)
    fix i
    assume i: "?lo \<le> i \<and> i < sb_head b"
    show "sb_buf ?b ! nat (i mod c) = (acc @ [?x]) ! nat (i + 1)"
    proof (cases "i = sb_head b - 1")
      case True
      have "nat (i mod c) < length (sb_buf b)" using nums(1,4) by (simp add: nat_less_iff)
      then show ?thesis using True nums(5) by simp
    next
      case False
      then have "i < sb_head b - 1" using i by simp
      moreover have "sb_head b - 1 < i + c" using i nums(6,7) by (cases "taking r"; cases "pt_pc r = PopDec") auto
      ultimately have "i < sb_head b - 1" "sb_head b - 1 < i + c" by simp_all
      then have "nat (i mod c) \<noteq> nat ((sb_head b - 1) mod c)" by (rule pos_distinct [OF nums(1)])
      then show ?thesis using sl i \<open>i < sb_head b - 1\<close> by (simp add: slots_def)
    qed
  qed
  moreover have "numbers c (Suc (length acc)) True True (committed r) (taking r) ?b" "registers ?t r ?b"
    using num regs head by (auto simp: numbers_def registers_def has_slot_def)
  ultimately have "spsc_ring c acc ?t r ?b out" using inv pl by (simp add: spsc_ring_def)
  then show ?thesis using q AtStore by simp
next
  case AtInc
  let ?t = "t\<lparr>th_pc := Done None\<rparr>" and ?x = "th_item t" and ?b = "b\<lparr>sb_count := sb_count b + 1\<rparr>"
  have pl: "has_slot t" "past_count t" "\<not> has_slot ?t" "\<not> past_count ?t" "placed t acc = acc @ [?x]"
    "placed ?t (acc @ [?x]) = acc @ [?x]"
    using AtInc by (simp_all add: has_slot_def past_count_def placed_def)
  have num: "numbers c (Suc (length acc)) True True (committed r) (taking r) b" and regs: "registers t r b"
    using inv pl by (simp_all add: spsc_ring_def)
  have "0 \<le> sb_count b" "sb_count b + 1 \<le> c" "c < 2 ^ 31" using num unfolding numbers_def by auto
  then have q: "q = Inr (?t, ?b)" using run AtInc by (simp add: push_step_def)
  have "numbers c (Suc (length acc)) False False (committed r) (taking r) ?b"
    using num by (auto simp: numbers_def)
  moreover have "registers ?t r ?b" using regs by (simp add: registers_def has_slot_def)
  ultimately have "spsc_ring c (acc @ [?x]) ?t r ?b out"
    using inv pl AtInc by (simp add: spsc_ring_def slots_def)
  then show ?thesis using q AtInc by simp
next
  case (Done e)
  then show ?thesis using live by simp
qed

text \<open>A step of the reader before it moves the tail.\<close>

lemma spsc_reader_moves:
  assumes "spsc_ring c acc t r b out" "\<not> taking r" "\<not> taking r1"
    and "committed r1 \<longrightarrow> committed r \<or> 1 \<le> sb_count b" "pt_pc r1 = PopCas \<longrightarrow> pt_tail r1 = sb_tail b"
  shows "spsc_ring c acc t r1 b out"
proof -
  have pc: "pt_pc r1 \<noteq> PopClear" "pt_pc r1 \<noteq> PopDec" using assms(3) by (simp_all add: taking_def)
  have "numbers c (length (placed t acc)) (past_count t) (has_slot t) (committed r1) False b"
    using assms(1,2,4) by (auto simp: spsc_ring_def numbers_def)
  moreover have "registers t r1 b" using assms(1,3,5) by (simp add: spsc_ring_def registers_def)
  ultimately show ?thesis using assms(1-3) pc by (simp add: spsc_ring_def)
qed

lemma spsc_pop_step:
  assumes inv: "spsc_ring c acc t r b out" and run: "pop_step r b = q" and live: "\<not> pop_done (pt_pc r)"
  shows "\<exists>r1 b1. q = Inr (r1, b1) \<and>
    spsc_ring c acc t r1 b1 (out @ (if pt_pc r = PopDec then [as_pair (pt_item r)] else []))"
proof -
  let ?n = "length (placed t acc)" and ?T = "sb_tail b" and ?H = "sb_head b"
  have num: "numbers c ?n (past_count t) (has_slot t) (committed r) (taking r) b" and regs: "registers t r b"
    and sl: "slots c (placed t acc) (?T - of_bool (taking r \<and> pt_pc r \<noteq> PopDec)) (?H - of_bool (th_pc t = AtStore)) b"
    and ptrs: "\<forall>x \<in> set (placed t acc). bi_Ptr x \<noteq> NilPtr"
    using inv by (simp_all add: spsc_ring_def)
  have nums: "0 < c" "c < 2 ^ 31" "sb_capacity b = c" "length (sb_buf b) = nat c" "?H = int ?n - 1" "int ?n < 2 ^ 31"
    "-1 \<le> ?T - of_bool (taking r)" "sb_count b = ?H - of_bool (has_slot t) - (?T - of_bool (taking r))"
    "0 \<le> sb_count b" "sb_count b + of_bool (past_count t) \<le> c" "committed r \<longrightarrow> 1 \<le> sb_count b"
    using num unfolding numbers_def by auto
  have flags: "of_bool (th_pc t = AtStore) \<le> (of_bool (has_slot t) :: int)"
    "of_bool (has_slot t) \<le> (of_bool (past_count t) :: int)" by (auto simp: has_slot_def past_count_def)
  have tc: "taking r \<longrightarrow> committed r" by (simp add: committed_def)
  show ?thesis
  proof (cases "pt_pc r")
    case PopCount
    then show ?thesis
      using run spsc_reader_moves [OF inv] nums(9) by (auto simp: pop_step_def taking_def committed_def)
  next
    case PopTail
    then show ?thesis
      using run spsc_reader_moves [OF inv] by (auto simp: pop_step_def taking_def committed_def)
  next
    case PopCas
    let ?r = "r\<lparr>pt_pc := PopRead 0\<rparr>" and ?b = "b\<lparr>sb_tail := ?T + 1\<rparr>"
    have fl: "\<not> taking r" "committed r" "taking ?r" "committed ?r" using PopCas by (auto simp: taking_def committed_def)
    have c1: "1 \<le> sb_count b" "?T + 1 \<le> ?H" using nums(8,11) fl by (cases "has_slot t"; simp)+
    have tail: "pt_tail r = ?T" using regs PopCas by (simp add: registers_def)
    have "is_int32 (?T + 1)" using nums(5-7) c1(2) fl(1) by simp
    then have q: "q = Inr (?r, ?b)" using run PopCas tail by (simp add: pop_step_def)
    have "numbers c ?n (past_count t) (has_slot t) True True ?b"
      using num fl by (auto simp: numbers_def)
    moreover have "registers t ?r ?b" using regs tail by (simp add: registers_def)
    ultimately have "spsc_ring c acc t ?r ?b out"
      using inv fl by (simp add: spsc_ring_def slots_def)
    then show ?thesis using q PopCas by simp
  next
    case (PopRead k)
    let ?x = "placed t acc ! nat ?T" and ?i = "nat ((?T - 1) mod c)"
    let ?r = "r\<lparr>pt_pc := PopClear, pt_item := ?x\<rparr>"
    have fl: "taking r" "committed r" "taking ?r" "committed ?r" "pt_pc r \<noteq> PopDec"
      using PopRead by (auto simp: taking_def committed_def)
    have c1: "1 \<le> sb_count b" using nums fl by auto
    have tail: "pt_tail r = ?T - 1" using regs fl by (simp add: registers_def)
    have "?T - 1 < ?H - of_bool (th_pc t = AtStore)" using c1 nums(8) fl(1) flags(1)
      by (cases "has_slot t"; cases "th_pc t = AtStore") simp_all
    then have x: "sb_buf b ! ?i = ?x" using sl fl by (simp add: slots_def)
    have T: "0 \<le> ?T" "nat ?T < ?n" using nums(5,7,8) c1 fl(1)
      by (cases "has_slot t"; simp add: nat_less_iff)+
    then have "bi_Ptr ?x \<noteq> NilPtr" using ptrs by simp
    moreover have "slot_get (sb_buf b) (calcPos b (?T - 1)) = Inr ?x"
      using nums(1-4) x by (simp add: calcPos_mod slot_get_def)
    ultimately have q: "q = Inr (?r, b)" using run PopRead tail by (simp add: pop_step_def)
    have "registers t ?r b" using regs fl tail by (simp add: registers_def)
    then have "spsc_ring c acc t ?r b out" using inv fl by (simp add: spsc_ring_def)
    then show ?thesis using q PopRead by simp
  next
    case PopClear
    let ?r = "r\<lparr>pt_pc := PopDec\<rparr>" and ?i = "nat ((?T - 1) mod c)"
    let ?b = "b\<lparr>sb_buf := (sb_buf b)[?i := empty_item]\<rparr>"
    have fl: "taking r" "committed r" "taking ?r" "committed ?r" using PopClear by (auto simp: taking_def committed_def)
    have tail: "pt_tail r = ?T - 1" using regs fl by (simp add: registers_def)
    have q: "q = Inr (?r, ?b)"
      using run PopClear tail nums slot_set_ok [of b "?T - 1" empty_item] by (simp add: pop_step_def)
    have "slots c (placed t acc) ?T (?H - of_bool (th_pc t = AtStore)) ?b"
      unfolding slots_def
    proof (intro allI impI)
      fix i
      assume i: "?T \<le> i \<and> i < ?H - of_bool (th_pc t = AtStore)"
      then have "?T - 1 < i" by simp
      moreover have "i < ?T - 1 + c"
        using i nums(8,10) fl(1) flags by (cases "has_slot t"; cases "past_count t"; cases "th_pc t = AtStore") simp_all
      ultimately have "?T - 1 < i" "i < ?T - 1 + c" by simp_all
      then have "?i \<noteq> nat (i mod c)" by (rule pos_distinct [OF nums(1)])
      then show "sb_buf ?b ! nat (i mod c) = placed t acc ! nat (i + 1)" using sl i fl PopClear by (simp add: slots_def)
    qed
    moreover have "numbers c ?n (past_count t) (has_slot t) True True ?b" using num fl by (simp add: numbers_def)
    moreover have "registers t ?r ?b" using regs fl tail by (simp add: registers_def)
    ultimately have "spsc_ring c acc t ?r ?b out" using inv fl PopClear by (simp add: spsc_ring_def)
    then show ?thesis using q PopClear by simp
  next
    case PopDec
    let ?r = "r\<lparr>pt_pc := PopDone (as_pair (pt_item r))\<rparr>" and ?b = "b\<lparr>sb_count := sb_count b - 1\<rparr>"
    have fl: "taking r" "committed r" "\<not> taking ?r" "\<not> committed ?r" using PopDec by (auto simp: taking_def committed_def)
    have c1: "1 \<le> sb_count b" using nums fl by auto
    have "is_int32 (sb_count b - 1)" using c1 nums(2,10) by (cases "past_count t") simp_all
    then have q: "q = Inr (?r, ?b)" using run PopDec by (simp add: pop_step_def)
    have T: "0 \<le> ?T" "nat ?T < ?n" using nums(5,7,8) c1 fl(1)
      by (cases "has_slot t"; simp add: nat_less_iff)+
    have item: "pt_item r = placed t acc ! nat ?T" and out: "out = map as_pair (take (nat ?T) (placed t acc))"
      using inv PopDec fl by (simp_all add: spsc_ring_def)
    have "nat (?T + 1) = Suc (nat ?T)" using T(1) by simp
    then have "out @ [as_pair (pt_item r)] = map as_pair (take (nat (?T + 1)) (placed t acc))"
      using T(2) by (simp add: item out take_Suc_conv_app_nth)
    moreover have "numbers c ?n (past_count t) (has_slot t) False False ?b" using num fl by (auto simp: numbers_def)
    moreover have "registers t ?r ?b" using regs fl by (simp add: registers_def)
    ultimately have "spsc_ring c acc t ?r ?b (out @ [as_pair (pt_item r)])"
      using sl ptrs fl PopDec by (simp add: spsc_ring_def slots_def)
    then show ?thesis using q PopDec by simp
  next
    case (PopDone x)
    then show ?thesis using live by simp
  qed
qed

section \<open>The whole system\<close>

definition unfinished :: "push_thread \<Rightarrow> buffer_item list" where
  "unfinished t = (if is_done (th_pc t) then [] else [th_item t])"

definition spsc_inv :: "int \<Rightarrow> buffer_item list \<Rightarrow> rings \<Rightarrow> bool" where
  "spsc_inv c xs0 s \<longleftrightarrow>
     (\<forall>x \<in> set xs0. bi_Ptr x \<noteq> NilPtr) \<and> int (length xs0) < 2 ^ 31 - 1 \<and>
     (\<exists>t xs r n. rr_writers s = [(t, xs)] \<and> rr_readers s = [(r, n)] \<and>
        spsc_ring c (rr_accepted s) t r (rr_ring s) (rr_popped s) \<and>
        subseq (rr_accepted s @ unfinished t @ xs) xs0)"

lemma push_step_unfinished:
  assumes "push_step t b = Inr (t1, b1)" "th_item t1 = th_item t" "\<not> is_done (th_pc t)"
  shows "if th_pc t = AtInc then unfinished t1 = [] else unfinished t1 = [] \<or> unfinished t1 = unfinished t"
  using assms by (auto simp: push_step_def unfinished_def split: push_pc.splits if_splits sum.splits)

lemma writer_keeps:
  assumes "spsc_ring c (rr_accepted s) t r (rr_ring s) (rr_popped s)" "subseq (rr_accepted s @ unfinished t @ xs) xs0"
    and xs0: "\<forall>x \<in> set xs0. bi_Ptr x \<noteq> NilPtr" "int (length xs0) < 2 ^ 31 - 1"
    and step: "writer_step (t, xs) s = Some q"
  shows "\<exists>t1 xs1 s1. q = Inr ((t1, xs1), s1) \<and> rr_readers s1 = rr_readers s \<and>
    spsc_ring c (rr_accepted s1) t1 r (rr_ring s1) (rr_popped s1) \<and> subseq (rr_accepted s1 @ unfinished t1 @ xs1) xs0"
proof (cases "is_done (th_pc t)")
  case True
  then obtain x ys where xs: "xs = x # ys" "q = Inr ((new_thread x, ys), s)" using step by (cases xs) auto
  have "spsc_ring c (rr_accepted s) (new_thread x) r (rr_ring s) (rr_popped s)"
    by (rule spsc_writer_moves(1) [OF assms(1)]) (use True in \<open>auto simp: has_slot_def new_thread_def past_count_def\<close>)
  moreover have "unfinished t @ xs = unfinished (new_thread x) @ ys"
    using True xs(1) by (simp add: unfinished_def new_thread_def)
  ultimately show ?thesis using assms(2) xs(2) by simp
next
  case False
  have "th_item t \<in> set (rr_accepted s @ unfinished t @ xs)" using False by (simp add: unfinished_def)
  then have ptr: "bi_Ptr (th_item t) \<noteq> NilPtr" using list_emb_set [OF assms(2)] xs0(1) by metis
  have "length (rr_accepted s @ unfinished t @ xs) \<le> length xs0" by (rule list_emb_length [OF assms(2)])
  then have room: "int (length (rr_accepted s)) < 2 ^ 31 - 1" using xs0(2) by simp
  let ?acc = "rr_accepted s @ (if th_pc t = AtInc then [th_item t] else [])"
  obtain t1 b1 where r1: "push_step t (rr_ring s) = Inr (t1, b1)" "th_item t1 = th_item t"
      "spsc_ring c ?acc t1 r b1 (rr_popped s)"
    using spsc_push_step [OF assms(1) refl False room ptr] by blast
  have "subseq (?acc @ unfinished t1 @ xs) (rr_accepted s @ unfinished t @ xs)"
    using push_step_unfinished [OF r1(1,2) False] False
    by (auto simp: unfinished_def subseq_append' split: if_splits)
  then have "subseq (?acc @ unfinished t1 @ xs) xs0" using assms(2) by (rule subseq_order.order_trans)
  then show ?thesis using step False r1 by auto
qed

lemma reader_keeps:
  assumes "spsc_ring c (rr_accepted s) t r (rr_ring s) (rr_popped s)" and step: "reader_step (r, n) s = Some q"
  shows "\<exists>r1 n1 s1. q = Inr ((r1, n1), s1) \<and> rr_writers s1 = rr_writers s \<and> rr_accepted s1 = rr_accepted s \<and>
    spsc_ring c (rr_accepted s) t r1 (rr_ring s1) (rr_popped s1)"
proof (cases "pop_done (pt_pc r)")
  case True
  then obtain m where m: "n = Suc m" "q = Inr ((new_pop, m), s)" using step by (cases n) auto
  have "spsc_ring c (rr_accepted s) t new_pop (rr_ring s) (rr_popped s)"
    by (rule spsc_reader_moves [OF assms(1)]) (use True in \<open>auto simp: taking_def committed_def new_pop_def\<close>)
  then show ?thesis using m by simp
next
  case False
  then show ?thesis using spsc_pop_step [OF assms(1) refl False] step by auto
qed

lemma spsc_step:
  assumes "spsc_inv c xs0 s" "fire_rings l s = Some q"
  shows "\<exists>s1. q = Inr s1 \<and> spsc_inv c xs0 s1"
proof -
  obtain t xs r n where inv: "rr_writers s = [(t, xs)]" "rr_readers s = [(r, n)]"
      "spsc_ring c (rr_accepted s) t r (rr_ring s) (rr_popped s)" "subseq (rr_accepted s @ unfinished t @ xs) xs0"
      "\<forall>x \<in> set xs0. bi_Ptr x \<noteq> NilPtr" "int (length xs0) < 2 ^ 31 - 1"
    using assms(1) unfolding spsc_inv_def by blast
  show ?thesis
  proof (cases l)
    case (WriterStep i)
    then obtain w where i: "i = 0" and w: "writer_step (t, xs) s = Some w" using assms(2) inv(1)
      by (auto simp del: writer_step.simps split: if_splits option.splits)
    obtain t1 xs1 s1 where k: "w = Inr ((t1, xs1), s1)" "rr_readers s1 = rr_readers s"
        "spsc_ring c (rr_accepted s1) t1 r (rr_ring s1) (rr_popped s1)" "subseq (rr_accepted s1 @ unfinished t1 @ xs1) xs0"
      using writer_keeps [OF inv(3-6) w] by blast
    then show ?thesis using WriterStep i w assms(2) inv
      by (auto simp: spsc_inv_def simp del: writer_step.simps)
  next
    case (ReaderStep j)
    then obtain w where j: "j = 0" and w: "reader_step (r, n) s = Some w" using assms(2) inv(2)
      by (auto simp del: reader_step.simps split: if_splits option.splits)
    obtain r1 n1 s1 where k: "w = Inr ((r1, n1), s1)" "rr_writers s1 = rr_writers s" "rr_accepted s1 = rr_accepted s"
        "spsc_ring c (rr_accepted s) t r1 (rr_ring s1) (rr_popped s1)"
      using reader_keeps [OF inv(3) w] by blast
    then show ?thesis using ReaderStep j w assms(2) inv
      by (auto simp: spsc_inv_def simp del: reader_step.simps)
  next
    case MarkReadOnly
    have "spsc_ring c (rr_accepted s) t r (SetState ReadOnly (rr_ring s)) (rr_popped s)"
      using inv(3) by (simp add: spsc_ring_def SetState_def)
    then show ?thesis using MarkReadOnly assms(2) inv by (auto simp: spsc_inv_def)
  qed
qed

interpretation spsc: safe_system fire_rings "spsc_inv c xs0" for c xs0
  by unfold_locales (use spsc_step in fastforce)+

lemma spsc_start:
  assumes "ring_start c [xs] [n] = Inr s0" "1 \<le> c" "c < 2 ^ 31" "int (length xs) < 2 ^ 31 - 1" "\<forall>x \<in> set xs. bi_Ptr x \<noteq> NilPtr"
  shows "spsc_inv c xs s0"
proof -
  obtain b where b: "NewSmartBuffer c = Inr b" "sb_inv b" "sb_items b = []" "sb_capacity b = c" "sb_head b = -1"
    using NewSmartBuffer_ok [of c] assms(2,3) by auto
  then have "sb_count b = 0" by (simp add: sb_items_empty_iff)
  then have "numbers c 0 False False False False b" using b assms(2,3) by (simp add: numbers_def sb_inv_def)
  then have "spsc_ring c [] idle_writer idle_reader b []"
    using b(2,5) \<open>sb_count b = 0\<close>
    by (auto simp: spsc_ring_def idle_writer_def idle_reader_def placed_def has_slot_def past_count_def taking_def
        committed_def registers_def slots_def sb_inv_def)
  moreover have "s0 = \<lparr>rr_ring = b, rr_writers = [(idle_writer, xs)], rr_readers = [(idle_reader, n)], rr_accepted = [],
      rr_popped = []\<rparr>" using assms(1) b(1) by (simp add: ring_start_def)
  ultimately show ?thesis using assms(4,5) by (simp add: spsc_inv_def unfinished_def idle_writer_def)
qed

lemma spsc_ring_popped:
  assumes "spsc_ring c acc t r b out"
  shows "prefix out (map as_pair acc) \<and> 0 \<le> sb_count b \<and> sb_count b \<le> c"
proof -
  let ?k = "sb_tail b - of_bool (taking r) + 1"
  have num: "numbers c (length (placed t acc)) (past_count t) (has_slot t) (committed r) (taking r) b"
    and out: "out = map as_pair (take (nat ?k) (placed t acc))" using assms by (simp_all add: spsc_ring_def)
  have n: "sb_head b = int (length (placed t acc)) - 1" "sb_count b = sb_head b - of_bool (has_slot t) - (?k - 1)"
    "0 \<le> sb_count b" "sb_count b + of_bool (past_count t) \<le> c" using num unfolding numbers_def by auto
  have "length (placed t acc) = length acc + of_bool (has_slot t)" by (simp add: placed_def)
  then have "nat ?k \<le> length acc" using n(1-3) by simp
  then have "take (nat ?k) (placed t acc) = take (nat ?k) acc" by (simp add: placed_def)
  moreover have "sb_count b \<le> c" using n(4) by (cases "past_count t") simp_all
  ultimately show ?thesis using n(3) out by (simp add: take_is_prefix map_mono_prefix)
qed

lemma spsc_ring_idle:
  assumes "spsc_ring c acc t r b out" "is_done (th_pc t)" "pop_done (pt_pc r)"
  shows "out @ map as_pair (sb_items b) = map as_pair acc"
proof -
  let ?T = "sb_tail b"
  have off: "\<not> has_slot t" "\<not> taking r" "th_pc t \<noteq> AtStore" using assms(2,3) by (auto simp: has_slot_def taking_def)
  have num: "numbers c (length acc) (past_count t) False (committed r) False b" and sl: "slots c acc ?T (sb_head b) b"
    and out: "out = map as_pair (take (nat (?T + 1)) acc)"
    using assms(1) off by (simp_all add: spsc_ring_def placed_def)
  have n: "sb_capacity b = c" "sb_head b = int (length acc) - 1" "sb_count b = sb_head b - ?T" "-1 \<le> ?T" "0 \<le> sb_count b"
    using num unfolding numbers_def by auto
  have "sb_items b = drop (nat (?T + 1)) acc"
  proof (rule nth_equalityI)
    show "length (sb_items b) = length (drop (nat (?T + 1)) acc)" using n by (simp add: sb_items_def)
    fix i
    assume "i < length (sb_items b)"
    then have i: "i < nat (sb_count b)" by (simp add: sb_items_def)
    then have "sb_items b ! i = sb_buf b ! nat ((?T + int i) mod c)" by (simp add: sb_items_def n(1))
    also have "\<dots> = acc ! nat (?T + int i + 1)" using sl i n(3) by (simp add: slots_def)
    also have "\<dots> = drop (nat (?T + 1)) acc ! i"
    proof -
      have "nat (?T + int i + 1) = nat (?T + 1) + i" "nat (?T + 1) \<le> length acc" using n by linarith+
      then show ?thesis by (simp add: nth_drop)
    qed
    finally show "sb_items b ! i = drop (nat (?T + 1)) acc ! i" .
  qed
  then show ?thesis by (simp add: out flip: map_append)
qed

section \<open>Properties\<close>

text \<open>
  C25: one writer and one reader may use a ring at the same time. In every interleaving of the instructions of their
  calls of \<open>Push\<close> and \<open>Pop\<close>, with the ring marked read-only at any point, nothing panics, the count stays between zero
  and the capacity, the reader has received a prefix of the items whose pushes have succeeded (no nil pointer, nothing twice, nothing
  out of order), and whenever neither is inside a call, what it has received followed by what is in the ring is exactly
  what was accepted.
\<close>

theorem one_writer_one_reader:
  assumes "ring_start c [xs] [n] = Inr s0" "1 \<le> c" "c < 2 ^ 31" "int (length xs) < 2 ^ 31 - 1"
    and "\<forall>x \<in> set xs. bi_Ptr x \<noteq> NilPtr" "exec fire_rings ls s0 s"
  shows "fire_rings l s \<noteq> Some (Inl p) \<and> 0 \<le> sb_count (rr_ring s) \<and> sb_count (rr_ring s) \<le> c \<and>
    subseq (rr_accepted s) xs \<and> prefix (rr_popped s) (map as_pair (rr_accepted s)) \<and>
    ((\<forall>w \<in> set (rr_writers s). is_done (th_pc (fst w))) \<and> (\<forall>r \<in> set (rr_readers s). pop_done (pt_pc (fst r))) \<longrightarrow>
       rr_popped s @ map as_pair (sb_items (rr_ring s)) = map as_pair (rr_accepted s))"
proof -
  have start: "spsc_inv c xs s0" by (rule spsc_start [OF assms(1-5)])
  have inv: "spsc_inv c xs s" by (rule spsc.always_inv [OF assms(6) start])
  then obtain t ys r m where w: "rr_writers s = [(t, ys)]" "rr_readers s = [(r, m)]"
      "spsc_ring c (rr_accepted s) t r (rr_ring s) (rr_popped s)" "subseq (rr_accepted s @ unfinished t @ ys) xs"
    unfolding spsc_inv_def by blast
  have "subseq (rr_accepted s) xs"
    by (rule subseq_order.order_trans [OF prefix_imp_subseq w(4)]) simp
  moreover have "fire_rings l s \<noteq> Some (Inl p)" by (rule spsc.always_safe [OF assms(6) start])
  ultimately show ?thesis using spsc_ring_popped [OF w(3)] spsc_ring_idle [OF w(3)] w(1,2) by simp
qed

theorem one_writer_one_reader_witness:
  "\<exists>s. ring_run 1 [[ring_item 1, ring_item 2]] [1] (writes 0 7 @ reads 0 4 @ writes 0 2 @ reads 0 3) = Some s \<and>
     prefix (rr_popped s) (map as_pair (rr_accepted s)) \<and> rr_popped s = [as_pair (ring_item 1)]"
proof -
  let ?ls = "writes 0 7 @ reads 0 4 @ writes 0 2 @ reads 0 3"
  have "map_option rr_popped (ring_run 1 [[ring_item 1, ring_item 2]] [1] ?ls) = Some [as_pair (ring_item 1)]" by code_simp
  then obtain s where s: "ring_run 1 [[ring_item 1, ring_item 2]] [1] ?ls = Some s" "rr_popped s = [as_pair (ring_item 1)]"
    by auto
  obtain s0 where "ring_start 1 [[ring_item 1, ring_item 2]] [1] = Inr s0" "exec fire_rings ?ls s0 s"
    using ring_run_exec [OF s(1)] .
  from one_writer_one_reader [OF this(1) _ _ _ _ this(2)] have "prefix (rr_popped s) (map as_pair (rr_accepted s))"
    by (simp add: ring_item_def)
  with s show ?thesis by blast
qed

text \<open>
  A reader that nobody disturbs is through after at most six steps if the item it finds is not nil, with the result of
  \<open>Pop\<close> and the ring it leaves.
\<close>

theorem undisturbed_pop:
  assumes "sb_inv b" "\<forall>x \<in> set (sb_items b). bi_Ptr x \<noteq> NilPtr"
  shows "\<exists>res b1 k t. Pop b = Inr (res, b1) \<and> k \<le> 6 \<and> pop_solo k new_pop b = Inr (t, b1) \<and> pt_pc t = PopDone res"
proof (cases "sb_count b = 0")
  case True
  have "pop_solo 1 new_pop b = Inr (new_pop\<lparr>pt_pc := PopDone (NilPtr, 0)\<rparr>, b)"
    using True by (simp add: pop_step_def new_pop_def)
  then show ?thesis using Pop_empty [OF True] by (intro exI [of _ "(NilPtr, 0)"] exI [of _ b] exI [of _ 1]) auto
next
  case False
  let ?x = "hd (sb_items b)" and ?i = "nat (sb_tail b mod sb_capacity b)"
  have num: "0 < sb_capacity b" "sb_capacity b < 2 ^ 31" "length (sb_buf b) = nat (sb_capacity b)" "0 < sb_count b"
    "sb_count b \<le> sb_capacity b" "is_int32 (sb_tail b + 1)" "is_int32 (sb_count b - 1)"
    using assms(1) False by (auto simp: sb_inv_def)
  have "sb_items b \<noteq> []" using sb_items_empty_iff [OF assms(1)] False by simp
  then have x: "bi_Ptr ?x \<noteq> NilPtr" using assms(2) by simp
  have "?x = sb_buf b ! ?i" using num(4) by (simp add: sb_items_def hd_map)
  then have get: "slot_get (sb_buf b) (calcPos b (sb_tail b)) = Inr ?x"
    using num(1-3) by (simp add: calcPos_mod slot_get_def)
  have set: "slot_set (sb_buf b) (calcPos b (sb_tail b)) empty_item = Inr ((sb_buf b)[?i := empty_item])"
    by (rule slot_set_ok [OF num(1-3)])
  have pos: "calcPos (b\<lparr>sb_tail := T\<rparr>) i = calcPos b i" for T i by (simp add: calcPos_def Let_def)
  have "pop_solo 6 new_pop b = Inr (\<lparr>pt_pc = PopDone (as_pair ?x), pt_tail = sb_tail b, pt_item = ?x\<rparr>, popped b)"
    using num x get set by (simp add: numeral_eq_Suc pop_step_def new_pop_def pos popped_def)
  then show ?thesis
    using Pop_nonempty [OF assms(1) False]
    by (intro exI [of _ "as_pair ?x"] exI [of _ "popped b"] exI [of _ 6]) (auto simp: as_pair_def)
qed

theorem undisturbed_pop_witness:
  "\<exists>s. NewSmartBuffer 2 = Inr s \<and> (\<exists>k t. k \<le> 6 \<and> pop_solo k new_pop s = Inr (t, s) \<and> pt_pc t = PopDone (NilPtr, 0))"
proof -
  obtain s where s: "NewSmartBuffer 2 = Inr s" "sb_inv s" "sb_items s = []" using NewSmartBuffer_ok [of 2] by auto
  then have "sb_count s = 0" by (simp add: sb_items_empty_iff)
  with undisturbed_pop [OF s(2)] s(3) have "\<exists>k t. k \<le> 6 \<and> pop_solo k new_pop s = Inr (t, s) \<and> pt_pc t = PopDone (NilPtr, 0)"
    by (auto simp: Pop_empty)
  with s(1) show ?thesis by blast
qed

end
