(* ===== verification/Fine_Race.thy ===== *)
theory Fine_Race
  imports Write_Race Ring_Race
begin

text \<open>
  The goroutines of \<open>Write_Race\<close> with the calls of \<open>Push\<close> and \<open>Pop\<close> taken apart into their instructions, as in
  \<open>Push_Race\<close> and \<open>Ring_Race\<close>: writers, the monitor, switches, calls of \<open>Close\<close> and the consumer, all at the granularity
  of single accesses to shared memory.

  Shown: even so nothing panics, switches and slow paths exclude each other, and a ring is overfilled by less than the
  number of goroutines. What does not survive is that an accepted item is delivered: two schedules lose one.
\<close>

section \<open>Steps\<close>

text \<open>A writer inside \<open>Push\<close> and the consumer inside \<open>Pop\<close>.\<close>

record fine =
  fr_s :: races
  fr_push :: "push_thread option list"
  fr_pop :: "pop_thread option"

text \<open>The ring a writer is about to write to, and where it goes on with the result.\<close>

fun target :: "thread \<Rightarrow> nat option" where
  "target (Writer item (WFastWrite r)) = Some r"
| "target (Writer item (WSlowWrite r)) = Some r"
| "target t = None"

fun after_write :: "thread \<Rightarrow> ts_error option \<Rightarrow> thread" where
  "after_write (Writer item (WFastWrite r)) err = Writer item (if err = None then WFastCount else WLock)"
| "after_write (Writer item (WSlowWrite r)) err = Writer item (if err = None then WSlowCount else WUnlock err)"
| "after_write t err = t"

fun item_of :: "thread \<Rightarrow> buffer_item" where
  "item_of (Writer item pc) = item"
| "item_of t = empty_item"

definition set_thread :: "nat \<Rightarrow> thread \<Rightarrow> races \<Rightarrow> races" where
  "set_thread i t s = s\<lparr>rc_threads := (rc_threads s)[i := t]\<rparr>"

definition set_ring :: "nat \<Rightarrow> smart_buffer \<Rightarrow> races \<Rightarrow> races" where
  "set_ring r b s = s\<lparr>rc_mem := (rc_mem s)(r := b)\<rparr>"

text \<open>\<open>r.Write(item)\<close>: the check of the state, the instructions of \<open>Push\<close>, and the return.\<close>

fun ring_write_step :: "nat \<Rightarrow> nat \<Rightarrow> push_thread option \<Rightarrow> fine \<Rightarrow> fine go" where
  "ring_write_step i r None f =
     (let s = fr_s f; t = rc_threads s ! i in
      if sb_state (rc_mem s r) = ClosedState
      then Inr (f\<lparr>fr_s := set_thread i (after_write t (Some ErrBufferClose)) s\<rparr>)
      else Inr (f\<lparr>fr_push := (fr_push f)[i := Some (new_thread (item_of t))]\<rparr>))"
| "ring_write_step i r (Some p) f =
     (let s = fr_s f; t = rc_threads s ! i in
      case th_pc p of
        Done err \<Rightarrow> Inr (f\<lparr>fr_s := set_thread i (after_write t err) s, fr_push := (fr_push f)[i := None]\<rparr>)
      | _ \<Rightarrow> bind_go (push_step p (rc_mem s r)) (\<lambda>(p1, b).
               Inr (f\<lparr>fr_s := set_ring r b s, fr_push := (fr_push f)[i := Some p1]\<rparr>)))"

text \<open>The consumer: \<open>Pop\<close> of the ring it reads, which it has found not empty.\<close>

fun ring_pop_step :: "nat \<Rightarrow> pop_thread option \<Rightarrow> fine \<Rightarrow> fine go option" where
  "ring_pop_step r None f = (if Len (rc_mem (fr_s f) r) = 0 then None else Some (Inr (f\<lparr>fr_pop := Some new_pop\<rparr>)))"
| "ring_pop_step r (Some p) f =
     Some (let s = fr_s f in
      case pt_pc p of
        PopDone (ptr, sz) \<Rightarrow>
          Inr (f\<lparr>fr_s := s\<lparr>rc_delivered := rc_delivered s @ [\<lparr>bi_Ptr = ptr, bi_Size = sz\<rparr>]\<rparr>, fr_pop := None\<rparr>)
      | _ \<Rightarrow> bind_go (pop_step p (rc_mem s r)) (\<lambda>(p1, b). Inr (f\<lparr>fr_s := set_ring r b s, fr_pop := Some p1\<rparr>)))"

definition coarse :: "race_label \<Rightarrow> fine \<Rightarrow> fine go option" where
  "coarse l f = map_option (\<lambda>r. bind_go r (\<lambda>s. Inr (f\<lparr>fr_s := s\<rparr>))) (fire_writes l (fr_s f))"

fun fire_fine :: "race_label \<Rightarrow> fine \<Rightarrow> fine go option" where
  "fire_fine (Go i choice now need) f =
     (if i < length (rc_threads (fr_s f)) then
        case target (rc_threads (fr_s f) ! i) of
          Some r \<Rightarrow> Some (ring_write_step i r (fr_push f ! i) f)
        | None \<Rightarrow> coarse (Go i choice now need) f
      else None)"
| "fire_fine PopItem f =
     (case rc_current (fr_s f) of None \<Rightarrow> None | Some r \<Rightarrow> ring_pop_step r (fr_pop f) f)"
| "fire_fine l f = (if fr_pop f = None then coarse l f else None)"

definition fine_start :: "int \<Rightarrow> buffer_item list \<Rightarrow> nat \<Rightarrow> nat \<Rightarrow> fine go" where
  "fine_start sz items ticks closers =
     bind_go (race_start sz items ticks closers) (\<lambda>s.
       Inr \<lparr>fr_s = s, fr_push = replicate (length (rc_threads s)) None, fr_pop = None\<rparr>)"

definition fine_run :: "int \<Rightarrow> buffer_item list \<Rightarrow> nat \<Rightarrow> nat \<Rightarrow> race_label list \<Rightarrow> fine option" where
  "fine_run sz items ticks closers ls =
     (case fine_start sz items ticks closers of
        Inl p \<Rightarrow> None
      | Inr f \<Rightarrow> (case run_labels fire_fine ls f of Some (Inr f') \<Rightarrow> Some f' | _ \<Rightarrow> None))"

definition goes :: "nat \<Rightarrow> nat \<Rightarrow> race_label list" where
  "goes i n = replicate n (Go i None 0 True)"

section \<open>Items that are lost\<close>

text \<open>
  A ring for four items. The first writer reserves its slot and is interrupted; the second writer is accepted; the monitor
  switches and the consumer reads the ring: it gets a nil pointer, and then, once the first writer has stored its item
  and \<open>Write\<close> has returned no error, the item of the second. Nothing is left.
\<close>

theorem write_lost_behind_reader:
  "map_option (\<lambda>f. (rc_threads (fr_s f), rc_delivered (fr_s f), map (Len \<circ> rc_mem (fr_s f)) [0, 1, 2]))
     (fine_run 4 [ring_item 1, ring_item 2] 1 0
       (goes 1 8 @ goes 2 12 @ goes 0 12 @ [Take 0] @ replicate 10 PopItem @ goes 1 4 @ replicate 8 PopItem)) =
   Some ([Monitor 0 MLoop, Writer (ring_item 1) (WDone None), Writer (ring_item 2) (WDone None)],
     [empty_item, ring_item 2], [0, 0, 0])"
  by code_simp

text \<open>
  A ring for one item and two writers that both find it empty: both calls of \<open>Write\<close> return no error, and the consumer
  gets the second item and a nil pointer.
\<close>

theorem write_overfills:
  "map_option (\<lambda>f. (rc_threads (fr_s f), rc_delivered (fr_s f), map (Len \<circ> rc_mem (fr_s f)) [0, 1, 2]))
     (fine_run 1 [ring_item 1, ring_item 2] 1 0
       (goes 1 6 @ goes 2 6 @ goes 1 6 @ goes 2 6 @ goes 0 12 @ [Take 0] @ replicate 18 PopItem)) =
   Some ([Monitor 0 MLoop, Writer (ring_item 1) (WDone None), Writer (ring_item 2) (WDone None)],
     [ring_item 2, empty_item], [0, 0, 0])"
  by code_simp

section \<open>References\<close>

definition refs_ok :: "races \<Rightarrow> bool" where
  "refs_ok s \<longleftrightarrow>
     (\<forall>r \<in> {rc_active s, rc_passive s} \<union> set (rc_pool s) \<union> set (rc_spawned s) \<union> set_option (rc_current s). r < rc_next s)"

definition thread_refs :: "thread \<Rightarrow> nat set" where
  "thread_refs t = set (in_hand (switch_pc_of t)) \<union> set (pointed t)"

text \<open>The numbers of a ring that matter for its bounds; a switch changes no others, and a new ring is empty.\<close>

definition shape :: "smart_buffer \<Rightarrow> int \<times> nat \<times> int" where
  "shape b = (sb_capacity b, length (sb_buf b), sb_count b)"

definition rings_step :: "races \<Rightarrow> races \<Rightarrow> bool" where
  "rings_step s s' \<longleftrightarrow>
     rc_size s' = rc_size s \<and> rc_current s' = rc_current s \<and> rc_next s \<le> rc_next s' \<and>
     (\<forall>r < rc_next s. shape (rc_mem s' r) = shape (rc_mem s r)) \<and>
     (\<forall>r. rc_next s \<le> r \<and> r < rc_next s' \<longrightarrow> shape (rc_mem s' r) = (rc_size s, nat (rc_size s), 0))"

lemma rings_step_same:
  "rc_mem s' = rc_mem s \<Longrightarrow> rc_next s' = rc_next s \<Longrightarrow> rc_size s' = rc_size s \<Longrightarrow> rc_current s' = rc_current s \<Longrightarrow>
   rings_step s s'"
  by (auto simp: rings_step_def)

lemma pool_get_rings:
  assumes "refs_ok s" "0 \<le> rc_size s"
  shows "\<exists>nb s'. ring_pool_get choice s = Inr (nb, s') \<and> rings_step s s' \<and> refs_ok s' \<and> nb < rc_next s'"
proof (cases "\<exists>k. choice = Some k \<and> k < length (rc_pool s)")
  case True
  then obtain k where k: "choice = Some k" "k < length (rc_pool s)" by blast
  let ?s = "s\<lparr>rc_pool := remove_nth k (rc_pool s)\<rparr>"
  have "ring_pool_get choice s = Inr (rc_pool s ! k, ?s)" using k by (simp add: ring_pool_get_def)
  moreover have "refs_ok ?s" using assms(1) set_remove_nth [of k "rc_pool s"] by (auto simp: refs_ok_def)
  moreover have "rc_pool s ! k < rc_next s" using assms(1) k(2) by (simp add: refs_ok_def)
  ultimately show ?thesis using rings_step_same [of ?s s] by simp
next
  case False
  let ?b = "\<lparr>sb_buf = replicate (nat (rc_size s)) empty_item, sb_head = -1, sb_tail = -1, sb_count = 0,
    sb_capacity = rc_size s, sb_state = WriteOnly, sb_sem_closed = False\<rparr>"
  let ?s = "s\<lparr>rc_mem := (rc_mem s)(rc_next s := ?b), rc_next := Suc (rc_next s)\<rparr>"
  have "NewSmartBuffer (rc_size s) = Inr ?b" using assms(2) by (simp add: NewSmartBuffer_def)
  then have "ring_pool_get choice s = Inr (rc_next s, ?s)"
    using False by (auto simp: ring_pool_get_def split: option.splits)
  moreover have "rings_step s ?s" by (auto simp: rings_step_def shape_def less_Suc_eq)
  moreover have "refs_ok ?s" using assms(1) by (auto simp: refs_ok_def intro: less_SucI)
  ultimately show ?thesis by auto
qed

lemma switch_refs:
  assumes "switch_step i choice now p s = Some r" "refs_ok s" "\<forall>r \<in> set (in_hand p). r < rc_next s" "0 \<le> rc_size s"
  shows "\<exists>p' s'. r = Inr (p', s') \<and> rings_step s s' \<and> refs_ok s' \<and> (\<forall>r \<in> set (in_hand p'). r < rc_next s')"
proof (cases p)
  case SGet
  then show ?thesis using assms(1) pool_get_rings [OF assms(2,4), of choice] by (auto simp: in_hand_def)
next
  case SMark
  then show ?thesis
    using assms by (auto simp: rings_step_def refs_ok_def in_hand_def shape_def SetState_def)
next
  case SCas
  then show ?thesis using assms by (auto simp: rings_step_def refs_ok_def in_hand_def)
next
  case SLock
  then show ?thesis using assms by (auto simp: rings_step_def refs_ok_def in_hand_def split: if_splits)
qed (use assms in \<open>auto simp: rings_step_def refs_ok_def in_hand_def\<close>)

lemma thread_refs_simps [simp]:
  "thread_refs (Writer item (WSwitch p)) = set (in_hand p)" "thread_refs (Monitor n (MSwitch p)) = set (in_hand p)"
  "thread_refs (Writer item (WFastWrite r)) = {r}" "thread_refs (Writer item (WSlowWrite r)) = {r}"
  "thread_refs (Closer pc) = {}"
  by (simp_all add: thread_refs_def in_hand_def)

lemma coarse_thread:
  assumes "thread_step i choice now need t s = Some r" "target t = None" "refs_ok s" "\<forall>r \<in> thread_refs t. r < rc_next s"
    "0 \<le> rc_size s" "t = Closer CStop \<longrightarrow> \<not> rc_stop s"
  shows "\<exists>t' s'. r = Inr (t', s') \<and> rings_step s s' \<and> refs_ok s' \<and> (\<forall>r \<in> thread_refs t'. r < rc_next s')"
proof (cases t)
  case (Writer item pc)
  show ?thesis
  proof (cases "\<exists>p. pc = WSwitch p \<and> p \<noteq> SEnd")
    case True
    then obtain p where p: "pc = WSwitch p" "p \<noteq> SEnd" by blast
    then obtain r1 where r1: "switch_step i choice now p s = Some r1"
        "r = bind_go (bind_go r1 (\<lambda>(p1, s1). Inr (WSwitch p1, s1))) (\<lambda>(pc1, s1). Inr (Writer item pc1, s1))"
      using assms(1) Writer by auto
    then show ?thesis using switch_refs [OF r1(1) assms(3)] assms(4,5) Writer p by auto
  next
    case False
    then show ?thesis
      using assms Writer
      by (cases pc) (auto simp: rings_step_same refs_ok_def count_up_def thread_refs_def in_hand_def split: if_splits)
  qed
next
  case (Monitor n pc)
  show ?thesis
  proof (cases "\<exists>p. pc = MSwitch p \<and> p \<noteq> SEnd")
    case True
    then obtain p where p: "pc = MSwitch p" "p \<noteq> SEnd" by blast
    then obtain r1 where r1: "switch_step i choice now p s = Some r1"
        "r = bind_go (bind_go r1 (\<lambda>(p1, s1). Inr ((n, MSwitch p1), s1))) (\<lambda>((n, pc1), s1). Inr (Monitor n pc1, s1))"
      using assms(1) Monitor by auto
    then show ?thesis using switch_refs [OF r1(1) assms(3)] assms(4,5) Monitor p by auto
  next
    case False
    then show ?thesis
      using assms Monitor
      by (cases pc) (auto simp: rings_step_same refs_ok_def thread_refs_def in_hand_def split: if_splits)
  qed
next
  case (Closer pc)
  then show ?thesis
    using assms by (cases pc) (auto simp: rings_step_same refs_ok_def split: if_splits)
qed

section \<open>The invariant\<close>

fun is_writer :: "thread \<Rightarrow> bool" where
  "is_writer (Writer item pc) = True"
| "is_writer t = False"

definition writers :: "races \<Rightarrow> nat" where
  "writers s = length (filter is_writer (rc_threads s))"

lemma writers_simps [simp]:
  "writers (s\<lparr>rc_mem := m\<rparr>) = writers s" "writers (s\<lparr>rc_delivered := d\<rparr>) = writers s"
  "writers (s\<lparr>rc_threads := ts\<rparr>) = length (filter is_writer ts)"
  by (simp_all add: writers_def)

text \<open>The writers that are in \<open>Push\<close> of a ring, past its check of the count.\<close>

definition past :: "push_thread option \<Rightarrow> bool" where
  "past p \<longleftrightarrow> (\<exists>q. p = Some q \<and> past_count q)"

definition flying :: "nat \<Rightarrow> thread \<times> push_thread option \<Rightarrow> bool" where
  "flying r tp \<longleftrightarrow> target (fst tp) = Some r \<and> past (snd tp)"

definition pushing :: "thread list \<Rightarrow> push_thread option list \<Rightarrow> nat \<Rightarrow> nat" where
  "pushing ts ps r = length (filter (flying r) (zip ts ps))"

lemma past_simps [simp]: "\<not> past None" "past (Some q) = past_count q"
  by (simp_all add: past_def)

lemma pushing_update:
  assumes "i < length ts" "length ps = length ts"
  shows "pushing (ts[i := t]) (ps[i := p]) r + one_if (flying r (ts ! i, ps ! i)) =
    pushing ts ps r + one_if (flying r (t, p))"
  using filter_update [of i "zip ts ps" "flying r" "(t, p)"] assms by (simp add: pushing_def update_zip)

lemma target_writer: "target t = Some r \<Longrightarrow> is_writer t"
  by (cases t) simp_all

lemma pushing_le: 
  assumes "length ps = length ts"
  shows "pushing ts ps r \<le> length (filter is_writer ts)"
proof -
  let ?ws = "filter (is_writer \<circ> fst) (zip ts ps)"
  have "filter (flying r) (zip ts ps) = filter (flying r) ?ws"
    by (auto simp: flying_def dest: target_writer intro!: filter_cong)
  moreover have "map fst ?ws = filter is_writer ts" using assms by (simp add: filter_map [symmetric])
  then have "length ?ws = length (filter is_writer ts)" by (metis length_map)
  ultimately show ?thesis using length_filter_le [of "flying r" ?ws] by (simp add: pushing_def)
qed

definition ring_fine :: "int \<Rightarrow> nat \<Rightarrow> nat \<Rightarrow> int \<times> nat \<times> int \<Rightarrow> bool" where
  "ring_fine sz n k sh \<longleftrightarrow> (case sh of (c, l, cnt) \<Rightarrow> c = sz \<and> l = nat sz \<and> 0 \<le> cnt \<and> cnt + int k \<le> sz + int n - 1)"

definition sizes_fine :: "fine \<Rightarrow> bool" where
  "sizes_fine f \<longleftrightarrow>
     (let s = fr_s f; ts = rc_threads s in
       length (fr_push f) = length ts \<and> 1 \<le> rc_size s \<and> rc_size s + int (writers s) < 2 ^ 31 \<and>
       (\<forall>r < rc_next s. ring_fine (rc_size s) (writers s) (pushing ts (fr_push f) r) (shape (rc_mem s r))) \<and>
       (\<forall>i < length ts. fr_push f ! i \<noteq> None \<longrightarrow> target (ts ! i) \<noteq> None) \<and>
       (\<forall>p. fr_pop f = Some p \<longrightarrow> (\<exists>r. rc_current s = Some r \<and> (committed p \<longrightarrow> 1 \<le> sb_count (rc_mem s r)))))"

definition fine_inv :: "int \<Rightarrow> nat \<Rightarrow> fine \<Rightarrow> bool" where
  "fine_inv c n f \<longleftrightarrow>
     (let s = fr_s f in lock_inv s \<and> close_inv s \<and> refs_ok s \<and> (\<forall>t \<in> set (rc_threads s). \<forall>r \<in> thread_refs t. r < rc_next s) \<and>
       rc_size s = c \<and> writers s = n \<and> sizes_fine f)"

lemma fine_parts:
  assumes "fine_inv c n f"
  shows "lock_inv (fr_s f)" "close_inv (fr_s f)" "refs_ok (fr_s f)"
    "\<forall>t \<in> set (rc_threads (fr_s f)). \<forall>r \<in> thread_refs t. r < rc_next (fr_s f)" "sizes_fine f"
  using assms by (simp_all add: fine_inv_def Let_def)

lemma fine_sizes:
  assumes "fine_inv c n f"
  shows "length (fr_push f) = length (rc_threads (fr_s f))" "1 \<le> rc_size (fr_s f)"
    "rc_size (fr_s f) + int (writers (fr_s f)) < 2 ^ 31"
    "\<forall>i < length (rc_threads (fr_s f)). fr_push f ! i \<noteq> None \<longrightarrow> target (rc_threads (fr_s f) ! i) \<noteq> None"
    "\<forall>r < rc_next (fr_s f). ring_fine (rc_size (fr_s f)) (writers (fr_s f))
       (pushing (rc_threads (fr_s f)) (fr_push f) r) (shape (rc_mem (fr_s f) r))"
    "\<forall>p. fr_pop f = Some p \<longrightarrow>
       (\<exists>r. rc_current (fr_s f) = Some r \<and> (committed p \<longrightarrow> 1 \<le> sb_count (rc_mem (fr_s f) r)))"
  using fine_parts(5) [OF assms] by (simp_all add: sizes_fine_def Let_def)

lemma target_refs: "target t = Some r \<Longrightarrow> r \<in> thread_refs t"
  by (cases t rule: target.cases) (auto simp: thread_refs_def)

lemma pushing_fresh:
  assumes "\<forall>t \<in> set ts. \<forall>r \<in> thread_refs t. r < m" "m \<le> r"
  shows "pushing ts ps r = 0"
proof -
  have "\<not> flying r (t, p)" if "(t, p) \<in> set (zip ts ps)" for t p
    using that assms target_refs [of t r] by (fastforce simp: flying_def dest: set_zip_leftD)
  then show ?thesis by (auto simp: pushing_def filter_empty_conv)
qed

subsection \<open>One ring\<close>

lemma push_counts:
  assumes "ring_fine sz n (k + one_if (past_count p)) (shape b)" "k < n" "1 \<le> sz" "sz + int n < 2 ^ 31" "\<not> is_done (th_pc p)"
  shows "\<exists>p1 b1. push_step p b = Inr (p1, b1) \<and> ring_fine sz n (k + one_if (past_count p1)) (shape b1) \<and>
    sb_count b \<le> sb_count b1"
proof (cases "th_pc p")
  case AtStore
  then show ?thesis using assms slot_set_ok [of b "th_head p" "th_item p"]
    by (auto simp: push_step_def past_count_def one_if_def ring_fine_def shape_def)
next
  case AtInc
  have "is_int32 (sb_count b + 1)" using assms AtInc by (auto simp: ring_fine_def shape_def past_count_def one_if_def)
  then show ?thesis using assms AtInc by (auto simp: push_step_def past_count_def one_if_def ring_fine_def shape_def)
qed (use assms in \<open>auto simp: push_step_def past_count_def one_if_def ring_fine_def shape_def\<close>)

lemma pop_counts:
  assumes "ring_fine sz n k (shape b)" "1 \<le> sz" "sz + int n < 2 ^ 31" "committed p \<longrightarrow> 1 \<le> sb_count b" "\<not> pop_done (pt_pc p)"
  shows "\<exists>p1 b1. pop_step p b = Inr (p1, b1) \<and> ring_fine sz n k (shape b1) \<and> (committed p1 \<longrightarrow> 1 \<le> sb_count b1)"
proof (cases "pt_pc p")
  case (PopRead j)
  have "nat (pt_tail p mod sz) < nat sz" using assms(2) by (simp add: nat_less_iff)
  then have "slot_get (sb_buf b) (calcPos b (pt_tail p)) = Inr (sb_buf b ! nat (pt_tail p mod sz))"
    using assms by (simp add: slot_get_def calcPos_mod ring_fine_def shape_def)
  then show ?thesis using assms PopRead by (auto simp: pop_step_def committed_def taking_def)
next
  case PopClear
  then show ?thesis using assms slot_set_ok [of b "pt_tail p" empty_item]
    by (auto simp: pop_step_def committed_def taking_def ring_fine_def shape_def)
next
  case PopDec
  have "is_int32 (sb_count b - 1)" using assms PopDec by (auto simp: ring_fine_def shape_def)
  then show ?thesis using assms PopDec by (auto simp: pop_step_def committed_def taking_def ring_fine_def shape_def)
qed (use assms in \<open>auto simp: pop_step_def committed_def taking_def ring_fine_def shape_def\<close>)


subsection \<open>Steps that are not in a ring\<close>

text \<open>A step of a goroutine that is not at a call of \<open>Write\<close> of a ring.\<close>

lemma writers_update:
  assumes "i < length ts" "is_writer t' = is_writer (ts ! i)"
  shows "length (filter is_writer (ts[i := t'])) = length (filter is_writer ts)"
  using filter_update [OF assms(1), of is_writer t'] assms(2) by simp

lemma refs_update:
  assumes "\<forall>t \<in> set ts. \<forall>r \<in> thread_refs t. r < m" "\<forall>r \<in> thread_refs t'. r < m'" "m \<le> m'"
  shows "\<forall>t \<in> set (ts[i := t']). \<forall>r \<in> thread_refs t. r < m'"
proof (intro ballI)
  fix t r
  assume t: "t \<in> set (ts[i := t'])" and r: "r \<in> thread_refs t"
  have "t = t' \<or> t \<in> set ts" using t set_update_subset_insert [of ts i t'] by blast
  then show "r < m'" using assms r by fastforce
qed

lemma thread_step_writer: "thread_step i choice now need t s = Some (Inr (t', s')) \<Longrightarrow> is_writer t' = is_writer t"
  by (elim thread_stepE) simp_all

lemma coarse_keeps:
  assumes inv: "fine_inv c n f" and i: "i < length (rc_threads (fr_s f))" "target (rc_threads (fr_s f) ! i) = None"
    and step: "coarse (Go i choice now need) f = Some q"
  shows "\<exists>f'. q = Inr f' \<and> fine_inv c n f'"
proof -
  let ?s = "fr_s f" and ?ts = "rc_threads (fr_s f)" and ?t = "rc_threads (fr_s f) ! i" and ?ps = "fr_push f"
  have t: "?t \<in> set ?ts" using i(1) by simp
  note parts = fine_parts [OF inv]
  note sizes = fine_sizes [OF inv]
  obtain r1 where r1: "thread_step i choice now need ?t ?s = Some r1"
      "q = bind_go (bind_go r1 (\<lambda>(t, s1). Inr (s1\<lparr>rc_threads := ?ts[i := t]\<rparr>))) (\<lambda>s. Inr (f\<lparr>fr_s := s\<rparr>))"
    using step i(1) by (auto simp: coarse_def)
  have "?t = Closer CStop \<longrightarrow> \<not> rc_stop ?s" using parts(2) t by (auto simp: close_inv_def)
  then obtain t' s1 where g: "r1 = Inr (t', s1)" "rings_step ?s s1" "refs_ok s1" "\<forall>r \<in> thread_refs t'. r < rc_next s1"
    using coarse_thread [OF r1(1) i(2) parts(3)] parts(4) sizes(2) t by auto
  let ?s' = "s1\<lparr>rc_threads := ?ts[i := t']\<rparr>"
  have ts: "thread_step i choice now need ?t ?s = Some (Inr (t', s1))" using r1(1) g(1) by simp
  have w: "writers ?s' = writers ?s"
    using writers_update [OF i(1) thread_step_writer [OF ts]] by (simp add: writers_def)
  have none: "?ps ! i = None" using sizes(4) i by auto
  have same: "pushing (?ts[i := t']) ?ps r = pushing ?ts ?ps r" for r
  proof -
    have "?ps[i := None] = ?ps" using none list_update_id [of ?ps i] by simp
    then show ?thesis
      using pushing_update [OF i(1) sizes(1), of t' None r] none by (simp add: flying_def one_if_def)
  qed
  have "ring_fine (rc_size ?s) (writers ?s) (pushing ?ts ?ps r) (shape (rc_mem s1 r))" if r: "r < rc_next s1" for r
  proof (cases "r < rc_next ?s")
    case True
    then show ?thesis using sizes(5) g(2) by (simp add: rings_step_def)
  next
    case False
    then have "shape (rc_mem s1 r) = (rc_size ?s, nat (rc_size ?s), 0)" using g(2) r by (simp add: rings_step_def)
    moreover have "pushing ?ts ?ps r = 0" using pushing_fresh [OF parts(4)] False by simp
    ultimately show ?thesis using sizes(2) by (simp add: ring_fine_def)
  qed
  moreover have "\<exists>r. rc_current s1 = Some r \<and> (committed p \<longrightarrow> 1 \<le> sb_count (rc_mem s1 r))" if p: "fr_pop f = Some p" for p
  proof -
    obtain r where r: "rc_current ?s = Some r" "committed p \<longrightarrow> 1 \<le> sb_count (rc_mem ?s r)" using sizes(6) p by blast
    then have "r < rc_next ?s" using parts(3) by (simp add: refs_ok_def)
    then show ?thesis using r g(2) by (auto simp: rings_step_def shape_def)
  qed
  moreover have "\<forall>j < length ?ts. ?ps ! j \<noteq> None \<longrightarrow> target (?ts[i := t'] ! j) \<noteq> None"
    using sizes(4) none by (metis nth_list_update_neq)
  ultimately have "sizes_fine (f\<lparr>fr_s := ?s'\<rparr>)"
    using sizes(1-3) g(2) w by (simp add: sizes_fine_def Let_def same rings_step_def)
  moreover have "lock_inv ?s'" by (rule lock_inv_step [OF parts(1) i(1) thread_locks [OF ts]]) simp_all
  moreover have "close_inv ?s'" by (rule close_inv_step [OF parts(1,2) i(1) ts]) simp_all
  moreover have "\<forall>t \<in> set (?ts[i := t']). \<forall>r \<in> thread_refs t. r < rc_next s1"
    using refs_update [OF parts(4) g(4)] g(2) by (simp add: rings_step_def)
  ultimately have "fine_inv c n (f\<lparr>fr_s := ?s'\<rparr>)" using g(2,3) w inv by (simp add: fine_inv_def Let_def refs_ok_def rings_step_def)
  then show ?thesis using r1(2) g(1) by simp
qed

text \<open>The consumer takes a ring, or gives one back.\<close>

lemma consumer_refs:
  assumes "refs_ok s" "fire_writes l s = Some (Inr s1)" "(\<exists>k. l = Take k) \<or> l = Recycle"
  shows "refs_ok s1"
proof (cases l)
  case (Take k)
  then have k: "k < length (rc_spawned s)"
    and s1: "s1 = s\<lparr>rc_current := Some (rc_spawned s ! k), rc_spawned := remove_nth k (rc_spawned s)\<rparr>"
    using assms(2) by (auto split: if_splits)
  have "\<forall>r \<in> set (rc_spawned s). r < rc_next s" using assms(1) by (simp add: refs_ok_def)
  then have "\<forall>r \<in> set (remove_nth k (rc_spawned s)). r < rc_next s" "rc_spawned s ! k < rc_next s"
    using set_remove_nth [of k "rc_spawned s"] k by auto
  then show ?thesis using assms(1) unfolding s1 by (simp add: refs_ok_def) blast
next
  case Recycle
  then show ?thesis using assms by (auto simp: refs_ok_def split: if_splits option.splits)
qed (use assms(3) in auto)

lemma consumer_keeps:
  assumes inv: "fine_inv c n f" and none: "fr_pop f = None"
    and step: "coarse l f = Some q" "(\<exists>k. l = Take k) \<or> l = Recycle"
  shows "\<exists>f'. q = Inr f' \<and> fine_inv c n f'"
proof -
  let ?s = "fr_s f" and ?ts = "rc_threads (fr_s f)" and ?ps = "fr_push f"
  note parts = fine_parts [OF inv]
  have k: "pushing ?ts ?ps r \<le> writers ?s" for r
    using pushing_le [of ?ps ?ts r] parts(5) by (simp add: sizes_fine_def Let_def writers_def)
  obtain s1 where s1: "fire_writes l ?s = Some (Inr s1)" "q = Inr (f\<lparr>fr_s := s1\<rparr>)"
    using step by (auto simp: coarse_def split: if_splits option.splits)
  have fr: "rc_threads s1 = ?ts" "rc_state s1 = rc_state ?s" "rc_switchLock s1 = rc_switchLock ?s"
    "rc_writeLock s1 = rc_writeLock ?s" "rc_stop s1 = rc_stop ?s" "rc_next s1 = rc_next ?s" "rc_size s1 = rc_size ?s"
    using s1(1) step(2) by (auto split: if_splits option.splits)
  have "ring_fine (rc_size ?s) (writers ?s) (pushing ?ts ?ps r) (shape (rc_mem s1 r))" if "r < rc_next ?s" for r
  proof -
    have old: "ring_fine (rc_size ?s) (writers ?s) (pushing ?ts ?ps r) (shape (rc_mem ?s r))" "1 \<le> rc_size ?s"
      using that parts(5) by (simp_all add: sizes_fine_def Let_def)
    have "rc_mem s1 r = rc_mem ?s r \<or> rc_mem s1 r = Reset (rc_mem ?s r)"
      using s1(1) step(2) by (auto split: if_splits option.splits)
    then show ?thesis
    proof
      assume "rc_mem s1 r = Reset (rc_mem ?s r)"
      then show ?thesis using old k [of r] by (simp add: ring_fine_def shape_def Reset_def)
    qed (use old in simp)
  qed
  then have "sizes_fine (f\<lparr>fr_s := s1\<rparr>)"
    using parts(5) none fr by (simp add: sizes_fine_def Let_def writers_def)
  moreover have "refs_ok s1" by (rule consumer_refs [OF parts(3) s1(1) step(2)])
  moreover have "lock_inv s1" by (rule lock_inv_frame [OF parts(1) fr(1,3,4,2)])
  moreover have "close_inv s1" using parts(2) by (simp add: close_inv_def fr)
  ultimately have "fine_inv c n (f\<lparr>fr_s := s1\<rparr>)" using parts(4) fr inv by (simp add: fine_inv_def Let_def writers_def)
  then show ?thesis using s1(2) by simp
qed

subsection \<open>Steps in a ring\<close>

lemma ring_inv_set:
  assumes "lock_inv s" "close_inv s" "refs_ok s"
  shows "lock_inv (set_ring r b s)" "close_inv (set_ring r b s)" "refs_ok (set_ring r b s)"
  using assms by (simp_all add: lock_inv_def close_inv_def refs_ok_def set_ring_def)

text \<open>A step that changes one ring, the writer \<open>i\<close> inside it, and the consumer.\<close>

lemma in_ring_keeps:
  assumes inv: "fine_inv c n f" and r: "r < rc_next (fr_s f)"
    and others: "length ps = length (fr_push f)" "\<forall>x. x \<noteq> r \<longrightarrow> pushing (rc_threads (fr_s f)) ps x = pushing (rc_threads (fr_s f)) (fr_push f) x"
      "\<forall>j < length ps. ps ! j \<noteq> None \<longrightarrow> target (rc_threads (fr_s f) ! j) \<noteq> None"
    and fine: "ring_fine (rc_size (fr_s f)) (writers (fr_s f)) (pushing (rc_threads (fr_s f)) ps r) (shape b)"
    and pop: "\<forall>p. pop = Some p \<longrightarrow> (\<exists>x. rc_current (fr_s f) = Some x \<and>
        (committed p \<longrightarrow> 1 \<le> sb_count (if x = r then b else rc_mem (fr_s f) x)))"
  shows "fine_inv c n (f\<lparr>fr_s := set_ring r b (fr_s f), fr_push := ps, fr_pop := pop\<rparr>)"
proof -
  let ?s = "fr_s f"
  have sizes: "sizes_fine f" using inv by (simp add: fine_inv_def Let_def)
  have "sizes_fine (f\<lparr>fr_s := set_ring r b ?s, fr_push := ps, fr_pop := pop\<rparr>)"
    using sizes others fine pop unfolding sizes_fine_def Let_def fine.simps
    by (simp add: set_ring_def)
  then show ?thesis using inv ring_inv_set [of ?s r b] by (simp add: fine_inv_def Let_def set_ring_def)
qed

text \<open>A call of \<open>Write\<close> of a ring returns.\<close>

lemma after_write_simps [simp]:
  "target t = Some r \<Longrightarrow> target (after_write t err) = None"
  "target t = Some r \<Longrightarrow> is_writer (after_write t err)"
  "target t = Some r \<Longrightarrow> thread_refs (after_write t err) = {}"
  by (cases t rule: target.cases; simp add: thread_refs_def in_hand_def)+

lemma after_write_locks: "target t = Some r \<Longrightarrow> locks_step i t s (after_write t err) s"
  by (cases t rule: target.cases) (auto simp: locks_step_def)

lemma close_inv_writer:
  assumes "close_inv s" "i < length (rc_threads s)" "is_writer (rc_threads s ! i)" "is_writer t"
  shows "close_inv (set_thread i t s)"
proof -
  let ?ts = "rc_threads s"
  have c: "\<not> closing (?ts ! i)" "\<not> closing t" using assms(3,4) by (cases "?ts ! i"; cases t; simp)+
  have "length (filter closing (?ts[i := t])) = length (filter closing ?ts)"
    using filter_update [OF assms(2), of closing t] c by simp
  moreover have "u \<in> set ?ts" if "u \<in> set (?ts[i := t])" "closing u" for u
    using that c(2) set_update_subset_insert [of ?ts i t] by blast
  ultimately show ?thesis using assms(1) unfolding close_inv_def set_thread_def by (simp; blast)
qed

lemma return_keeps:
  assumes inv: "fine_inv c n f" and i: "i < length (rc_threads (fr_s f))" "target (rc_threads (fr_s f) ! i) = Some r"
    and out: "\<not> past (fr_push f ! i)"
  shows "fine_inv c n (f\<lparr>fr_s := set_thread i (after_write (rc_threads (fr_s f) ! i) err) (fr_s f), fr_push := (fr_push f)[i := None]\<rparr>)"
proof -
  let ?s = "fr_s f" and ?ts = "rc_threads (fr_s f)" and ?t = "rc_threads (fr_s f) ! i" and ?ps = "fr_push f"
  let ?t' = "after_write ?t err"
  let ?s' = "set_thread i ?t' ?s"
  note parts = fine_parts [OF inv]
  have len: "length ?ps = length ?ts" using parts(5) by (simp add: sizes_fine_def Let_def)
  have w: "writers ?s' = writers ?s"
    using writers_update [OF i(1), of ?t'] i(2) target_writer by (simp add: writers_def set_thread_def)
  have same: "pushing (?ts[i := ?t']) (?ps[i := None]) x = pushing ?ts ?ps x" for x
    using pushing_update [OF i(1) len, of ?t' None x] out by (simp add: flying_def one_if_def)
  have "\<forall>j < length ?ts. ?ps[i := None] ! j \<noteq> None \<longrightarrow> target (?ts[i := ?t'] ! j) \<noteq> None"
    using parts(5) len i(1) by (simp add: sizes_fine_def Let_def nth_list_update)
  then have "sizes_fine (f\<lparr>fr_s := ?s', fr_push := ?ps[i := None]\<rparr>)"
    using parts(5) w unfolding sizes_fine_def Let_def by (simp add: set_thread_def same)
  moreover have "lock_inv ?s'"
    by (rule lock_inv_step [OF parts(1) i(1) after_write_locks [OF i(2)]]) (simp_all add: set_thread_def)
  moreover have "close_inv ?s'" using close_inv_writer [OF parts(2) i(1)] target_writer i(2) by simp
  moreover have "\<forall>t \<in> set (?ts[i := ?t']). \<forall>r \<in> thread_refs t. r < rc_next ?s"
    by (rule refs_update [OF parts(4)]) (use i(2) in simp_all)
  ultimately show ?thesis using parts(3) w inv by (simp add: fine_inv_def Let_def set_thread_def refs_ok_def)
qed

lemma write_keeps:
  assumes inv: "fine_inv c n f" and i: "i < length (rc_threads (fr_s f))" "target (rc_threads (fr_s f) ! i) = Some r"
  shows "\<exists>f'. ring_write_step i r (fr_push f ! i) f = Inr f' \<and> fine_inv c n f'"
proof -
  let ?s = "fr_s f" and ?ts = "rc_threads (fr_s f)" and ?t = "rc_threads (fr_s f) ! i" and ?ps = "fr_push f"
  note sizes = fine_sizes [OF inv]
  have "?t \<in> set ?ts" using i(1) by simp
  then have r: "r < rc_next ?s" using inv target_refs [OF i(2)] by (auto simp: fine_inv_def Let_def)
  have up: "pushing ?ts (?ps[i := p]) x + one_if (x = r \<and> past (?ps ! i)) = pushing ?ts ?ps x + one_if (x = r \<and> past p)" for p x
    using pushing_update [OF i(1) sizes(1), of ?t p x] i(2) by (cases "x = r") (auto simp: flying_def one_if_def)
  have other: "\<forall>x. x \<noteq> r \<longrightarrow> pushing ?ts (?ps[i := p]) x = pushing ?ts ?ps x" for p
  proof (intro allI impI)
    fix x
    assume "x \<noteq> r"
    then show "pushing ?ts (?ps[i := p]) x = pushing ?ts ?ps x" using up [of p x] by (simp add: one_if_def)
  qed
  have targets: "\<forall>j < length (?ps[i := p]). ?ps[i := p] ! j \<noteq> None \<longrightarrow> target (?ts ! j) \<noteq> None" for p
    using sizes(1,4) i by (auto simp: nth_list_update)
  define k where "k = pushing ?ts (?ps[i := None]) r"
  have k: "pushing ?ts (?ps[i := p]) r = k + one_if (past p)" for p
    using up [of None r] up [of p r] by (simp add: k_def one_if_def split: if_splits)
  have "k < writers ?s"
    using pushing_le [of "?ps[i := Some \<lparr>th_item = empty_item, th_pc = AtInc, th_head = 0\<rparr>]" ?ts r] sizes(1)
    by (simp add: k past_count_def one_if_def writers_def)
  have now: "ring_fine (rc_size ?s) (writers ?s) (k + one_if (past (?ps ! i))) (shape (rc_mem ?s r))"
  proof -
    have "pushing ?ts ?ps r = k + one_if (past (?ps ! i))" using k [of "?ps ! i"] by simp
    then show ?thesis using sizes(5) r by metis
  qed
  show ?thesis
  proof (cases "?ps ! i")
    case None
    show ?thesis
    proof (cases "sb_state (rc_mem ?s r) = ClosedState")
      case True
      have "?ps[i := None] = ?ps" using None list_update_id [of ?ps i] by simp
      then show ?thesis using return_keeps [OF inv i, of "Some ErrBufferClose"] True None by (simp add: Let_def)
    next
      case False
      let ?ps' = "?ps[i := Some (new_thread (item_of ?t))]"
      have "\<not> past (Some (new_thread (item_of ?t)))" by (simp add: new_thread_def past_count_def)
      then have "ring_fine (rc_size ?s) (writers ?s) (pushing ?ts ?ps' r) (shape (rc_mem ?s r))"
        using now None by (simp add: k one_if_def)
      then have "fine_inv c n (f\<lparr>fr_s := set_ring r (rc_mem ?s r) ?s, fr_push := ?ps', fr_pop := fr_pop f\<rparr>)"
        using sizes(6) by (intro in_ring_keeps [OF inv r _ other targets]) auto
      then show ?thesis using False None by (simp add: Let_def set_ring_def)
    qed
  next
    case (Some p)
    show ?thesis
    proof (cases "is_done (th_pc p)")
      case True
      then obtain err where err: "th_pc p = Done err" by (auto simp: is_done_iff)
      then have "\<not> past (?ps ! i)" using Some by (simp add: past_count_def)
      then show ?thesis using return_keeps [OF inv i, of err] err Some by (simp add: Let_def)
    next
      case False
      obtain p1 b1 where p1: "push_step p (rc_mem ?s r) = Inr (p1, b1)"
          "ring_fine (rc_size ?s) (writers ?s) (k + one_if (past_count p1)) (shape b1)"
          "sb_count (rc_mem ?s r) \<le> sb_count b1"
        using push_counts [OF _ \<open>k < writers ?s\<close> sizes(2,3) False, of "rc_mem ?s r"] now Some by auto
      have "fine_inv c n (f\<lparr>fr_s := set_ring r b1 ?s, fr_push := ?ps[i := Some p1], fr_pop := fr_pop f\<rparr>)"
        using sizes(6) p1(2,3) by (intro in_ring_keeps [OF inv r _ other targets]) (fastforce simp: k)+
      then show ?thesis using False Some p1(1) by (auto simp: Let_def split: push_pc.splits)
    qed
  qed
qed

lemma read_keeps:
  assumes inv: "fine_inv c n f" and cur: "rc_current (fr_s f) = Some r" and step: "ring_pop_step r (fr_pop f) f = Some q"
  shows "\<exists>f'. q = Inr f' \<and> fine_inv c n f'"
proof -
  let ?s = "fr_s f" and ?ts = "rc_threads (fr_s f)" and ?ps = "fr_push f"
  note sizes = fine_sizes [OF inv]
  have r: "r < rc_next ?s" using inv cur by (simp add: fine_inv_def refs_ok_def Let_def)
  have keep: "fine_inv c n (f\<lparr>fr_s := set_ring r b ?s, fr_push := ?ps, fr_pop := Some p\<rparr>)"
    if "ring_fine (rc_size ?s) (writers ?s) (pushing ?ts ?ps r) (shape b)" "committed p \<longrightarrow> 1 \<le> sb_count b" for p b
    by (rule in_ring_keeps [OF inv r]) (use that sizes cur in auto)
  show ?thesis
  proof (cases "fr_pop f")
    case None
    then have "q = Inr (f\<lparr>fr_s := set_ring r (rc_mem ?s r) ?s, fr_push := ?ps, fr_pop := Some new_pop\<rparr>)"
      using step by (auto simp: set_ring_def split: if_splits)
    moreover have "\<not> committed new_pop" by (simp add: new_pop_def committed_def taking_def)
    ultimately show ?thesis using keep [of "rc_mem ?s r" new_pop] sizes(5) r by blast
  next
    case (Some p)
    show ?thesis
    proof (cases "pop_done (pt_pc p)")
      case True
      then obtain x where x: "pt_pc p = PopDone x" by (cases "pt_pc p") auto
      let ?f = "f\<lparr>fr_s := ?s\<lparr>rc_delivered := rc_delivered ?s @ [\<lparr>bi_Ptr = fst x, bi_Size = snd x\<rparr>]\<rparr>, fr_pop := None\<rparr>"
      have "sizes_fine ?f" using sizes by (simp add: sizes_fine_def Let_def)
      then have "fine_inv c n ?f"
        using fine_parts [OF inv] inv by (simp add: fine_inv_def Let_def lock_inv_def close_inv_def refs_ok_def)
      then show ?thesis using step Some x by (cases x) (auto simp: Let_def)
    next
      case False
      have "committed p \<longrightarrow> 1 \<le> sb_count (rc_mem ?s r)" using sizes(6) Some cur by auto
      then obtain p1 b1 where p1: "pop_step p (rc_mem ?s r) = Inr (p1, b1)"
          "ring_fine (rc_size ?s) (writers ?s) (pushing ?ts ?ps r) (shape b1)" "committed p1 \<longrightarrow> 1 \<le> sb_count b1"
        using pop_counts [OF _ sizes(2,3) _ False, of "pushing ?ts ?ps r" "rc_mem ?s r"] sizes(5) r by blast
      have "q = Inr (f\<lparr>fr_s := set_ring r b1 ?s, fr_push := ?ps, fr_pop := Some p1\<rparr>)"
        using step Some False p1(1) by (auto simp: Let_def split: pop_pc.splits)
      then show ?thesis using keep [OF p1(2,3)] by blast
    qed
  qed
qed

section \<open>Properties\<close>

lemma fire_fine_keeps:
  assumes inv: "fine_inv c n f" and step: "fire_fine l f = Some q"
  shows "\<exists>f'. q = Inr f' \<and> fine_inv c n f'"
proof (cases l)
  case (Go i choice now need)
  then have i: "i < length (rc_threads (fr_s f))" using step by (simp split: if_splits)
  show ?thesis
  proof (cases "target (rc_threads (fr_s f) ! i)")
    case None
    then show ?thesis using coarse_keeps [OF inv i] step Go i by simp
  next
    case (Some r)
    then show ?thesis using write_keeps [OF inv i] step Go i by simp
  qed
next
  case PopItem
  then show ?thesis using read_keeps [OF inv] step by (auto split: option.splits)
next
  case (Take k)
  then show ?thesis using consumer_keeps [OF inv, of l] step by (auto split: if_splits)
next
  case Recycle
  then show ?thesis using consumer_keeps [OF inv, of l] step by (auto split: if_splits)
qed

interpretation fine_race: safe_system fire_fine "fine_inv c n" for c n
  by unfold_locales (use fire_fine_keeps in fastforce)+

lemma fine_start_inv:
  assumes "fine_start sz items ticks closers = Inr f" "1 \<le> sz" "sz + int (length items) < 2 ^ 31"
  shows "fine_inv sz (length items) f"
proof -
  obtain s where s: "race_start sz items ticks closers = Inr s"
      "f = \<lparr>fr_s = s, fr_push = replicate (length (rc_threads s)) None, fr_pop = None\<rparr>"
    using assms(1) by (auto simp: fine_start_def bind_go_iff)
  have "sz < 2 ^ 31" using assms(3) by simp
  then have inv: "Write_Race.race_inv s" by (rule race_start_inv [OF s(1) assms(2)])
  obtain b where b: "NewSmartBuffer sz = Inr b" "ring_ok sz b" "sb_items b = []"
    using fresh_ring [OF assms(2) \<open>sz < 2 ^ 31\<close>] by blast
  have b0: "shape b = (sz, nat sz, 0)" using b(2,3) by (simp add: shape_def ring_ok_def sb_inv_def sb_items_empty_iff)
  have fields: "rc_mem s = (\<lambda>_. b)" "rc_next s = 2" "rc_active s = 0" "rc_passive s = 1" "rc_pool s = []" "rc_spawned s = []"
    "rc_current s = None" "rc_size s = sz"
    "rc_threads s = Monitor ticks MLoop # map (\<lambda>x. Writer x WStart) items @ replicate closers (Closer CCas)"
    using s(1) b(1) by (auto simp: race_start_def)
  have w: "writers s = length items" by (simp add: writers_def fields(9) filter_map comp_def)
  have tr: "thread_refs t = {}" if "t \<in> set (rc_threads s)" for t
    using that by (auto simp: fields(9) thread_refs_def in_hand_def)
  have p0: "pushing (rc_threads s) (replicate (length (rc_threads s)) None) r = 0" for r
    by (auto simp: pushing_def flying_def filter_empty_conv set_zip)
  have "sizes_fine f"
    using assms(2,3) by (simp add: s(2) sizes_fine_def Let_def p0 w fields(1,8) b0 ring_fine_def)
  moreover have "refs_ok s" by (simp add: refs_ok_def fields)
  ultimately show ?thesis using inv w tr by (simp add: fine_inv_def Write_Race.race_inv_def s(2) fields(8))
qed

lemma fine_run_exec:
  "fine_run sz items ticks closers ls = Some f \<Longrightarrow>
   \<exists>f0. fine_start sz items ticks closers = Inr f0 \<and> exec fire_fine ls f0 f"
  by (auto simp: fine_run_def intro: run_labels_exec split: option.splits sum.splits)



end
