(* ===== verification/Buffer_Queue.thy ===== *)
theory Buffer_Queue
  imports Smart_Buffer Float64 "HOL-Library.Sublist"
begin

text \<open>
  \<open>src/core/queue.go\<close> and \<open>src/core/component/queue.go\<close>: a queue of buffers with an eviction policy. The
  repository declares the policy as an interface and has no implementation of it, so a policy is a
  parameter here: two functions on a state of its own. In \<open>autoEvict\<close> the policy is handed the list
  itself and may keep it, so \<open>Evict\<close> also receives the contents of the queue and returns them, possibly
  changed. What a theorem needs of a policy is a hypothesis: it leaves the queue alone, or it only
  removes items.
\<close>

section \<open>Data\<close>

record queue_item =
  qi_ID :: int
  qi_Buf :: smart_buffer
  qi_PushTime :: int

record evict_context =
  ec_QueueSize :: int
  ec_Queue :: "queue_item list option"
  ec_CurrentMemory :: int
  ec_CPUUsage :: f64
  ec_LatencyP99 :: int

record 'p evict_policy =
  ep_state :: 'p
  ep_ShouldEvict :: "evict_context \<Rightarrow> 'p \<Rightarrow> bool \<times> 'p"
  ep_Evict :: "'p \<Rightarrow> queue_item list \<Rightarrow> int \<times> 'p \<times> queue_item list"

record 'p buffer_queue =
  bq_q :: "queue_item list"
  bq_ep :: "'p evict_policy option"
  bq_evictCount :: int
  bq_maxSize :: int
  bq_enableAutoEvict :: bool
  bq_stop :: bool
  bq_state :: int

definition empty_context :: evict_context where
  "empty_context = \<lparr>ec_QueueSize = 0, ec_Queue = None, ec_CurrentMemory = 0, ec_CPUUsage = Fin 0, ec_LatencyP99 = 0\<rparr>"

section \<open>Operations\<close>

definition NewBufferQueue :: "'p evict_policy option \<Rightarrow> int \<Rightarrow> bool \<Rightarrow> 'p buffer_queue" where
  "NewBufferQueue ep maxSize enableAutoEvict =
     \<lparr>bq_q = [], bq_ep = ep, bq_evictCount = 0, bq_maxSize = maxSize,
      bq_enableAutoEvict = enableAutoEvict, bq_stop = False, bq_state = 0\<rparr>"

definition bq_len :: "'p buffer_queue \<Rightarrow> int" where
  "bq_len q = int (length (bq_q q))"

text \<open>
  \<open>if q.ep.ShouldEvict(ctx) \<open>{\<close> evictNum := q.ep.Evict(); q.evictCount += evictNum \<open>}\<close>\<close>; a nil policy is
  dereferenced.
\<close>

definition evict_if :: "evict_context \<Rightarrow> 'p buffer_queue \<Rightarrow> 'p buffer_queue go" where
  "evict_if ctx q =
     (case bq_ep q of
        None \<Rightarrow> Inl NilDereference
      | Some ep \<Rightarrow>
          let (should, st) = ep_ShouldEvict ep ctx (ep_state ep)
          in if should
             then let (evictNum, st, xs) = ep_Evict ep st (bq_q q)
                  in Inr (q\<lparr>bq_q := xs, bq_ep := Some (ep\<lparr>ep_state := st\<rparr>),
                            bq_evictCount := wrap64 (bq_evictCount q + evictNum)\<rparr>)
             else Inr (q\<lparr>bq_ep := Some (ep\<lparr>ep_state := st\<rparr>)\<rparr>))"

definition bq_Push :: "queue_item \<Rightarrow> 'p buffer_queue \<Rightarrow> (ts_error option \<times> 'p buffer_queue) go" where
  "bq_Push s q =
     (if bq_state q = 1 then Inr (Some ErrQueueClosed, q)
      else if bq_len q < bq_maxSize q then Inr (None, q\<lparr>bq_q := bq_q q @ [s]\<rparr>)
      else case evict_if empty_context q of
             Inl p \<Rightarrow> Inl p
           | Inr q1 \<Rightarrow> Inr (None, q1\<lparr>bq_q := bq_q q1 @ [s]\<rparr>))"

definition bq_Pick :: "'p buffer_queue \<Rightarrow> (ts_error + queue_item) \<times> 'p buffer_queue" where
  "bq_Pick q =
     (if bq_state q = 1 then (Inl ErrQueueClosed, q)
      else case bq_q q of
             [] \<Rightarrow> (Inl ErrQueueEmpty, q)
           | x # xs \<Rightarrow> (Inr x, q\<lparr>bq_q := xs\<rparr>))"

definition SetEvictPolicy :: "'p evict_policy option \<Rightarrow> 'p buffer_queue \<Rightarrow> 'p buffer_queue" where
  "SetEvictPolicy ep q = q\<lparr>bq_ep := ep\<rparr>"

definition bq_Reset :: "'p buffer_queue \<Rightarrow> 'p buffer_queue" where
  "bq_Reset q = q\<lparr>bq_evictCount := 0, bq_q := []\<rparr>"

text \<open>One round of the loop of \<open>autoEvict\<close> when its ticker fires.\<close>

definition autoEvict_tick :: "'p buffer_queue \<Rightarrow> 'p buffer_queue go" where
  "autoEvict_tick q =
     (if bq_stop q \<or> \<not> bq_enableAutoEvict q then Inr q
      else evict_if (empty_context\<lparr>ec_Queue := Some (bq_q q)\<rparr>) q)"

definition bq_Close :: "'p buffer_queue \<Rightarrow> 'p buffer_queue go" where
  "bq_Close q =
     (if bq_state q \<noteq> 0 then Inr q
      else if bq_stop q then Inl CloseOfClosedChannel
      else Inr (q\<lparr>bq_state := 1, bq_stop := True\<rparr>))"

section \<open>Policies\<close>

definition keeps_queue :: "'p evict_policy \<Rightarrow> bool" where
  "keeps_queue ep \<longleftrightarrow> (\<forall>st xs. snd (snd (ep_Evict ep st xs)) = xs)"

definition only_removes :: "'p evict_policy \<Rightarrow> bool" where
  "only_removes ep \<longleftrightarrow> (\<forall>st xs. subseq (snd (snd (ep_Evict ep st xs))) xs)"

text \<open>The functions of the installed policy stay the same, its state may change.\<close>

definition same_policy :: "'p buffer_queue \<Rightarrow> 'p buffer_queue \<Rightarrow> bool" where
  "same_policy q q' \<longleftrightarrow>
     (\<exists>ep st. bq_ep q = Some ep \<and> bq_ep q' = Some (ep\<lparr>ep_state := st\<rparr>)) \<and>
     bq_state q' = bq_state q \<and> bq_stop q' = bq_stop q \<and> bq_maxSize q' = bq_maxSize q \<and>
     bq_enableAutoEvict q' = bq_enableAutoEvict q"

lemma policy_state [simp]:
  "keeps_queue (ep\<lparr>ep_state := st\<rparr>) = keeps_queue ep" "only_removes (ep\<lparr>ep_state := st\<rparr>) = only_removes ep"
  by (simp_all add: keeps_queue_def only_removes_def)

lemma evict_if_ok:
  assumes "bq_ep q = Some ep"
  shows "\<exists>q'. evict_if ctx q = Inr q' \<and> same_policy q q' \<and>
    (only_removes ep \<longrightarrow> subseq (bq_q q') (bq_q q)) \<and> (keeps_queue ep \<longrightarrow> bq_q q' = bq_q q)"
proof -
  obtain sh st where s: "ep_ShouldEvict ep ctx (ep_state ep) = (sh, st)" by fastforce
  obtain n st' xs where e: "ep_Evict ep st (bq_q q) = (n, st', xs)" by (metis prod_cases3)
  have "only_removes ep \<Longrightarrow> subseq xs (bq_q q)" "keeps_queue ep \<Longrightarrow> xs = bq_q q"
    using e unfolding only_removes_def keeps_queue_def by (metis snd_conv)+
  then show ?thesis
    using assms s e by (cases sh) (auto simp: evict_if_def Let_def same_policy_def)
qed

section \<open>The queue is a first-in first-out queue\<close>

definition bq_put :: "queue_item \<Rightarrow> 'p buffer_queue \<Rightarrow> 'p buffer_queue option" where
  "bq_put x q = (case bq_Push x q of Inr (None, q') \<Rightarrow> Some q' | _ \<Rightarrow> None)"

definition bq_take :: "'p buffer_queue \<Rightarrow> (queue_item \<times> 'p buffer_queue) option" where
  "bq_take q = (case bq_Pick q of (Inr x, q') \<Rightarrow> Some (x, q') | _ \<Rightarrow> None)"

definition bq_inv :: "'p buffer_queue \<Rightarrow> bool" where
  "bq_inv q \<longleftrightarrow> bq_state q = 0 \<and> (\<exists>ep. bq_ep q = Some ep \<and> keeps_queue ep)"

lemma Push_open:
  assumes "bq_state q = 0" "bq_ep q = Some ep"
  shows "\<exists>q'. bq_Push x q = Inr (None, q') \<and> (\<exists>st. bq_ep q' = Some (ep\<lparr>ep_state := st\<rparr>)) \<and> bq_state q' = 0 \<and>
    bq_stop q' = bq_stop q \<and> bq_enableAutoEvict q' = bq_enableAutoEvict q \<and> bq_maxSize q' = bq_maxSize q \<and>
    (only_removes ep \<longrightarrow> (\<exists>xs. bq_q q' = xs @ [x] \<and> subseq xs (bq_q q))) \<and>
    (keeps_queue ep \<longrightarrow> bq_q q' = bq_q q @ [x])"
proof (cases "bq_len q < bq_maxSize q")
  case True
  have "\<exists>st. ep = ep\<lparr>ep_state := st\<rparr>" by (rule exI [of _ "ep_state ep"]) simp
  then show ?thesis using True assms by (auto simp: bq_Push_def)
next
  case False
  obtain q1 where "evict_if empty_context q = Inr q1" "same_policy q q1"
      "only_removes ep \<longrightarrow> subseq (bq_q q1) (bq_q q)" "keeps_queue ep \<longrightarrow> bq_q q1 = bq_q q"
    using evict_if_ok [OF assms(2)] by blast
  with False assms show ?thesis by (auto simp: bq_Push_def same_policy_def)
qed

interpretation linked: fifo bq_put bq_take bq_q bq_inv "\<lambda>_. True"
proof unfold_locales
  fix q q' :: "'p buffer_queue" and x
  assume inv: "bq_inv q" and p: "bq_put x q = Some q'"
  obtain ep where ep: "bq_state q = 0" "bq_ep q = Some ep" "keeps_queue ep" using inv by (auto simp: bq_inv_def)
  from Push_open [OF ep(1,2), of x] p ep(3) show "bq_q q' = bq_q q @ [x]" "bq_inv q'"
    by (auto simp: bq_put_def bq_inv_def)
next
  fix q q' :: "'p buffer_queue" and x
  assume "bq_inv q" "bq_take q = Some (x, q')"
  then show "bq_q q = x # bq_q q'" "bq_inv q'"
    by (auto simp: bq_take_def bq_Pick_def bq_inv_def split: if_splits list.splits sum.splits)
next
  fix q :: "'p buffer_queue"
  assume "bq_inv q"
  then show "bq_take q = None \<longleftrightarrow> bq_q q = []"
    by (auto simp: bq_take_def bq_Pick_def bq_inv_def split: list.splits)
qed

section \<open>Runs with eviction\<close>

datatype queue_op = QPush queue_item | QPick | QTick

text \<open>What was pushed, what was picked, and the final queue; a panic ends the run.\<close>

fun queue_run :: "queue_op list \<Rightarrow> 'p buffer_queue \<Rightarrow> (queue_item list \<times> queue_item list \<times> 'p buffer_queue) go" where
  "queue_run [] q = Inr ([], [], q)"
| "queue_run (QPush x # ops) q =
     (case bq_Push x q of
        Inl p \<Rightarrow> Inl p
      | Inr (err, q1) \<Rightarrow>
          (case queue_run ops q1 of
             Inl p \<Rightarrow> Inl p
           | Inr (ins, outs, r) \<Rightarrow> Inr (if err = None then x # ins else ins, outs, r)))"
| "queue_run (QPick # ops) q =
     (case bq_Pick q of
        (r1, q1) \<Rightarrow>
          (case queue_run ops q1 of
             Inl p \<Rightarrow> Inl p
           | Inr (ins, outs, r) \<Rightarrow> Inr (ins, (case r1 of Inl _ \<Rightarrow> outs | Inr x \<Rightarrow> x # outs), r)))"
| "queue_run (QTick # ops) q =
     (case autoEvict_tick q of
        Inl p \<Rightarrow> Inl p
      | Inr q1 \<Rightarrow> queue_run ops q1)"

lemma queue_run_subseq:
  assumes "bq_state q = 0" "bq_ep q = Some ep" "only_removes ep"
  shows "\<exists>ins outs r. queue_run ops q = Inr (ins, outs, r) \<and> subseq (outs @ bq_q r) (bq_q q @ ins)"
  using assms
proof (induction ops arbitrary: q ep)
  case Nil
  then show ?case by simp
next
  case (Cons op ops)
  show ?case
  proof (cases op)
    case (QPush x)
    obtain q1 st xs where q1: "bq_Push x q = Inr (None, q1)" "bq_ep q1 = Some (ep\<lparr>ep_state := st\<rparr>)" "bq_state q1 = 0"
        "bq_q q1 = xs @ [x]" "subseq xs (bq_q q)"
      using Push_open [OF Cons.prems(1,2), of x] Cons.prems(3) by blast
    obtain ins outs r where r: "queue_run ops q1 = Inr (ins, outs, r)" "subseq (outs @ bq_q r) (bq_q q1 @ ins)"
      using Cons.IH [OF q1(3,2)] Cons.prems(3) by auto
    have "subseq (xs @ x # ins) (bq_q q @ x # ins)" using q1(5) by (intro list_emb_append_mono) auto
    then have "subseq (outs @ bq_q r) (bq_q q @ x # ins)"
      using r(2) q1(4) subseq_order.order_trans by fastforce
    with QPush q1(1) r(1) show ?thesis by simp
  next
    case QPick
    show ?thesis
    proof (cases "bq_q q")
      case Nil
      then show ?thesis using QPick Cons.prems Cons.IH [OF Cons.prems] by (auto simp: bq_Pick_def)
    next
      case (Cons x xs)
      let ?q = "q\<lparr>bq_q := xs\<rparr>"
      obtain ins outs r where "queue_run ops ?q = Inr (ins, outs, r)" "subseq (outs @ bq_q r) (bq_q ?q @ ins)"
        using Cons.IH [of ?q ep] Cons.prems by auto
      then show ?thesis using QPick Cons Cons.prems(1) by (simp add: bq_Pick_def)
    qed
  next
    case QTick
    obtain q1 st where q1: "autoEvict_tick q = Inr q1" "bq_ep q1 = Some (ep\<lparr>ep_state := st\<rparr>)" "bq_state q1 = 0"
        "subseq (bq_q q1) (bq_q q)"
    proof (cases "bq_stop q \<or> \<not> bq_enableAutoEvict q")
      case True
      have "autoEvict_tick q = Inr q" using True by (simp add: autoEvict_tick_def)
      then show ?thesis by (rule that [of q "ep_state ep"]) (use Cons.prems in simp_all)
    next
      case False
      obtain q1 where "evict_if (empty_context\<lparr>ec_Queue := Some (bq_q q)\<rparr>) q = Inr q1" "same_policy q q1"
          "subseq (bq_q q1) (bq_q q)"
        using evict_if_ok [OF Cons.prems(2)] Cons.prems(3) by blast
      then show ?thesis
        using that [of q1] False Cons.prems by (auto simp: autoEvict_tick_def same_policy_def)
    qed
    obtain ins outs r where r: "queue_run ops q1 = Inr (ins, outs, r)" "subseq (outs @ bq_q r) (bq_q q1 @ ins)"
      using Cons.IH [OF q1(3,2)] Cons.prems(3) by auto
    have "subseq (bq_q q1 @ ins) (bq_q q @ ins)" using q1(4) by (intro list_emb_append_mono) auto
    then show ?thesis using QTick q1(1) r subseq_order.order_trans by fastforce
  qed
qed

section \<open>Properties\<close>

text \<open>A policy that never evicts.\<close>

definition never_evict :: "unit evict_policy" where
  "never_evict = \<lparr>ep_state = (), ep_ShouldEvict = (\<lambda>ctx st. (False, st)), ep_Evict = (\<lambda>st xs. (0, st, xs))\<rparr>"

definition sample_item :: "int \<Rightarrow> queue_item" where
  "sample_item n =
     \<lparr>qi_ID = n,
      qi_Buf = \<lparr>sb_buf = [], sb_head = -1, sb_tail = -1, sb_count = 0, sb_capacity = 0, sb_state = WriteOnly,
                sb_sem_closed = False\<rparr>,
      qi_PushTime = 0\<rparr>"

definition evict_oldest :: "unit evict_policy" where
  "evict_oldest = \<lparr>ep_state = (), ep_ShouldEvict = (\<lambda>ctx st. (True, st)), ep_Evict = (\<lambda>st xs. (1, st, drop 1 xs))\<rparr>"

text \<open>
  C26: eviction never reorders or duplicates. With any policy that only removes items, through any
  sequence of pushes, picks and automatic evictions on an open queue, nothing panics and what was picked
  followed by what is inside is a subsequence of what was inside followed by what was pushed; with a
  policy that leaves the queue alone it is all of it.
\<close>

theorem queue_keeps_order:
  assumes "bq_ep q = Some ep" "only_removes ep" "bq_state q = 0"
  shows "(\<exists>ins outs r. queue_run ops q = Inr (ins, outs, r) \<and> subseq (outs @ bq_q r) (bq_q q @ ins)) \<and>
    (keeps_queue ep \<longrightarrow>
       (\<forall>fops ins outs r. linked.run fops q = Some (ins, outs, r) \<longrightarrow> bq_q q @ ins = outs @ bq_q r))"
proof -
  have "bq_inv q" if "keeps_queue ep" using assms that by (simp add: bq_inv_def)
  then show ?thesis using queue_run_subseq [OF assms(3,1,2), of ops] linked.run_conserves by blast
qed

theorem queue_keeps_order_witness:
  "\<exists>ins outs r. queue_run [QPush (sample_item 1), QPick]
     (NewBufferQueue (Some evict_oldest) 1 True) = Inr (ins, outs, r) \<and> subseq (outs @ bq_q r) ins"
proof -
  have "only_removes evict_oldest" by (auto simp: only_removes_def evict_oldest_def suffix_imp_subseq suffix_drop)
  from queue_keeps_order [OF _ this, of "NewBufferQueue (Some evict_oldest) 1 True"
      "[QPush (sample_item 1), QPick]"]
  show ?thesis by (auto simp: NewBufferQueue_def simp del: queue_run.simps)
qed

lemma push_many:
  assumes "bq_ep q = Some never_evict" "bq_state q = 0"
  shows "\<exists>r. queue_run (map QPush xs) q = Inr (xs, [], r) \<and> bq_q r = bq_q q @ xs"
  using assms
proof (induction xs arbitrary: q)
  case Nil
  then show ?case by simp
next
  case (Cons x xs)
  obtain q1 where q1: "bq_Push x q = Inr (None, q1)" "bq_ep q1 = Some never_evict" "bq_state q1 = 0"
      "bq_q q1 = bq_q q @ [x]"
    using Push_open [OF Cons.prems(2,1), of x] by (auto simp: keeps_queue_def never_evict_def)
  then show ?case using Cons.IH [OF q1(2,3)] by auto
qed

text \<open>
  \<open>maxSize\<close> does not bound the queue. If the policy declines to evict, every push is accepted and
  the queue grows without limit; \<open>ErrQueueFull\<close> is never returned.
\<close>

theorem queue_exceeds_max_size:
  "\<exists>r. queue_run (map QPush xs) (NewBufferQueue (Some never_evict) maxSize auto) = Inr (xs, [], r) \<and>
       bq_len r = int (length xs) \<and> bq_maxSize (NewBufferQueue (Some never_evict) maxSize auto) = maxSize"
  using push_many [of "NewBufferQueue (Some never_evict) maxSize auto" xs]
  by (auto simp: NewBufferQueue_def bq_len_def)

text \<open>
  Closing is idempotent and final: the first \<open>Close\<close> of a new queue succeeds, a second changes
  nothing, and from then on \<open>Push\<close> and \<open>Pick\<close> return \<open>ErrQueueClosed\<close>, automatic eviction does
  nothing and the contents stay as they were.
\<close>

theorem queue_close_final:
  assumes "bq_state q = 0" "\<not> bq_stop q"
  shows "\<exists>r. bq_Close q = Inr r \<and> bq_Close r = Inr r \<and> bq_q r = bq_q q \<and>
    (\<forall>x. bq_Push x r = Inr (Some ErrQueueClosed, r)) \<and> bq_Pick r = (Inl ErrQueueClosed, r) \<and>
    autoEvict_tick r = Inr r"
  using assms by (simp add: bq_Close_def bq_Push_def bq_Pick_def autoEvict_tick_def)

theorem queue_close_final_witness:
  "\<exists>r. bq_Close (NewBufferQueue (Some never_evict) 3 False) = Inr r \<and> bq_Pick r = (Inl ErrQueueClosed, r)"
  using queue_close_final [of "NewBufferQueue (Some never_evict) 3 False"] by (auto simp: NewBufferQueue_def)

end
