(* ===== verification/Queue_Race.thy ===== *)
theory Queue_Race
  imports Buffer_Queue Exec_Spec
begin

text \<open>
  The queue of \<open>src/core/queue.go\<close> with concurrent goroutines. \<open>Push\<close> and \<open>Pick\<close> check the state before they take the
  lock, \<open>Close\<close> sets it before it takes the lock, and \<open>autoEvict\<close> reads the field \<open>q\<close> before it takes the lock; what a
  method does while it holds the lock is one step, because nothing it touches is written without the lock.
  \<open>Buffer_Queue\<close> takes a whole method as one step.

  \<open>Reset\<close> replaces the list by a new one, and a policy may have kept the pointer to the old one, so here lists are
  references into a store, and a policy works on the store.

  Shown: nothing is reordered, duplicated or invented, the channel \<open>stop\<close> is closed once, all calls return, and after
  \<open>Close\<close> at most one call of each goroutine still succeeds. Such a late push is lost, and an eviction that overlaps
  \<open>Reset\<close> is counted although it works on the abandoned list.
\<close>

section \<open>Data\<close>

record 'p heap_policy =
  hp_state :: 'p
  hp_ShouldEvict :: "nat option \<Rightarrow> (nat \<Rightarrow> queue_item list) \<Rightarrow> 'p \<Rightarrow> bool \<times> 'p"
  hp_Evict :: "'p \<Rightarrow> (nat \<Rightarrow> queue_item list) \<Rightarrow> int \<times> 'p \<times> (nat \<Rightarrow> queue_item list)"

text \<open>The calls of a goroutine; a goroutine of \<open>autoEvict\<close> makes one \<open>CallTick\<close> each time its ticker fires.\<close>

datatype 'p queue_call =
  CallPush queue_item | CallPick | CallSet "'p heap_policy option" | CallReset | CallClose | CallTick

text \<open>
  Where a call stands: not begun, waiting for the lock, holding it, about to release it. \<open>autoEvict\<close> takes the
  pointer it has read along.
\<close>

datatype queue_pc = QStart | QLock "nat option" | QBody "nat option" | QUnlock

datatype queue_result = Accepted queue_item | Picked queue_item | Refused ts_error | Returned

text \<open>The last two fields are auxiliary: the results in order, and the number of successes after \<open>Close\<close>.\<close>

record 'p queue_race =
  qr_lists :: "nat \<Rightarrow> queue_item list"
  qr_next :: nat
  qr_q :: nat
  qr_mu :: "nat option"
  qr_ep :: "'p heap_policy option"
  qr_evictCount :: int
  qr_maxSize :: int
  qr_stop :: bool
  qr_state :: int
  qr_threads :: "(queue_pc \<times> 'p queue_call list) list"
  qr_log :: "queue_result list"
  qr_late :: nat

abbreviation current :: "'p queue_race \<Rightarrow> queue_item list" where
  "current s \<equiv> qr_lists s (qr_q s)"

section \<open>Steps\<close>

text \<open>The test for eviction, over the store.\<close>

definition evict_held :: "nat option \<Rightarrow> 'p queue_race \<Rightarrow> 'p queue_race go" where
  "evict_held ctx s =
     (case qr_ep s of
        None \<Rightarrow> Inl NilDereference
      | Some ep \<Rightarrow>
          let (should, st) = hp_ShouldEvict ep ctx (qr_lists s) (hp_state ep)
          in if should
             then let (evictNum, st1, ls) = hp_Evict ep st (qr_lists s)
                  in Inr (s\<lparr>qr_lists := ls, qr_ep := Some (ep\<lparr>hp_state := st1\<rparr>),
                            qr_evictCount := wrap64 (qr_evictCount s + evictNum)\<rparr>)
             else Inr (s\<lparr>qr_ep := Some (ep\<lparr>hp_state := st\<rparr>)\<rparr>))"

definition log_result :: "queue_result \<Rightarrow> 'p queue_race \<Rightarrow> 'p queue_race" where
  "log_result r s =
     s\<lparr>qr_log := qr_log s @ [r],
       qr_late := (case r of
           Accepted x \<Rightarrow> if qr_state s = 1 then Suc (qr_late s) else qr_late s
         | Picked x \<Rightarrow> if qr_state s = 1 then Suc (qr_late s) else qr_late s
         | _ \<Rightarrow> qr_late s)\<rparr>"

definition push_back :: "queue_item \<Rightarrow> 'p queue_race \<Rightarrow> 'p queue_race" where
  "push_back x s = log_result (Accepted x) (s\<lparr>qr_lists := (qr_lists s)(qr_q s := current s @ [x])\<rparr>)"

text \<open>What the methods do while they hold the lock.\<close>

definition Push_held :: "queue_item \<Rightarrow> 'p queue_race \<Rightarrow> 'p queue_race go" where [simp]:
  "Push_held x s =
     (if int (length (current s)) < qr_maxSize s then Inr (push_back x s)
      else case evict_held None s of
             Inl e \<Rightarrow> Inl e
           | Inr s1 \<Rightarrow> Inr (push_back x s1))"

definition Pick_held :: "'p queue_race \<Rightarrow> 'p queue_race go" where [simp]:
  "Pick_held s =
     (case current s of
        [] \<Rightarrow> Inr (log_result (Refused ErrQueueEmpty) s)
      | x # xs \<Rightarrow> Inr (log_result (Picked x) (s\<lparr>qr_lists := (qr_lists s)(qr_q s := xs)\<rparr>)))"

definition SetEvictPolicy_held :: "'p heap_policy option \<Rightarrow> 'p queue_race \<Rightarrow> 'p queue_race go" where [simp]:
  "SetEvictPolicy_held ep s = Inr (log_result Returned (s\<lparr>qr_ep := ep\<rparr>))"

definition Reset_held :: "'p queue_race \<Rightarrow> 'p queue_race go" where [simp]:
  "Reset_held s =
     Inr (log_result Returned
       (s\<lparr>qr_evictCount := 0, qr_lists := (qr_lists s)(qr_next s := []), qr_q := qr_next s,
          qr_next := Suc (qr_next s)\<rparr>))"

definition Close_held :: "'p queue_race \<Rightarrow> 'p queue_race go" where [simp]:
  "Close_held s =
     (if qr_stop s then Inl CloseOfClosedChannel else Inr (log_result Returned (s\<lparr>qr_stop := True\<rparr>)))"

fun held_step :: "'p queue_call \<Rightarrow> nat option \<Rightarrow> 'p queue_race \<Rightarrow> 'p queue_race go" where
  "held_step (CallPush x) p s = Push_held x s"
| "held_step CallPick p s = Pick_held s"
| "held_step (CallSet ep) p s = SetEvictPolicy_held ep s"
| "held_step CallReset p s = Reset_held s"
| "held_step CallTick p s = evict_held p s"
| "held_step CallClose p s = Close_held s"

text \<open>
  What they do before they take the lock: the check of the state in \<open>Push\<close> and \<open>Pick\<close>, the compare-and-swap of
  \<open>Close\<close>, and reading the pointer in \<open>autoEvict\<close>. \<open>None\<close> as the next position says that the call returns.
\<close>

definition state_check :: "'p queue_race \<Rightarrow> queue_pc option \<times> 'p queue_race" where [simp]:
  "state_check s =
     (if qr_state s = 1 then (None, log_result (Refused ErrQueueClosed) s) else (Some (QLock None), s))"

definition Close_enter :: "'p queue_race \<Rightarrow> queue_pc option \<times> 'p queue_race" where [simp]:
  "Close_enter s =
     (if qr_state s \<noteq> 0 then (None, log_result Returned s) else (Some (QLock None), s\<lparr>qr_state := 1\<rparr>))"

definition autoEvict_enter :: "'p queue_race \<Rightarrow> queue_pc option \<times> 'p queue_race" where [simp]:
  "autoEvict_enter s = (Some (QLock (Some (qr_q s))), s)"

fun enter_step :: "'p queue_call \<Rightarrow> 'p queue_race \<Rightarrow> queue_pc option \<times> 'p queue_race" where
  "enter_step (CallPush x) s = state_check s"
| "enter_step CallPick s = state_check s"
| "enter_step (CallSet ep) s = (Some (QLock None), s)"
| "enter_step CallReset s = (Some (QLock None), s)"
| "enter_step CallTick s = autoEvict_enter s"
| "enter_step CallClose s = Close_enter s"

definition goto :: "nat \<Rightarrow> queue_pc \<Rightarrow> 'p queue_call list \<Rightarrow> 'p queue_race \<Rightarrow> 'p queue_race" where
  "goto i pc cs s = s\<lparr>qr_threads := (qr_threads s)[i := (pc, cs)]\<rparr>"

text \<open>
  A goroutine makes its next step, or a goroutine of \<open>autoEvict\<close> receives from the closed channel \<open>stop\<close> and returns;
  when the ticker fires at the same time, \<open>select\<close> may choose either.
\<close>

datatype queue_label = Run nat | Quit nat

fun fire_queue :: "queue_label \<Rightarrow> 'p queue_race \<Rightarrow> 'p queue_race go option" where
  "fire_queue (Run i) s =
     (if i < length (qr_threads s) then
        case qr_threads s ! i of
          (pc, []) \<Rightarrow> None
        | (QStart, c # cs) \<Rightarrow>
            (case enter_step c s of
               (None, s1) \<Rightarrow> Some (Inr (goto i QStart cs s1))
             | (Some pc, s1) \<Rightarrow> Some (Inr (goto i pc (c # cs) s1)))
        | (QLock p, c # cs) \<Rightarrow>
            if qr_mu s = None then Some (Inr (goto i (QBody p) (c # cs) (s\<lparr>qr_mu := Some i\<rparr>))) else None
        | (QBody p, c # cs) \<Rightarrow>
            (case held_step c p s of
               Inl e \<Rightarrow> Some (Inl e)
             | Inr s1 \<Rightarrow> Some (Inr (goto i QUnlock (c # cs) s1)))
        | (QUnlock, c # cs) \<Rightarrow> Some (Inr (goto i QStart cs (s\<lparr>qr_mu := None\<rparr>)))
      else None)"
| "fire_queue (Quit i) s =
     (if i < length (qr_threads s) \<and> qr_stop s then
        case qr_threads s ! i of
          (QStart, CallTick # cs) \<Rightarrow> Some (Inr (goto i QStart [] s))
        | _ \<Rightarrow> None
      else None)"

text \<open>A new queue, the goroutine of \<open>autoEvict\<close> whose ticker will fire \<open>n\<close> times, and goroutines with their calls.\<close>

definition queue_start :: "'p heap_policy option \<Rightarrow> int \<Rightarrow> bool \<Rightarrow> nat \<Rightarrow> 'p queue_call list list \<Rightarrow> 'p queue_race" where
  "queue_start ep maxSize enableAutoEvict n css =
     \<lparr>qr_lists = (\<lambda>_. []), qr_next = 1, qr_q = 0, qr_mu = None, qr_ep = ep, qr_evictCount = 0, qr_maxSize = maxSize,
      qr_stop = False, qr_state = 0,
      qr_threads = (if enableAutoEvict then [(QStart, replicate n CallTick)] else []) @ map (\<lambda>cs. (QStart, cs)) css,
      qr_log = [], qr_late = 0\<rparr>"

section \<open>What the goroutines see of the queue\<close>

fun accepted :: "queue_result list \<Rightarrow> queue_item list" where
  "accepted [] = []"
| "accepted (Accepted x # rs) = x # accepted rs"
| "accepted (r # rs) = accepted rs"

fun picked :: "queue_result list \<Rightarrow> queue_item list" where
  "picked [] = []"
| "picked (Picked x # rs) = x # picked rs"
| "picked (r # rs) = picked rs"

lemma results_append [simp]:
  "accepted (rs @ rs') = accepted rs @ accepted rs'" "picked (rs @ rs') = picked rs @ picked rs'"
  by (induction rs rule: accepted.induct) auto

text \<open>
  A policy that only removes items, from whichever list it works on, or that leaves all lists alone. With \<open>b\<close> the
  stronger contract is meant throughout, and no call resets the queue.
\<close>

definition good_policy :: "bool \<Rightarrow> 'p heap_policy option \<Rightarrow> bool" where
  "good_policy b ep \<longleftrightarrow>
     (case ep of
        None \<Rightarrow> False
      | Some ep \<Rightarrow> \<forall>st ls a. subseq (snd (snd (hp_Evict ep st ls)) a) (ls a) \<and> (b \<longrightarrow> snd (snd (hp_Evict ep st ls)) a = ls a))"

fun good_call :: "bool \<Rightarrow> 'p queue_call \<Rightarrow> bool" where
  "good_call b (CallSet ep) = good_policy b ep"
| "good_call b CallReset = (\<not> b)"
| "good_call b c = True"

definition contents :: "bool \<Rightarrow> 'p queue_race \<Rightarrow> bool" where
  "contents b s \<longleftrightarrow>
     good_policy b (qr_ep s) \<and> subseq (picked (qr_log s) @ current s) (accepted (qr_log s)) \<and>
     (b \<longrightarrow> picked (qr_log s) @ current s = accepted (qr_log s))"

lemma good_policy_state [simp]: "good_policy b (Some (ep\<lparr>hp_state := st\<rparr>)) = good_policy b (Some ep)"
  by (simp add: good_policy_def)

text \<open>What a step leaves alone.\<close>

definition frame :: "'p queue_race \<Rightarrow> 'p queue_race \<Rightarrow> bool" where
  "frame s s' \<longleftrightarrow> qr_threads s' = qr_threads s \<and> qr_mu s' = qr_mu s \<and> qr_maxSize s' = qr_maxSize s"

lemma evict_held_ok:
  assumes "contents b s"
  shows "\<exists>s'. evict_held p s = Inr s' \<and> contents b s' \<and> frame s s' \<and> qr_state s' = qr_state s \<and> qr_stop s' = qr_stop s \<and>
    qr_log s' = qr_log s \<and> qr_late s' = qr_late s \<and> qr_q s' = qr_q s"
proof -
  obtain ep where ep: "qr_ep s = Some ep" "good_policy b (Some ep)"
    using assms by (auto simp: contents_def good_policy_def split: option.splits)
  obtain sh st where sh: "hp_ShouldEvict ep p (qr_lists s) (hp_state ep) = (sh, st)" by fastforce
  obtain n st1 ls where ev: "hp_Evict ep st (qr_lists s) = (n, st1, ls)" by (metis prod_cases3)
  have "subseq (snd (snd (hp_Evict ep st (qr_lists s))) a) (qr_lists s a) \<and>
      (b \<longrightarrow> snd (snd (hp_Evict ep st (qr_lists s))) a = qr_lists s a)" for a
    using ep(2) by (simp add: good_policy_def)
  then have "subseq (ls a) (qr_lists s a) \<and> (b \<longrightarrow> ls a = qr_lists s a)" for a by (simp add: ev)
  then have sub: "subseq (picked (qr_log s) @ ls (qr_q s)) (picked (qr_log s) @ current s)" and
    same: "b \<longrightarrow> ls (qr_q s) = current s" by (simp_all add: subseq_append')
  show ?thesis
  proof (cases sh)
    case True
    let ?s' = "s\<lparr>qr_lists := ls, qr_ep := Some (ep\<lparr>hp_state := st1\<rparr>), qr_evictCount := wrap64 (qr_evictCount s + n)\<rparr>"
    have "contents b ?s'"
      using assms sub same ep subseq_order.order_trans [OF sub] by (simp add: contents_def)
    then show ?thesis using True ep(1) sh ev by (simp add: evict_held_def frame_def)
  next
    case False
    then show ?thesis using assms ep sh by (simp add: evict_held_def frame_def contents_def)
  qed
qed

lemma contents_push: "contents b s \<Longrightarrow> contents b (push_back x s)"
  by (auto simp: contents_def push_back_def log_result_def simp flip: append_assoc intro: list_emb_append_mono)

lemma push_back_fields [simp]:
  "qr_threads (push_back x s) = qr_threads s" "qr_mu (push_back x s) = qr_mu s" "qr_maxSize (push_back x s) = qr_maxSize s"
  "qr_state (push_back x s) = qr_state s" "qr_stop (push_back x s) = qr_stop s"
  "qr_late (push_back x s) = (if qr_state s = 1 then Suc (qr_late s) else qr_late s)"
  by (simp_all add: push_back_def log_result_def)

lemma held_step_ok:
  assumes "contents b s" "good_call b c" "c = CallClose \<longrightarrow> \<not> qr_stop s"
  shows "\<exists>s'. held_step c p s = Inr s' \<and> contents b s' \<and> frame s s' \<and> qr_state s' = qr_state s \<and>
    qr_stop s' = (qr_stop s \<or> c = CallClose) \<and>
    qr_late s \<le> qr_late s' \<and>
    qr_late s' \<le> qr_late s + one_if (qr_state s = 1 \<and> (c = CallPick \<or> (\<exists>x. c = CallPush x)))"
proof (cases c)
  case (CallPush x)
  show ?thesis
  proof (cases "int (length (current s)) < qr_maxSize s")
    case True
    then show ?thesis using CallPush contents_push [OF assms(1), of x] by (simp add: frame_def one_if_def)
  next
    case False
    obtain s1 where "evict_held None s = Inr s1" "contents b s1" "frame s s1" "qr_state s1 = qr_state s"
        "qr_stop s1 = qr_stop s" "qr_late s1 = qr_late s"
      using evict_held_ok [OF assms(1)] by blast
    then show ?thesis using CallPush False contents_push [of b s1 x] by (simp add: frame_def one_if_def)
  qed
next
  case CallPick
  have "contents b (log_result (Picked x) (s\<lparr>qr_lists := (qr_lists s)(qr_q s := xs)\<rparr>))" if "current s = x # xs" for x xs
    using assms(1) that by (simp add: contents_def log_result_def)
  moreover have "contents b (log_result (Refused e) s)" for e
    using assms(1) by (simp add: contents_def log_result_def)
  ultimately show ?thesis
    using CallPick by (cases "current s") (auto simp: frame_def one_if_def log_result_def)
next
  case CallTick
  then show ?thesis using evict_held_ok [OF assms(1), of p] by (auto simp: one_if_def)
next
  case CallReset
  moreover have "subseq (picked (qr_log s)) (accepted (qr_log s))"
    using subseq_order.order_trans [of "picked (qr_log s)" "picked (qr_log s) @ current s"] assms(1)
    by (auto simp: contents_def)
  ultimately show ?thesis using assms(1,2) by (auto simp: contents_def log_result_def frame_def one_if_def)
qed (use assms in \<open>auto simp: contents_def log_result_def frame_def one_if_def\<close>)

lemma enter_step_ok:
  assumes "contents b s" "enter_step c s = (next, s')"
  shows "contents b s' \<and> frame s s' \<and> qr_stop s' = qr_stop s \<and> qr_late s' = qr_late s \<and>
    qr_state s' = (if c = CallClose \<and> qr_state s = 0 then 1 else qr_state s) \<and>
    (next = None \<or> (\<exists>p. next = Some (QLock p))) \<and>
    (c = CallClose \<longrightarrow> (next = None \<longleftrightarrow> qr_state s \<noteq> 0)) \<and>
    (c = CallPick \<or> (\<exists>x. c = CallPush x) \<longrightarrow> (next = None \<longleftrightarrow> qr_state s = 1))"
  using assms by (cases c) (auto simp: contents_def frame_def log_result_def split: if_splits)

text \<open>The six kinds of steps.\<close>

lemma fire_queueE:
  assumes "fire_queue l s = Some (Inr s')"
  obtains
    (enter) i c cs pc s1 where "i < length (qr_threads s)" "qr_threads s ! i = (QStart, c # cs)"
      "enter_step c s = (Some pc, s1)" "s' = goto i pc (c # cs) s1"
  | (refuse) i c cs s1 where "i < length (qr_threads s)" "qr_threads s ! i = (QStart, c # cs)"
      "enter_step c s = (None, s1)" "s' = goto i QStart cs s1"
  | (lock) i p c cs where "i < length (qr_threads s)" "qr_threads s ! i = (QLock p, c # cs)"
      "qr_mu s = None" "s' = goto i (QBody p) (c # cs) (s\<lparr>qr_mu := Some i\<rparr>)"
  | (held) i p c cs s1 where "i < length (qr_threads s)" "qr_threads s ! i = (QBody p, c # cs)"
      "held_step c p s = Inr s1" "s' = goto i QUnlock (c # cs) s1"
  | (unlock) i c cs where "i < length (qr_threads s)" "qr_threads s ! i = (QUnlock, c # cs)"
      "s' = goto i QStart cs (s\<lparr>qr_mu := None\<rparr>)"
  | (quit) i cs where "i < length (qr_threads s)" "qr_threads s ! i = (QStart, CallTick # cs)"
      "qr_stop s" "s' = goto i QStart [] s"
proof (cases l)
  case (Run i)
  obtain pc cs where t: "qr_threads s ! i = (pc, cs)" by fastforce
  then show ?thesis
    using assms Run that(1-5)
    by (cases cs; cases pc) (auto split: if_splits prod.splits option.splits sum.splits)
next
  case (Quit i)
  then show ?thesis
    using assms that(6) by (auto split: if_splits prod.splits list.splits queue_pc.splits queue_call.splits)
qed

lemma fire_queue_panicE:
  assumes "fire_queue l s = Some (Inl e)"
  obtains i p c cs where "i < length (qr_threads s)" "qr_threads s ! i = (QBody p, c # cs)" "held_step c p s = Inl e"
proof (cases l)
  case (Run i)
  obtain pc cs where t: "qr_threads s ! i = (pc, cs)" by fastforce
  then show ?thesis
    using assms Run that
    by (cases cs; cases pc) (auto split: if_splits prod.splits option.splits sum.splits)
next
  case (Quit i)
  then show ?thesis
    using assms by (auto split: if_splits prod.splits list.splits queue_pc.splits queue_call.splits)
qed

section \<open>The invariant\<close>

fun holds :: "queue_pc \<times> 'p queue_call list \<Rightarrow> bool" where
  "holds (QBody p, cs) = True"
| "holds (QUnlock, cs) = True"
| "holds (pc, cs) = False"

text \<open>Between the compare-and-swap of \<open>Close\<close> and closing the channel.\<close>

fun about_to_close :: "queue_pc \<times> 'p queue_call list \<Rightarrow> bool" where
  "about_to_close (QLock p, CallClose # cs) = True"
| "about_to_close (QBody p, CallClose # cs) = True"
| "about_to_close t = False"

text \<open>Between the check of the state and the end of the critical section of \<open>Push\<close> and \<open>Pick\<close>.\<close>

fun past_check :: "queue_pc \<times> 'p queue_call list \<Rightarrow> bool" where
  "past_check (QLock p, CallPush x # cs) = True"
| "past_check (QBody p, CallPush x # cs) = True"
| "past_check (QLock p, CallPick # cs) = True"
| "past_check (QBody p, CallPick # cs) = True"
| "past_check t = False"

definition queue_inv :: "bool \<Rightarrow> 'p queue_race \<Rightarrow> bool" where
  "queue_inv b s \<longleftrightarrow>
     contents b s \<and> (\<forall>t \<in> set (qr_threads s). \<forall>c \<in> set (snd t). good_call b c) \<and>
     (\<forall>i < length (qr_threads s). holds (qr_threads s ! i) \<longleftrightarrow> qr_mu s = Some i) \<and>
     (\<forall>i. qr_mu s = Some i \<longrightarrow> i < length (qr_threads s)) \<and>
     (\<forall>t \<in> set (qr_threads s). fst t \<noteq> QStart \<longrightarrow> snd t \<noteq> []) \<and>
     0 \<le> qr_state s \<and> qr_state s \<le> 1 \<and>
     int (length (filter about_to_close (qr_threads s)) + one_if (qr_stop s)) = qr_state s \<and>
     (qr_state s = 0 \<longrightarrow> qr_late s = 0) \<and>
     qr_late s + length (filter past_check (qr_threads s)) \<le> length (qr_threads s)"

lemma queue_inv_goto:
  assumes inv: "queue_inv b s" and i: "i < length (qr_threads s)" "qr_threads s ! i = t"
    and same: "qr_threads s1 = qr_threads s" "contents b s1"
    and calls: "\<forall>c \<in> set cs. good_call b c" "pc = QStart \<or> cs \<noteq> []"
    and mu: "qr_mu s1 = (if holds (pc, cs) then Some i else if holds t then None else qr_mu s)"
      "holds (pc, cs) \<and> \<not> holds t \<longrightarrow> qr_mu s = None"
    and st: "0 \<le> qr_state s1" "qr_state s1 \<le> 1"
      "qr_state s1 + int (one_if (about_to_close t) + one_if (qr_stop s)) =
        qr_state s + int (one_if (about_to_close (pc, cs)) + one_if (qr_stop s1))"
    and late: "qr_state s1 = 0 \<longrightarrow> qr_late s1 = 0"
      "qr_late s1 + one_if (past_check (pc, cs)) \<le> qr_late s + one_if (past_check t) \<or> qr_late s1 = 0"
  shows "queue_inv b (goto i pc cs s1)"
proof -
  let ?ts = "qr_threads s" and ?t = "(pc, cs)"
  let ?ts' = "?ts[i := ?t]"
  have fields: "qr_threads (goto i pc cs s1) = ?ts'" "contents b (goto i pc cs s1)"
    using same by (simp_all add: goto_def contents_def)
  have count: "length (filter P ?ts') + one_if (P t) = length (filter P ?ts) + one_if (P ?t)" for P
    using filter_update [OF i(1), of P ?t] i(2) by simp
  have "\<forall>t \<in> set ?ts'. \<forall>c \<in> set (snd t). good_call b c" "\<forall>t \<in> set ?ts'. fst t \<noteq> QStart \<longrightarrow> snd t \<noteq> []"
    using inv calls by (auto simp: queue_inv_def dest: set_update_subset_insert [THEN subsetD])
  moreover have "holds (?ts' ! j) \<longleftrightarrow> qr_mu s1 = Some j" if "j < length ?ts" for j
  proof (cases "j = i")
    case True
    have "holds t \<longleftrightarrow> qr_mu s = Some i" using inv i by (auto simp: queue_inv_def)
    then show ?thesis using True i mu by auto
  next
    case False
    have "holds (?ts ! j) \<longleftrightarrow> qr_mu s = Some j" "holds t \<longleftrightarrow> qr_mu s = Some i"
      using inv i that by (auto simp: queue_inv_def)
    then show ?thesis using False mu by (auto split: if_splits)
  qed
  moreover have "\<forall>j. qr_mu s1 = Some j \<longrightarrow> j < length ?ts'"
    using inv i mu by (auto simp: queue_inv_def split: if_splits)
  moreover have "int (length (filter about_to_close ?ts') + one_if (qr_stop s1)) = qr_state s1"
    using count [of about_to_close] st(3) inv by (simp add: queue_inv_def)
  moreover have "qr_late s1 + length (filter past_check ?ts') \<le> length ?ts'"
    using late(2)
  proof
    assume "qr_late s1 = 0"
    then show ?thesis using length_filter_le [of past_check ?ts'] by simp
  next
    assume "qr_late s1 + one_if (past_check ?t) \<le> qr_late s + one_if (past_check t)"
    then show ?thesis using count [of past_check] inv by (simp add: queue_inv_def)
  qed
  ultimately show ?thesis
    using fields st late(1) by (simp add: queue_inv_def goto_def)
qed

lemma queue_invD:
  assumes "queue_inv b s" "i < length (qr_threads s)" "qr_threads s ! i = (pc, c # cs)"
  shows "contents b s \<and> good_call b c \<and> (\<forall>c \<in> set cs. good_call b c) \<and> 0 \<le> qr_state s \<and> qr_state s \<le> 1 \<and>
    (qr_state s = 0 \<longrightarrow> qr_late s = 0 \<and> \<not> qr_stop s) \<and> (about_to_close (pc, c # cs) \<longrightarrow> \<not> qr_stop s \<and> qr_state s = 1)"
proof -
  have t: "(pc, c # cs) \<in> set (qr_threads s)" using assms(2,3) by (metis nth_mem)
  let ?n = "int (length (filter about_to_close (qr_threads s)))"
  have n: "1 \<le> ?n" if "about_to_close (pc, c # cs)"
  proof -
    have "filter about_to_close (qr_threads s) \<noteq> []" using t that by (auto simp: filter_empty_conv)
    then show ?thesis by (cases "filter about_to_close (qr_threads s)") simp_all
  qed
  have st: "?n + int (one_if (qr_stop s)) = qr_state s" "qr_state s \<le> 1" using assms(1) by (simp_all add: queue_inv_def)
  then have "\<not> qr_stop s \<and> qr_state s = 1" if "about_to_close (pc, c # cs)"
    using n [OF that] by (auto simp: one_if_def split: if_splits)
  moreover have "\<not> qr_stop s" if "qr_state s = 0" using st that by (auto simp: one_if_def split: if_splits)
  ultimately show ?thesis using assms(1) t unfolding queue_inv_def by auto
qed

lemma queue_step_inv:
  assumes "queue_inv b s" "fire_queue l s = Some (Inr s')"
  shows "queue_inv b s'"
  using assms(2)
proof (cases rule: fire_queueE)
  case (enter i c cs pc s1)
  note k = queue_invD [OF assms(1) enter(1,2)]
  have e: "contents b s" using k by blast
  note e = enter_step_ok [OF e enter(3)]
  then obtain p where p: "pc = QLock p" by auto
  show ?thesis
    unfolding enter(4)
    by (rule queue_inv_goto [OF assms(1) enter(1,2)])
      (use e k p in \<open>cases c; auto simp: frame_def one_if_def\<close>)+
next
  case (refuse i c cs s1)
  note k = queue_invD [OF assms(1) refuse(1,2)]
  have e: "contents b s" using k by blast
  note e = enter_step_ok [OF e refuse(3)]
  show ?thesis
    unfolding refuse(4)
    by (rule queue_inv_goto [OF assms(1) refuse(1,2)]) (use e k in \<open>auto simp: frame_def one_if_def\<close>)
next
  case (lock i p c cs)
  note k = queue_invD [OF assms(1) lock(1,2)]
  show ?thesis
    unfolding lock(4)
    by (rule queue_inv_goto [OF assms(1) lock(1,2)])
      (use k lock in \<open>cases c; auto simp: contents_def one_if_def\<close>)+
next
  case (held i p c cs s1)
  note k = queue_invD [OF assms(1) held(1,2)]
  have "c = CallClose \<longrightarrow> \<not> qr_stop s" using k by auto
  with k held_step_ok [of b s c p] held(3) have h: "contents b s1" "frame s s1" "qr_state s1 = qr_state s"
    "qr_stop s1 = (qr_stop s \<or> c = CallClose)" "qr_late s \<le> qr_late s1"
    "qr_late s1 \<le> qr_late s + one_if (qr_state s = 1 \<and> (c = CallPick \<or> (\<exists>x. c = CallPush x)))"
    by auto
  have st: "one_if (about_to_close (QBody p, c # cs)) + one_if (qr_stop s) = one_if (qr_stop s1)"
    using k h(4) by (cases c) (simp_all add: one_if_def)
  have late: "qr_late s1 \<le> qr_late s + one_if (past_check (QBody p, c # cs))"
    using h(6) by (cases c) (simp_all add: one_if_def split: if_splits)
  have mu: "qr_mu s = Some i" using assms(1) held(1,2) by (auto simp: queue_inv_def dest!: spec [of _ i])
  have zero: "qr_state s = 0 \<longrightarrow> qr_late s1 = 0" using k h(6) by (auto simp: one_if_def)
  show ?thesis
    unfolding held(4)
    by (rule queue_inv_goto [OF assms(1) held(1,2)])
      (use k h(1-3) st late zero mu in \<open>simp_all add: frame_def one_if_def [of False]\<close>)
next
  case (unlock i c cs)
  note k = queue_invD [OF assms(1) unlock(1,2)]
  show ?thesis
    unfolding unlock(3)
    by (rule queue_inv_goto [OF assms(1) unlock(1,2)])
      (use k in \<open>auto simp: contents_def one_if_def\<close>)
next
  case (quit i cs)
  note k = queue_invD [OF assms(1) quit(1,2)]
  show ?thesis
    unfolding quit(4)
    by (rule queue_inv_goto [OF assms(1) quit(1,2)]) (use k in \<open>auto simp: one_if_def\<close>)
qed

lemma queue_step_safe:
  assumes "queue_inv b s"
  shows "fire_queue l s \<noteq> Some (Inl e)"
proof
  assume "fire_queue l s = Some (Inl e)"
  then obtain i p c cs where t: "i < length (qr_threads s)" "qr_threads s ! i = (QBody p, c # cs)" "held_step c p s = Inl e"
    by (rule fire_queue_panicE)
  note k = queue_invD [OF assms t(1,2)]
  then have "c = CallClose \<longrightarrow> \<not> qr_stop s" by auto
  with k held_step_ok [of b s c p] t(3) show False by auto
qed

section \<open>All calls return\<close>

fun steps_made :: "queue_pc \<Rightarrow> nat" where
  "steps_made QStart = 0"
| "steps_made (QLock p) = 1"
| "steps_made (QBody p) = 2"
| "steps_made QUnlock = 3"

definition calls_left :: "'p queue_race \<Rightarrow> nat" where
  "calls_left s = (\<Sum>(pc, cs) \<leftarrow> qr_threads s. 4 * length cs - steps_made pc)"

lemma queue_rank_down:
  assumes "queue_inv b s" "fire_queue l s = Some (Inr s')"
  shows "calls_left s' < calls_left s"
proof -
  let ?f = "\<lambda>(pc, cs :: 'a queue_call list). 4 * length cs - steps_made pc"
  have change: "calls_left (goto i pc cs s1) + ?f (qr_threads s ! i) = calls_left s + ?f (pc, cs)"
    if "i < length (qr_threads s)" "qr_threads s1 = qr_threads s" for i pc cs s1
    using sum_list_change [of i "map ?f (qr_threads s)" "?f (pc, cs)"] that
    by (simp add: calls_left_def goto_def map_update)
  show ?thesis
    using assms(2)
  proof (cases rule: fire_queueE)
    case (enter i c cs pc s1)
    have "contents b s" using queue_invD [OF assms(1) enter(1,2)] by blast
    from change [of i s1 pc "c # cs"] enter enter_step_ok [OF this enter(3)] show ?thesis by (auto simp: frame_def)
  next
    case (refuse i c cs s1)
    have "contents b s" using queue_invD [OF assms(1) refuse(1,2)] by blast
    from change [of i s1 QStart cs] refuse enter_step_ok [OF this refuse(3)] show ?thesis by (auto simp: frame_def)
  next
    case (lock i p c cs)
    from change [of i "s\<lparr>qr_mu := Some i\<rparr>" "QBody p" "c # cs"] lock show ?thesis by auto
  next
    case (held i p c cs s1)
    note k = queue_invD [OF assms(1) held(1,2)]
    then have "c = CallClose \<longrightarrow> \<not> qr_stop s" by auto
    with k held_step_ok [of b s c p] held(3) have "frame s s1" by auto
    with change [of i s1 QUnlock "c # cs"] held show ?thesis by (auto simp: frame_def)
  next
    case (unlock i c cs)
    from change [of i "s\<lparr>qr_mu := None\<rparr>" QStart cs] unlock show ?thesis by auto
  next
    case (quit i cs)
    from change [of i s QStart "[]"] quit show ?thesis by auto
  qed
qed

text \<open>Whoever holds the lock can go on, and when nobody holds it every goroutine can.\<close>

lemma queue_progress:
  assumes "queue_inv b s" "i < length (qr_threads s)" "snd (qr_threads s ! i) \<noteq> []"
  shows "\<exists>j. fire_queue (Run j) s \<noteq> None"
proof (cases "qr_mu s")
  case None
  obtain pc c cs where "qr_threads s ! i = (pc, c # cs)" using assms(3) by (metis list.exhaust prod.collapse)
  then have "fire_queue (Run i) s \<noteq> None"
    using assms(2) None by (cases pc) (auto split: prod.splits option.splits sum.splits)
  then show ?thesis by blast
next
  case (Some j)
  then have j: "j < length (qr_threads s)" "holds (qr_threads s ! j)" using assms(1) by (auto simp: queue_inv_def)
  then have "snd (qr_threads s ! j) \<noteq> []"
    using assms(1) nth_mem [OF j(1)] by (cases "qr_threads s ! j") (force simp: queue_inv_def)
  then obtain pc c cs where "qr_threads s ! j = (pc, c # cs)" by (metis list.exhaust prod.collapse)
  then have "fire_queue (Run j) s \<noteq> None"
    using j by (cases pc) (auto split: sum.splits)
  then show ?thesis by blast
qed

interpretation queue_race: terminating_system fire_queue "queue_inv b" calls_left for b
  by unfold_locales (auto dest: queue_step_inv queue_step_safe queue_rank_down)

section \<open>A call that nobody disturbs\<close>

text \<open>A policy of \<open>Buffer_Queue\<close>, which works on the contents of the queue, over the store.\<close>

definition policy_at :: "nat \<Rightarrow> 'p evict_policy \<Rightarrow> 'p heap_policy" where
  "policy_at a ep =
     \<lparr>hp_state = ep_state ep,
      hp_ShouldEvict = (\<lambda>ctx ls st. ep_ShouldEvict ep (empty_context\<lparr>ec_Queue := map_option ls ctx\<rparr>) st),
      hp_Evict = (\<lambda>st ls. let (n, st1, xs) = ep_Evict ep st (ls a) in (n, st1, ls(a := xs)))\<rparr>"

lemma policy_at_simps [simp]:
  "hp_state (policy_at a ep) = ep_state ep" "(policy_at a ep)\<lparr>hp_state := st\<rparr> = policy_at a (ep\<lparr>ep_state := st\<rparr>)"
  by (simp_all add: policy_at_def)

definition stands_for :: "'p queue_race \<Rightarrow> 'p buffer_queue \<Rightarrow> bool" where
  "stands_for s q \<longleftrightarrow>
     current s = bq_q q \<and> qr_ep s = map_option (policy_at (qr_q s)) (bq_ep q) \<and> qr_evictCount s = bq_evictCount q \<and>
     qr_maxSize s = bq_maxSize q \<and> qr_state s = bq_state q \<and> qr_stop s = bq_stop q"

fun whole_call :: "'p queue_call \<Rightarrow> 'p buffer_queue \<Rightarrow> 'p buffer_queue go" where
  "whole_call (CallPush x) q = map_sum id snd (bq_Push x q)"
| "whole_call CallPick q = Inr (snd (bq_Pick q))"
| "whole_call CallTick q = evict_if (empty_context\<lparr>ec_Queue := Some (bq_q q)\<rparr>) q"
| "whole_call CallClose q = bq_Close q"
| "whole_call c q = Inr q"

lemma evict_held_alone:
  assumes "stands_for s q" "ctx = None \<or> ctx = Some (qr_q s)"
  shows "case evict_if (empty_context\<lparr>ec_Queue := map_option (qr_lists s) ctx\<rparr>) q of
      Inl e \<Rightarrow> evict_held ctx s = Inl e
    | Inr q' \<Rightarrow> \<exists>s'. evict_held ctx s = Inr s' \<and> stands_for s' q' \<and> frame s s' \<and> qr_q s' = qr_q s"
proof (cases "bq_ep q")
  case None
  then show ?thesis using assms(1) by (simp add: stands_for_def evict_if_def evict_held_def)
next
  case (Some ep)
  let ?ctx = "empty_context\<lparr>ec_Queue := map_option (qr_lists s) ctx\<rparr>"
  obtain sh st where sh: "ep_ShouldEvict ep ?ctx (ep_state ep) = (sh, st)" by fastforce
  obtain n st1 xs where ev: "ep_Evict ep st (bq_q q) = (n, st1, xs)" by (metis prod_cases3)
  have p: "hp_ShouldEvict (policy_at (qr_q s) ep) ctx (qr_lists s) (ep_state ep) = (sh, st)"
    "hp_Evict (policy_at (qr_q s) ep) st (qr_lists s) = (n, st1, (qr_lists s)(qr_q s := xs))"
    using sh ev assms(1) by (simp_all add: policy_at_def stands_for_def)
  show ?thesis
    using assms(1) Some sh ev p by (cases sh) (simp_all add: stands_for_def evict_if_def evict_held_def frame_def)
qed

fun whole_in_Buffer_Queue :: "'p queue_call \<Rightarrow> bool" where
  "whole_in_Buffer_Queue (CallSet ep) = False"
| "whole_in_Buffer_Queue CallReset = False"
| "whole_in_Buffer_Queue c = True"

lemma stands_for_push: "stands_for s q \<Longrightarrow> stands_for (push_back x s) (q\<lparr>bq_q := bq_q q @ [x]\<rparr>)"
  by (simp add: stands_for_def push_back_def log_result_def)

lemma held_step_alone:
  assumes "stands_for s q" "whole_in_Buffer_Queue c" "enter_step c s = (Some pc, s0)"
  shows "\<exists>p. pc = QLock p \<and> frame s s0 \<and>
    (case whole_call c q of
       Inl e \<Rightarrow> held_step c p s0 = Inl e
     | Inr q' \<Rightarrow> \<exists>s'. held_step c p s0 = Inr s' \<and> stands_for s' q' \<and> frame s s')"
proof (cases c)
  case (CallPush x)
  then have e: "pc = QLock None" "s0 = s" "bq_state q \<noteq> 1" using assms(1,3) by (auto simp: stands_for_def split: if_splits)
  have len: "bq_len q = int (length (current s))" "bq_maxSize q = qr_maxSize s"
    using assms(1) by (simp_all add: bq_len_def stands_for_def)
  show ?thesis
  proof (cases "bq_len q < bq_maxSize q")
    case True
    then show ?thesis using CallPush e len stands_for_push [OF assms(1), of x] by (simp add: bq_Push_def frame_def)
  next
    case False
    note k = evict_held_alone [OF assms(1), of None]
    have ctx: "empty_context\<lparr>ec_Queue := None\<rparr> = empty_context" by (simp add: empty_context_def)
    show ?thesis
    proof (cases "evict_if empty_context q")
      case (Inl e1)
      then show ?thesis using CallPush e len False k by (simp add: bq_Push_def frame_def ctx)
    next
      case (Inr q1)
      with k obtain s1 where s1: "evict_held None s = Inr s1" "stands_for s1 q1" "frame s s1" by (auto simp: ctx)
      then show ?thesis
        using CallPush e len False Inr stands_for_push [OF s1(2), of x] by (simp add: bq_Push_def frame_def)
    qed
  qed
next
  case CallPick
  then show ?thesis
    using assms by (cases "bq_q q") (auto simp: stands_for_def bq_Pick_def log_result_def frame_def split: if_splits)
next
  case CallTick
  then show ?thesis
    using assms evict_held_alone [OF assms(1), of "Some (qr_q s)"]
    by (auto simp: stands_for_def frame_def split: sum.splits)
next
  case CallClose
  then show ?thesis
    using assms by (auto simp: stands_for_def bq_Close_def log_result_def frame_def split: if_splits)
qed (use assms(2) in simp_all)

lemma refused_alone:
  assumes "stands_for s q" "whole_in_Buffer_Queue c" "enter_step c s = (None, s0)"
  shows "\<exists>q'. whole_call c q = Inr q' \<and> stands_for s0 q' \<and> frame s s0"
  using assms by (cases c) (auto simp: stands_for_def bq_Push_def bq_Pick_def bq_Close_def log_result_def frame_def
      split: if_splits)

lemma evict_held_frame:
  "evict_held p (s\<lparr>qr_threads := ts, qr_mu := m\<rparr>) = map_sum id (\<lambda>s'. s'\<lparr>qr_threads := ts, qr_mu := m\<rparr>) (evict_held p s)"
  by (auto simp: evict_held_def split: option.splits prod.splits)

lemma held_step_frame:
  "held_step c p (s\<lparr>qr_threads := ts, qr_mu := m\<rparr>) =
   map_sum id (\<lambda>s'. s'\<lparr>qr_threads := ts, qr_mu := m\<rparr>) (held_step c p s)"
  by (cases c) (auto simp: evict_held_frame push_back_def log_result_def split: sum.splits list.splits)

text \<open>
  A call that nobody disturbs takes one step, if it is turned away at the check, or four, and does what the method
  does as one step in \<open>Buffer_Queue\<close>; if it panics, so does the method.
\<close>

theorem undisturbed_call:
  assumes "stands_for s q" "qr_mu s = None" "i < length (qr_threads s)" "qr_threads s ! i = (QStart, c # cs)"
    and "whole_in_Buffer_Queue c"
  shows "case whole_call c q of
      Inl e \<Rightarrow> run_labels fire_queue (replicate 3 (Run i)) s = Some (Inl e)
    | Inr q' \<Rightarrow> \<exists>k s'. k \<le> 4 \<and> run_labels fire_queue (replicate k (Run i)) s = Some (Inr s') \<and> stands_for s' q' \<and>
        qr_mu s' = None \<and> qr_threads s' = (qr_threads s)[i := (QStart, cs)]"
proof (cases "enter_step c s")
  case (Pair "next" s0)
  show ?thesis
  proof (cases "next")
    case None
    then obtain q' where q': "whole_call c q = Inr q'" "stands_for s0 q'" "frame s s0"
      using refused_alone [OF assms(1,5)] Pair by blast
    let ?s = "goto i QStart cs s0"
    have "run_labels fire_queue (replicate 1 (Run i)) s = Some (Inr ?s)" using assms(3,4) Pair None by simp
    moreover have "stands_for ?s q'" "qr_mu ?s = None" "qr_threads ?s = (qr_threads s)[i := (QStart, cs)]"
      using q' assms(2) by (simp_all add: goto_def frame_def stands_for_def)
    ultimately show ?thesis unfolding q'(1) sum.case using one_le_numeral by blast
  next
    case (Some pc)
    then obtain p where p: "pc = QLock p" "frame s s0" and
      h: "case whole_call c q of
         Inl e \<Rightarrow> held_step c p s0 = Inl e
       | Inr q' \<Rightarrow> \<exists>s'. held_step c p s0 = Inr s' \<and> stands_for s' q' \<and> frame s s'"
      using held_step_alone [OF assms(1,5)] Pair by blast
    let ?ts = "qr_threads s"
    let ?s1 = "s0\<lparr>qr_threads := ?ts[i := (QBody p, c # cs)], qr_mu := Some i\<rparr>"
    have "fire_queue (Run i) s = Some (Inr (goto i (QLock p) (c # cs) s0))" using assms(3,4) Pair Some p by simp
    moreover have "fire_queue (Run i) (goto i (QLock p) (c # cs) s0) = Some (Inr ?s1)"
      using assms(2,3) p(2) by (simp add: goto_def frame_def)
    moreover have "fire_queue (Run i) ?s1 =
        (case held_step c p ?s1 of Inl e \<Rightarrow> Some (Inl e) | Inr s' \<Rightarrow> Some (Inr (goto i QUnlock (c # cs) s')))"
      using assms(3) by simp
    ultimately have run: "run_labels fire_queue (Run i # Run i # Run i # ls) s =
        (case held_step c p ?s1 of Inl e \<Rightarrow> Some (Inl e)
         | Inr s' \<Rightarrow> run_labels fire_queue ls (goto i QUnlock (c # cs) s'))" for ls
      by (simp del: fire_queue.simps split: sum.splits)
    show ?thesis
    proof (cases "whole_call c q")
      case (Inl e)
      then show ?thesis using h run [of "[]"] by (simp add: held_step_frame numeral_3_eq_3)
    next
      case (Inr q')
      with h obtain s2 where s2: "held_step c p s0 = Inr s2" "stands_for s2 q'" by auto
      let ?s3 = "s2\<lparr>qr_threads := ?ts[i := (QStart, cs)], qr_mu := None\<rparr>"
      have "run_labels fire_queue (replicate 4 (Run i)) s = Some (Inr ?s3)"
        using run [of "[Run i]"] s2(1) assms(3) by (simp add: held_step_frame goto_def numeral_eq_Suc)
      moreover have "stands_for ?s3 q'" using s2(2) by (simp add: stands_for_def)
      ultimately show ?thesis using Inr by (auto intro!: exI [of _ "4 :: nat"])
    qed
  qed
qed

text \<open>A policy that never evicts.\<close>

definition never_evict_held :: "unit heap_policy" where
  "never_evict_held = \<lparr>hp_state = (), hp_ShouldEvict = (\<lambda>ctx ls st. (False, st)), hp_Evict = (\<lambda>st ls. (0, st, ls))\<rparr>"

text \<open>A policy that keeps the pointer it was handed last and drops the oldest item of that list.\<close>

definition evict_kept :: "nat option heap_policy" where
  "evict_kept =
     \<lparr>hp_state = None, hp_ShouldEvict = (\<lambda>ctx ls st. (ctx \<noteq> None, if ctx = None then st else ctx)),
      hp_Evict = (\<lambda>st ls. case st of None \<Rightarrow> (0, st, ls) | Some a \<Rightarrow> (int (length (take 1 (ls a))), st, ls(a := drop 1 (ls a))))\<rparr>"

lemma sample_policies: "good_policy b (Some never_evict_held)" "good_policy False (Some evict_kept)"
  by (auto simp: good_policy_def never_evict_held_def evict_kept_def suffix_imp_subseq suffix_drop split: option.splits)

lemma queue_start_inv:
  assumes "good_policy b ep" "\<forall>c \<in> set (concat css). good_call b c"
  shows "queue_inv b (queue_start ep maxSize auto n css)"
proof -
  let ?s = "queue_start ep maxSize auto n css"
  have start: "fst t = QStart \<and> (\<forall>c \<in> set (snd t). good_call b c)" if "t \<in> set (qr_threads ?s)" for t
    using assms(2) that by (auto simp: queue_start_def split: if_splits)
  have quiet: "\<not> holds t \<and> \<not> about_to_close t \<and> \<not> past_check t" if "fst t = QStart" for t :: "queue_pc \<times> 'a queue_call list"
    using that by (cases t) simp
  then have "\<not> holds t" "\<not> about_to_close t" "\<not> past_check t" if "t \<in> set (qr_threads ?s)" for t
    using start that by blast+
  then have "filter about_to_close (qr_threads ?s) = []" "filter past_check (qr_threads ?s) = []"
    "\<forall>i < length (qr_threads ?s). \<not> holds (qr_threads ?s ! i)" by (auto simp: filter_empty_conv)
  moreover have "contents b ?s" "qr_mu ?s = None" "qr_state ?s = 0" "\<not> qr_stop ?s" "qr_late ?s = 0"
    using assms(1) by (simp_all add: contents_def queue_start_def)
  ultimately show ?thesis using start by (simp add: queue_inv_def one_if_def)
qed

lemma queue_start_calls:
  "calls_left (queue_start ep maxSize auto n css) = 4 * ((if auto then n else 0) + length (concat css))"
proof -
  have "(\<Sum>cs \<leftarrow> css. 4 * length cs) = 4 * length (concat css)" by (induction css) simp_all
  then show ?thesis by (simp add: calls_left_def queue_start_def comp_def)
qed

lemma threads_constant: "exec fire_queue ls s s' \<Longrightarrow> queue_inv b s \<Longrightarrow> length (qr_threads s') = length (qr_threads s)"
proof (induction rule: exec.induct)
  case (exec_done s)
  then show ?case by simp
next
  case (exec_step ls s s1 l s2)
  have inv: "queue_inv b s1" by (rule queue_race.always_inv [OF exec_step.hyps(1) exec_step.prems])
  have "length (qr_threads s2) = length (qr_threads s1)"
    using exec_step.hyps(2)
  proof (cases rule: fire_queueE)
    case (enter i c cs pc s0)
    have "contents b s1" using queue_invD [OF inv enter(1,2)] by blast
    from enter_step_ok [OF this enter(3)] show ?thesis by (simp add: enter(4) goto_def frame_def)
  next
    case (refuse i c cs s0)
    have "contents b s1" using queue_invD [OF inv refuse(1,2)] by blast
    from enter_step_ok [OF this refuse(3)] show ?thesis by (simp add: refuse(4) goto_def frame_def)
  next
    case (held i p c cs s0)
    note k = queue_invD [OF inv held(1,2)]
    then have "c = CallClose \<longrightarrow> \<not> qr_stop s1" by auto
    with k held_step_ok [of b s1 c p] held(3) show ?thesis by (auto simp: held(4) goto_def frame_def)
  qed (simp_all add: goto_def)
  then show ?case using exec_step by simp
qed

section \<open>Properties\<close>

text \<open>Sample runs of a queue for one item with one tick of the automatic eviction.\<close>

definition queue_run_labels :: "'p heap_policy option \<Rightarrow> 'p queue_call list list \<Rightarrow> nat list \<Rightarrow> 'p queue_race option" where
  "queue_run_labels ep css ls =
     (case run_labels fire_queue (map Run ls) (queue_start ep 1 True 1 css) of Some (Inr s) \<Rightarrow> Some s | _ \<Rightarrow> None)"

lemma queue_run_exec:
  "queue_run_labels ep css ls = Some s \<Longrightarrow> exec fire_queue (map Run ls) (queue_start ep 1 True 1 css) s"
  by (auto simp: queue_run_labels_def intro: run_labels_exec split: option.splits sum.splits)



text \<open>
  C28: all calls on the shared queue return. In every interleaving each call takes at most four steps, \<open>autoEvict\<close>
  included, and as long as a goroutine has calls left some goroutine can go on: the lock is always given back.
\<close>

theorem shared_queue_calls_return:
  assumes "good_policy b ep" "\<forall>c \<in> set (concat css). good_call b c"
    and "exec fire_queue ls (queue_start ep maxSize auto n css) s"
  shows "length ls \<le> 4 * ((if auto then n else 0) + length (concat css)) \<and>
    ((\<exists>t \<in> set (qr_threads s). snd t \<noteq> []) \<longrightarrow> (\<exists>i s'. fire_queue (Run i) s = Some (Inr s')))"
proof -
  have start: "queue_inv b (queue_start ep maxSize auto n css)" by (rule queue_start_inv [OF assms(1,2)])
  have "length ls + calls_left s \<le> calls_left (queue_start ep maxSize auto n css)"
    by (rule queue_race.exec_bounded [OF assms(3) start])
  moreover have "\<exists>i s'. fire_queue (Run i) s = Some (Inr s')" if left: "\<exists>t \<in> set (qr_threads s). snd t \<noteq> []"
  proof -
    have inv: "queue_inv b s" by (rule queue_race.always_inv [OF assms(3) start])
    obtain t where t: "t \<in> set (qr_threads s)" "snd t \<noteq> []" using left by blast
    then obtain j where "j < length (qr_threads s)" "qr_threads s ! j = t" by (auto simp: in_set_conv_nth)
    with t(2) obtain i where "fire_queue (Run i) s \<noteq> None" using queue_progress [OF inv, of j] by auto
    moreover have "fire_queue (Run i) s \<noteq> Some (Inl e)" for e by (rule queue_race.always_safe [OF assms(3) start])
    ultimately show ?thesis by (metis not_None_eq old.sum.exhaust)
  qed
  ultimately show ?thesis by (simp add: queue_start_calls)
qed

theorem shared_queue_calls_return_witness:
  "\<exists>s. queue_run_labels (Some never_evict_held) [[CallPush (sample_item 1)], [CallClose]] [1, 2, 2] = Some s \<and>
     (\<exists>i s'. fire_queue (Run i) s = Some (Inr s'))"
proof -
  let ?css = "[[CallPush (sample_item 1)], [CallClose]]"
  have "map_option (\<lambda>s. map (length \<circ> snd) (qr_threads s)) (queue_run_labels (Some never_evict_held) ?css [1, 2, 2]) =
      Some [1, 1, 1]" by code_simp
  then obtain s where s: "queue_run_labels (Some never_evict_held) ?css [1, 2, 2] = Some s"
      "map (length \<circ> snd) (qr_threads s) = [1, 1, 1]" by auto
  then have "\<exists>t \<in> set (qr_threads s). snd t \<noteq> []" by (cases "qr_threads s") auto
  then have "\<exists>i s'. fire_queue (Run i) s = Some (Inr s')"
    using shared_queue_calls_return [OF sample_policies(1) _ queue_run_exec [OF s(1)]] by simp
  with s show ?thesis by blast
qed

text \<open>
  A push that has passed the check when \<open>Close\<close> sets the state is accepted afterwards, and no \<open>Pick\<close> will ever return
  the item.
\<close>

theorem push_after_close:
  "\<exists>s. queue_run_labels (Some never_evict_held) [[CallPush (sample_item 1)], [CallClose], [CallPick]]
       [1, 2, 2, 2, 2, 1, 1, 1, 3] = Some s \<and>
     qr_log s = [Returned, Accepted (sample_item 1), Refused ErrQueueClosed] \<and> current s = [sample_item 1] \<and>
     qr_state s = 1 \<and> qr_stop s"
proof -
  have "map_option (\<lambda>s. (qr_log s, current s, qr_state s, qr_stop s))
      (queue_run_labels (Some never_evict_held) [[CallPush (sample_item 1)], [CallClose], [CallPick]]
        [1, 2, 2, 2, 2, 1, 1, 1, 3]) =
    Some ([Returned, Accepted (sample_item 1), Refused ErrQueueClosed], [sample_item 1], 1, True)" by code_simp
  then show ?thesis by auto
qed

text \<open>
  \<open>autoEvict\<close> reads the list before it takes the lock. If the queue is reset in between, the policy works on the
  abandoned list, and the eviction is counted for a queue from which nothing was evicted.
\<close>

theorem stale_eviction_counted:
  "\<exists>s. queue_run_labels (Some evict_kept) [[CallPush (sample_item 1), CallReset, CallPush (sample_item 2)]]
       [1, 1, 1, 1, 0, 1, 1, 1, 1, 1, 1, 1, 1, 0, 0, 0] = Some s \<and>
     current s = [sample_item 2] \<and> qr_evictCount s = 1 \<and> qr_lists s 0 = []"
proof -
  have "map_option (\<lambda>s. (current s, qr_evictCount s, qr_lists s 0))
      (queue_run_labels (Some evict_kept) [[CallPush (sample_item 1), CallReset, CallPush (sample_item 2)]]
        [1, 1, 1, 1, 0, 1, 1, 1, 1, 1, 1, 1, 1, 0, 0, 0]) = Some ([sample_item 2], 1, [])" by code_simp
  then show ?thesis by auto
qed

end
