(* ===== verification/Batch_Metrics.thy ===== *)
theory Batch_Metrics
  imports TS_Consts Float64
begin

text \<open>
  \<open>src/core/metrics\<close>: counters that the buffer updates one event at a time and that are reported in
  batches to a collector. \<open>Prometheus\<close> is the collector of the repository; the metric objects of the
  Prometheus client library are outside it, so a call on one of them is an element of a trace. Arguments
  of these calls are \<open>float64\<close> values.
\<close>

section \<open>Calls on the metric objects\<close>

datatype metric =
    writeCounter | writeSizes | writeErrors
  | readCounter | readSizes | readErrors
  | switchCounts | switchLatency | skipSwitchCounts
  | activeChannelDataCounts | activeChannelDataSizes
  | asyncWorkers | poolAlloc

datatype metric_call = Add metric f64 | SetTo metric f64 | Inc metric | Observe metric f64

record prometheus =
  pm_enabled :: bool

definition NewPrometheus :: prometheus where
  "NewPrometheus = \<lparr>pm_enabled = False\<rparr>"

definition CollectSwitcher :: "bool \<Rightarrow> prometheus \<Rightarrow> prometheus" where
  "CollectSwitcher enable p = p\<lparr>pm_enabled := enable\<rparr>"

definition ObserveWrite :: "f64 \<Rightarrow> f64 \<Rightarrow> f64 \<Rightarrow> prometheus \<Rightarrow> metric_call list" where
  "ObserveWrite counts bytes errors p =
     (if \<not> pm_enabled p then []
      else [Add writeCounter counts, Add writeSizes bytes, Add writeErrors errors])"

definition ObserveRead :: "f64 \<Rightarrow> f64 \<Rightarrow> f64 \<Rightarrow> prometheus \<Rightarrow> metric_call list" where
  "ObserveRead counts bytes errors p =
     (if \<not> pm_enabled p then []
      else [Add readCounter counts, Add readSizes bytes, Add readErrors errors])"

definition AllocInc :: "f64 \<Rightarrow> prometheus \<Rightarrow> metric_call list" where
  "AllocInc delta p = (if \<not> pm_enabled p then [] else [Add poolAlloc delta])"

definition ObserveAsyncGoroutine :: "int \<Rightarrow> f64 \<Rightarrow> prometheus \<Rightarrow> metric_call list" where
  "ObserveAsyncGoroutine operation counts p =
     (if \<not> pm_enabled p then []
      else if operation = MetricsIncOp then [Add asyncWorkers counts]
      else [Add asyncWorkers (f64_neg counts)])"

definition SwitchWithLatency :: "int \<Rightarrow> f64 \<Rightarrow> f64 \<Rightarrow> prometheus \<Rightarrow> metric_call list" where
  "SwitchWithLatency status counts millSeconds p =
     (if \<not> pm_enabled p then []
      else if status = SwitchSuccess then [Add switchCounts counts, Observe switchLatency millSeconds]
      else if status = SwitchFailure then []
      else if status = SwitchSkip then [Inc skipSwitchCounts]
      else [])"

definition ObserveActive :: "f64 \<Rightarrow> f64 \<Rightarrow> prometheus \<Rightarrow> metric_call list" where
  "ObserveActive counts size0 p =
     (if \<not> pm_enabled p then []
      else (if size0 = Fin 0 \<and> counts = Fin 0
            then [SetTo activeChannelDataCounts (Fin 0), SetTo activeChannelDataSizes (Fin 0)] else []) @
           [Add activeChannelDataCounts counts, Add activeChannelDataSizes size0])"

section \<open>The batch collector\<close>

record write_ind =
  wi_writeCounts :: int
  wi_writeSizes :: int
  wi_writeErrors :: int
  wi_activeChannelDataCounts :: int
  wi_activeChannelDataSizes :: int

record read_ind =
  ri_readCounts :: int
  ri_readSizes :: int
  ri_readErrors :: int

record supporting_ind =
  si_asyncWorkerIncCounts :: int
  si_asyncWorkerDecCounts :: int
  si_poolAlloc :: int
  si_switchCounts :: int
  si_switchLatency :: int
  si_skipSwitchCounts :: int

record 'c batch_collector =
  bc_w :: write_ind
  bc_r :: read_ind
  bc_sp :: supporting_ind
  bc_mc :: 'c
  bc_sem :: bool

definition Write_Reset :: "write_ind \<Rightarrow> write_ind" where
  "Write_Reset w =
     \<lparr>wi_writeCounts = 0, wi_writeSizes = 0, wi_writeErrors = 0, wi_activeChannelDataCounts = 0,
      wi_activeChannelDataSizes = 0\<rparr>"

definition Read_Reset :: "read_ind \<Rightarrow> read_ind" where
  "Read_Reset r = \<lparr>ri_readCounts = 0, ri_readSizes = 0, ri_readErrors = 0\<rparr>"

definition Supporting_Reset :: "supporting_ind \<Rightarrow> supporting_ind" where
  "Supporting_Reset s =
     \<lparr>si_asyncWorkerIncCounts = 0, si_asyncWorkerDecCounts = 0, si_poolAlloc = 0, si_switchCounts = 0,
      si_switchLatency = 0, si_skipSwitchCounts = 0\<rparr>"

definition NewBatchCollector :: "prometheus \<Rightarrow> prometheus batch_collector" where
  "NewBatchCollector mc =
     \<lparr>bc_w = \<lparr>wi_writeCounts = 0, wi_writeSizes = 0, wi_writeErrors = 0, wi_activeChannelDataCounts = 0,
              wi_activeChannelDataSizes = 0\<rparr>,
      bc_r = \<lparr>ri_readCounts = 0, ri_readSizes = 0, ri_readErrors = 0\<rparr>,
      bc_sp = \<lparr>si_asyncWorkerIncCounts = 0, si_asyncWorkerDecCounts = 0, si_poolAlloc = 0, si_switchCounts = 0,
               si_switchLatency = 0, si_skipSwitchCounts = 0\<rparr>,
      bc_mc = CollectSwitcher True mc, bc_sem = False\<rparr>"

definition RecordWrite :: "int \<Rightarrow> ts_error option \<Rightarrow> 'c batch_collector \<Rightarrow> 'c batch_collector" where
  "RecordWrite size0 err b =
     (let w = bc_w b
      in if err \<noteq> None then b\<lparr>bc_w := w\<lparr>wi_writeErrors := wrap64 (wi_writeErrors w + 1)\<rparr>\<rparr>
         else b\<lparr>bc_w := w\<lparr>wi_writeCounts := wrap64 (wi_writeCounts w + 1),
                         wi_writeSizes := wrap64 (wi_writeSizes w + size0),
                         wi_activeChannelDataCounts := wrap64 (wi_activeChannelDataCounts w + 1),
                         wi_activeChannelDataSizes := wrap64 (wi_activeChannelDataSizes w + size0)\<rparr>\<rparr>)"

definition RecordRead :: "int \<Rightarrow> int \<Rightarrow> ts_error option \<Rightarrow> 'c batch_collector \<Rightarrow> 'c batch_collector" where
  "RecordRead cnt size0 err b =
     (let r = bc_r b
      in if err \<noteq> None then b\<lparr>bc_r := r\<lparr>ri_readErrors := wrap64 (ri_readErrors r + 1)\<rparr>\<rparr>
         else b\<lparr>bc_r := r\<lparr>ri_readCounts := wrap64 (ri_readCounts r + cnt),
                         ri_readSizes := wrap64 (ri_readSizes r + size0)\<rparr>\<rparr>)"

definition RecordSwitch :: "int \<Rightarrow> int \<Rightarrow> 'c batch_collector \<Rightarrow> 'c batch_collector" where
  "RecordSwitch status latencySeconds b =
     (let s = bc_sp b
      in if status = SwitchSkip
         then b\<lparr>bc_sp := s\<lparr>si_skipSwitchCounts := wrap64 (si_skipSwitchCounts s + 1)\<rparr>\<rparr>
         else if status = SwitchSuccess
         then b\<lparr>bc_sp := s\<lparr>si_switchCounts := wrap64 (si_switchCounts s + 1),
                           si_switchLatency := latencySeconds\<rparr>\<rparr>
         else b)"

definition ObserveAsyncWorker :: "int \<Rightarrow> 'c batch_collector \<Rightarrow> 'c batch_collector" where
  "ObserveAsyncWorker op b =
     (let s = bc_sp b
      in if op = MetricsIncOp
         then b\<lparr>bc_sp := s\<lparr>si_asyncWorkerIncCounts := wrap64 (si_asyncWorkerIncCounts s + 1)\<rparr>\<rparr>
         else b\<lparr>bc_sp := s\<lparr>si_asyncWorkerDecCounts := wrap64 (si_asyncWorkerDecCounts s + 1)\<rparr>\<rparr>)"

definition RecordPoolAlloc :: "'c batch_collector \<Rightarrow> 'c batch_collector" where
  "RecordPoolAlloc b = b\<lparr>bc_sp := (bc_sp b)\<lparr>si_poolAlloc := wrap64 (si_poolAlloc (bc_sp b) + 1)\<rparr>\<rparr>"

definition Stop :: "'c batch_collector \<Rightarrow> 'c batch_collector go" where
  "Stop b = (if bc_sem b then Inl CloseOfClosedChannel else Inr (b\<lparr>bc_sem := True\<rparr>))"

text \<open>The three parts of \<open>report\<close>; in each, the values are read first and reset afterwards.\<close>

definition report_write :: "prometheus batch_collector \<Rightarrow> metric_call list" where
  "report_write b =
     (let w = bc_w b; mc = bc_mc b
      in ObserveWrite (f64_of_int (wi_writeCounts w)) (f64_of_int (wi_writeSizes w)) (f64_of_int (wi_writeErrors w)) mc @
         ObserveActive (f64_of_int (wi_activeChannelDataCounts w)) (f64_of_int (wi_activeChannelDataSizes w)) mc)"

definition report_read :: "prometheus batch_collector \<Rightarrow> metric_call list" where
  "report_read b =
     (let r = bc_r b
      in ObserveRead (f64_of_int (ri_readCounts r)) (f64_of_int (ri_readSizes r)) (f64_of_int (ri_readErrors r)) (bc_mc b))"

definition report_supporting :: "prometheus batch_collector \<Rightarrow> metric_call list" where
  "report_supporting b =
     (let s = bc_sp b; mc = bc_mc b
      in ObserveAsyncGoroutine MetricsIncOp (f64_of_int (si_asyncWorkerIncCounts s)) mc @
         ObserveAsyncGoroutine MetricsDecOp (f64_of_int (si_asyncWorkerDecCounts s)) mc @
         AllocInc (f64_of_int (si_poolAlloc s)) mc @
         SwitchWithLatency SwitchSuccess (f64_of_int (si_switchCounts s)) (f64_of_int (si_switchLatency s)) mc @
         SwitchWithLatency SwitchSkip (f64_of_int (si_skipSwitchCounts s)) (Fin 0) mc)"

definition report :: "prometheus batch_collector \<Rightarrow> metric_call list \<times> prometheus batch_collector" where
  "report b =
     (let c1 = report_write b; b1 = b\<lparr>bc_w := Write_Reset (bc_w b)\<rparr>;
          c2 = report_read b1; b2 = b1\<lparr>bc_r := Read_Reset (bc_r b1)\<rparr>;
          c3 = report_supporting b2; b3 = b2\<lparr>bc_sp := Supporting_Reset (bc_sp b2)\<rparr>
      in (c1 @ c2 @ c3, b3))"

definition Flush :: "prometheus batch_collector \<Rightarrow> metric_call list \<times> prometheus batch_collector" where
  "Flush b = report b"

text \<open>One round of the loop of \<open>asyncWorker\<close>, which \<open>Start\<close> runs in a goroutine.\<close>

definition asyncWorker_tick :: "prometheus batch_collector \<Rightarrow> metric_call list \<times> prometheus batch_collector" where
  "asyncWorker_tick b = (if bc_sem b then ([], b) else report b)"

section \<open>Events\<close>

datatype event =
    EvWrite int "ts_error option"
  | EvRead int int "ts_error option"
  | EvSwitch int int
  | EvWorker int
  | EvAlloc
  | EvReport

fun handle :: "event \<Rightarrow> prometheus batch_collector \<Rightarrow> metric_call list \<times> prometheus batch_collector" where
  "handle (EvWrite n err) b = ([], RecordWrite n err b)"
| "handle (EvRead c n err) b = ([], RecordRead c n err b)"
| "handle (EvSwitch st l) b = ([], RecordSwitch st l b)"
| "handle (EvWorker op) b = ([], ObserveAsyncWorker op b)"
| "handle EvAlloc b = ([], RecordPoolAlloc b)"
| "handle EvReport b = report b"

fun handle_all :: "event list \<Rightarrow> prometheus batch_collector \<Rightarrow> metric_call list \<times> prometheus batch_collector" where
  "handle_all [] b = ([], b)"
| "handle_all (e # es) b = (let (c, b1) = handle e b; (cs, b2) = handle_all es b1 in (c @ cs, b2))"

text \<open>The sum of what was added to a metric, and the events it should count.\<close>

fun added1 :: "metric \<Rightarrow> metric_call \<Rightarrow> rat" where
  "added1 m (Add m' v) = (if m = m' then (case v of Fin x \<Rightarrow> x | _ \<Rightarrow> 0) else 0)"
| "added1 m (Inc m') = (if m = m' then 1 else 0)"
| "added1 m _ = 0"

definition added :: "metric \<Rightarrow> metric_call list \<Rightarrow> rat" where
  "added m cs = sum_list (map (added1 m) cs)"

fun weight :: "metric \<Rightarrow> event \<Rightarrow> int" where
  "weight writeCounter (EvWrite n None) = 1"
| "weight writeSizes (EvWrite n None) = n"
| "weight writeErrors (EvWrite n (Some e)) = 1"
| "weight readCounter (EvRead c n None) = c"
| "weight readSizes (EvRead c n None) = n"
| "weight readErrors (EvRead c n (Some e)) = 1"
| "weight switchCounts (EvSwitch st l) = (if st = SwitchSuccess then 1 else 0)"
| "weight poolAlloc EvAlloc = 1"
| "weight m e = 0"

text \<open>The part of a metric that is recorded and not reported yet.\<close>

fun pending_value :: "metric \<Rightarrow> 'c batch_collector \<Rightarrow> int" where
  "pending_value writeCounter b = wi_writeCounts (bc_w b)"
| "pending_value writeSizes b = wi_writeSizes (bc_w b)"
| "pending_value writeErrors b = wi_writeErrors (bc_w b)"
| "pending_value readCounter b = ri_readCounts (bc_r b)"
| "pending_value readSizes b = ri_readSizes (bc_r b)"
| "pending_value readErrors b = ri_readErrors (bc_r b)"
| "pending_value switchCounts b = si_switchCounts (bc_sp b)"
| "pending_value poolAlloc b = si_poolAlloc (bc_sp b)"
| "pending_value m b = 0"

definition counted :: "metric set" where
  "counted = {writeCounter, writeSizes, writeErrors, readCounter, readSizes, readErrors, switchCounts, poolAlloc}"

lemma added_simps [simp]:
  "added m [] = 0" "added m (c # cs) = added1 m c + added m cs" "added m (cs @ ds) = added m cs + added m ds"
  by (simp_all add: added_def)

lemmas observe_defs =
  ObserveWrite_def ObserveRead_def ObserveActive_def ObserveAsyncGoroutine_def AllocInc_def SwitchWithLatency_def

lemma report_counted:
  assumes "m \<in> counted" "pm_enabled (bc_mc b)" "\<bar>pending_value m b\<bar> \<le> 2 ^ 53"
  shows "added m (fst (report b)) = of_int (pending_value m b) \<and> pending_value m (snd (report b)) = 0 \<and>
    bc_mc (snd (report b)) = bc_mc b"
  using assms f64_of_int_exact [of "pending_value m b"]
  by (auto simp: counted_def report_def report_write_def report_read_def report_supporting_def Let_def
      observe_defs Write_Reset_def Read_Reset_def Supporting_Reset_def
      MetricsIncOp_def MetricsDecOp_def SwitchSuccess_def SwitchSkip_def SwitchFailure_def)

lemma handle_counted:
  assumes "m \<in> counted" "pm_enabled (bc_mc b)" "\<bar>pending_value m b\<bar> \<le> 2 ^ 53"
    "\<bar>pending_value m b + weight m e\<bar> \<le> 2 ^ 53"
  shows "added m (fst (handle e b)) + of_int (pending_value m (snd (handle e b))) =
      of_int (pending_value m b) + of_int (weight m e) \<and> pm_enabled (bc_mc (snd (handle e b)))"
proof (cases "e = EvReport")
  case True
  then show ?thesis using report_counted [OF assms(1-3)] assms(1,2) by (auto simp: counted_def)
next
  case False
  have w: "wrap64 (pending_value m b + weight m e) = pending_value m b + weight m e"
    using assms(4) by (simp add: abs_le_iff)
  then show ?thesis
    using assms(1,2) False
    by (cases e; cases m)
       (auto simp: counted_def RecordWrite_def RecordRead_def RecordSwitch_def ObserveAsyncWorker_def
          RecordPoolAlloc_def Let_def SwitchSuccess_def SwitchSkip_def SwitchFailure_def split: option.splits)
qed

lemma handle_pending:
  assumes "m \<in> counted" "\<bar>pending_value m b + weight m e\<bar> \<le> 2 ^ 53"
  shows "pending_value m (snd (handle e b)) = (if e = EvReport then 0 else pending_value m b + weight m e)"
proof (cases "e = EvReport")
  case True
  then show ?thesis
    using assms(1)
    by (auto simp: counted_def report_def Let_def Write_Reset_def Read_Reset_def Supporting_Reset_def)
next
  case False
  have w: "wrap64 (pending_value m b + weight m e) = pending_value m b + weight m e"
    using assms(2) by (simp add: abs_le_iff)
  then show ?thesis
    using assms(1) False
    by (cases e; cases m)
       (auto simp: counted_def RecordWrite_def RecordRead_def RecordSwitch_def ObserveAsyncWorker_def
          RecordPoolAlloc_def Let_def SwitchSuccess_def SwitchSkip_def SwitchFailure_def split: option.splits)
qed

lemma handle_all_counted:
  assumes "m \<in> counted" "pm_enabled (bc_mc b)" "0 \<le> pending_value m b" "\<forall>e \<in> set es. 0 \<le> weight m e"
    "pending_value m b + sum_list (map (weight m) es) \<le> 2 ^ 53"
  shows "added m (fst (handle_all es b)) + of_int (pending_value m (snd (handle_all es b))) =
    of_int (pending_value m b + sum_list (map (weight m) es)) \<and> 0 \<le> pending_value m (snd (handle_all es b)) \<and>
    pending_value m (snd (handle_all es b)) \<le> pending_value m b + sum_list (map (weight m) es) \<and>
    pm_enabled (bc_mc (snd (handle_all es b)))"
  using assms
proof (induction es arbitrary: b)
  case Nil
  then show ?case by simp
next
  case (Cons e es)
  let ?b = "snd (handle e b)" and ?S = "sum_list (map (weight m) es)"
  have w: "0 \<le> weight m e" "0 \<le> ?S" using Cons.prems(4) by (auto intro!: sum_list_nonneg)
  have bnd: "\<bar>pending_value m b\<bar> \<le> 2 ^ 53" "\<bar>pending_value m b + weight m e\<bar> \<le> 2 ^ 53"
    using Cons.prems(3,5) w by (simp_all add: abs_if)
  note h = handle_counted [OF Cons.prems(1,2) bnd] and p = handle_pending [OF Cons.prems(1) bnd(2)]
  have p': "0 \<le> pending_value m ?b" "pending_value m ?b \<le> pending_value m b + weight m e"
    using p Cons.prems(3) w by auto
  have ih: "added m (fst (handle_all es ?b)) + of_int (pending_value m (snd (handle_all es ?b))) =
      of_int (pending_value m ?b + ?S) \<and> 0 \<le> pending_value m (snd (handle_all es ?b)) \<and>
      pending_value m (snd (handle_all es ?b)) \<le> pending_value m ?b + ?S \<and>
      pm_enabled (bc_mc (snd (handle_all es ?b)))"
    using Cons.IH [of ?b] Cons.prems h p' by auto
  have eq: "fst (handle_all (e # es) b) = fst (handle e b) @ fst (handle_all es ?b)"
      "snd (handle_all (e # es) b) = snd (handle_all es ?b)"
    by (simp_all add: Let_def split: prod.splits)
  show ?case using ih h p' unfolding eq by (simp add: algebra_simps)
qed

section \<open>Properties\<close>

text \<open>
  Batching neither loses nor repeats a measurement. Take any sequence of recorded events and
  reports, one at a time, for a metric whose total stays within \<open>2\<^sup>5\<^sup>3\<close> (so that \<open>float64\<close> is exact):
  what was added to the metric plus what is recorded and not yet reported is the exact total of the
  events, and a final \<open>Flush\<close> reports the rest.
\<close>

theorem metrics_conserved:
  assumes "m \<in> counted" "\<forall>e \<in> set es. 0 \<le> weight m e" "sum_list (map (weight m) es) \<le> 2 ^ 53"
  shows "case handle_all es (NewBatchCollector NewPrometheus) of (cs, b) \<Rightarrow>
    added m cs + of_int (pending_value m b) = of_int (sum_list (map (weight m) es)) \<and>
    added m (cs @ fst (Flush b)) = of_int (sum_list (map (weight m) es)) \<and> pending_value m (snd (Flush b)) = 0"
proof -
  let ?b0 = "NewBatchCollector NewPrometheus"
  obtain cs b where r: "handle_all es ?b0 = (cs, b)" by fastforce
  have "pending_value m ?b0 = 0" "pm_enabled (bc_mc ?b0)"
    using assms(1) by (auto simp: counted_def NewBatchCollector_def CollectSwitcher_def)
  then have h: "added m cs + of_int (pending_value m b) = of_int (sum_list (map (weight m) es))"
      "0 \<le> pending_value m b" "pending_value m b \<le> 2 ^ 53" "pm_enabled (bc_mc b)"
    using handle_all_counted [OF assms(1), of ?b0 es] assms(2,3) r by auto
  then have "added m (fst (report b)) = of_int (pending_value m b) \<and> pending_value m (snd (report b)) = 0"
    using report_counted [OF assms(1), of b] by simp
  with h r show ?thesis by (simp add: Flush_def)
qed

theorem metrics_conserved_witness:
  "case handle_all [EvWrite 10 None, EvReport, EvWrite 5 None, EvWrite 7 (Some ErrBufferClose)]
      (NewBatchCollector NewPrometheus) of (cs, b) \<Rightarrow> added writeSizes (cs @ fst (Flush b)) = 15"
  using metrics_conserved [of writeSizes "[EvWrite 10 None, EvReport, EvWrite 5 None, EvWrite 7 (Some ErrBufferClose)]"]
  by (simp add: counted_def split: prod.splits del: handle_all.simps added_simps)

text \<open>
  The skip counter counts reports, not skips: every report adds exactly one to it, however many
  skipped switches (also none) were recorded, and observes the latency value once even when no switch
  happened.
\<close>

theorem skip_counter_counts_reports:
  assumes "pm_enabled (bc_mc b)"
  shows "added skipSwitchCounts (fst (report b)) = 1 \<and>
    length (filter (\<lambda>c. \<exists>v. c = Observe switchLatency v) (fst (report b))) = 1"
  using assms
  by (simp add: report_def report_write_def report_read_def report_supporting_def Let_def observe_defs
      MetricsIncOp_def MetricsDecOp_def SwitchSuccess_def SwitchSkip_def SwitchFailure_def)

theorem skip_counter_counts_reports_witness:
  "added skipSwitchCounts (fst (report (NewBatchCollector NewPrometheus))) = 1"
  using skip_counter_counts_reports [of "NewBatchCollector NewPrometheus"]
  by (simp add: NewBatchCollector_def CollectSwitcher_def)

text \<open>
  \<open>report\<close> reads the counters and resets them in separate steps: a write recorded in between is in
  neither the report nor the new batch.
\<close>

theorem report_race_loses_write:
  assumes "pm_enabled (bc_mc b)" "0 \<le> wi_writeCounts (bc_w b)" "wi_writeCounts (bc_w b) < 2 ^ 53"
  shows "let calls = report_write b; b1 = RecordWrite n None b; b2 = b1\<lparr>bc_w := Write_Reset (bc_w b1)\<rparr>
    in added writeCounter calls + of_int (pending_value writeCounter b2) = of_int (pending_value writeCounter b) \<and>
       pending_value writeCounter b1 = pending_value writeCounter b + 1"
  using assms f64_of_int_exact [of "wi_writeCounts (bc_w b)"]
  by (simp add: report_write_def RecordWrite_def Write_Reset_def observe_defs Let_def)

theorem report_race_loses_write_witness:
  "let b = NewBatchCollector NewPrometheus; calls = report_write b; b1 = RecordWrite 8 None b;
       b2 = b1\<lparr>bc_w := Write_Reset (bc_w b1)\<rparr>
   in added writeCounter calls + of_int (pending_value writeCounter b2) = 0 \<and> pending_value writeCounter b1 = 1"
  using report_race_loses_write [of "NewBatchCollector NewPrometheus" 8]
  by (simp add: NewBatchCollector_def CollectSwitcher_def Let_def)

end
