(* ===== verification/Batch_Race.thy ===== *)
theory Batch_Race
  imports Batch_Metrics Exec_Spec
begin

text \<open>
  The batch collector of \<open>src/core/metrics/batch_collector.go\<close> with concurrent goroutines. Its counters are
  fourteen \<open>int64\<close> cells that are touched by atomic instructions only, and the methods that record are
  straight-line code over them, as is \<open>report\<close>; here a goroutine is the list of instructions it has still to execute
  and the values it has loaded for the next call of the collector. \<open>Batch_Metrics\<close> takes a method as one step.

  Shown: undisturbed code does what \<open>Batch_Metrics\<close> says. With one reporting goroutine and any number of recording
  ones nothing is reported twice, and exactly those additions are lost that happen between the load of a cell and the
  store of its zero. Two reports at the same time, of the timer and of \<open>Flush\<close>, report the same values twice.
\<close>

section \<open>Code\<close>

datatype cell =
    WriteCounts | WriteSizes | WriteErrors | ActiveCounts | ActiveSizes
  | ReadCounts | ReadSizes | ReadErrors
  | AsyncInc | AsyncDec | PoolAlloc | SwitchCounts | SwitchLatency | SkipCounts

text \<open>The calls of the collector in \<open>report\<close>.\<close>

datatype report_call =
    CallWrite | CallActive | CallRead | CallInc | CallDec | CallAlloc | CallSwitch | CallSkip

datatype instr = AddInt64 cell int | StoreInt64 cell int | LoadInt64 cell | Report report_call

definition RecordWrite_code :: "int \<Rightarrow> ts_error option \<Rightarrow> instr list" where
  "RecordWrite_code size0 err =
     (if err \<noteq> None then [AddInt64 WriteErrors 1]
      else [AddInt64 WriteCounts 1, AddInt64 WriteSizes size0, AddInt64 ActiveCounts 1, AddInt64 ActiveSizes size0])"

definition RecordRead_code :: "int \<Rightarrow> int \<Rightarrow> ts_error option \<Rightarrow> instr list" where
  "RecordRead_code cnt size0 err =
     (if err \<noteq> None then [AddInt64 ReadErrors 1] else [AddInt64 ReadCounts cnt, AddInt64 ReadSizes size0])"

definition RecordSwitch_code :: "int \<Rightarrow> int \<Rightarrow> instr list" where
  "RecordSwitch_code status latencySeconds =
     (if status = SwitchSkip then [AddInt64 SkipCounts 1]
      else if status = SwitchSuccess then [AddInt64 SwitchCounts 1, StoreInt64 SwitchLatency latencySeconds]
      else [])"

definition ObserveAsyncWorker_code :: "int \<Rightarrow> instr list" where
  "ObserveAsyncWorker_code op = (if op = MetricsIncOp then [AddInt64 AsyncInc 1] else [AddInt64 AsyncDec 1])"

definition RecordPoolAlloc_code :: "instr list" where
  "RecordPoolAlloc_code = [AddInt64 PoolAlloc 1]"

definition Write_Reset_code :: "instr list" where
  "Write_Reset_code =
     [StoreInt64 ActiveCounts 0, StoreInt64 ActiveSizes 0, StoreInt64 WriteSizes 0, StoreInt64 WriteCounts 0,
      StoreInt64 WriteErrors 0]"

definition Read_Reset_code :: "instr list" where
  "Read_Reset_code = [StoreInt64 ReadCounts 0, StoreInt64 ReadSizes 0, StoreInt64 ReadErrors 0]"

definition Supporting_Reset_code :: "instr list" where
  "Supporting_Reset_code =
     [StoreInt64 AsyncInc 0, StoreInt64 AsyncDec 0, StoreInt64 SwitchCounts 0, StoreInt64 SwitchLatency 0,
      StoreInt64 SkipCounts 0, StoreInt64 PoolAlloc 0]"

definition report_code :: "instr list" where
  "report_code =
     [LoadInt64 WriteCounts, LoadInt64 WriteSizes, LoadInt64 WriteErrors, Report CallWrite,
      LoadInt64 ActiveCounts, LoadInt64 ActiveSizes, Report CallActive] @ Write_Reset_code @
     [LoadInt64 ReadCounts, LoadInt64 ReadSizes, LoadInt64 ReadErrors, Report CallRead] @ Read_Reset_code @
     [LoadInt64 AsyncInc, Report CallInc, LoadInt64 AsyncDec, Report CallDec, LoadInt64 PoolAlloc, Report CallAlloc,
      LoadInt64 SwitchCounts, LoadInt64 SwitchLatency, Report CallSwitch, LoadInt64 SkipCounts, Report CallSkip] @
     Supporting_Reset_code"

fun event_code :: "event \<Rightarrow> instr list" where
  "event_code (EvWrite n err) = RecordWrite_code n err"
| "event_code (EvRead c n err) = RecordRead_code c n err"
| "event_code (EvSwitch st l) = RecordSwitch_code st l"
| "event_code (EvWorker op) = ObserveAsyncWorker_code op"
| "event_code EvAlloc = RecordPoolAlloc_code"
| "event_code EvReport = report_code"

lemmas code_defs =
  RecordWrite_code_def RecordRead_code_def RecordSwitch_code_def ObserveAsyncWorker_code_def RecordPoolAlloc_code_def
  report_code_def Write_Reset_code_def Read_Reset_code_def Supporting_Reset_code_def

section \<open>Steps\<close>

text \<open>
  The last three fields are auxiliary variables, read by no instruction: for each cell, the sum of all additions, the
  sum of all loaded values, and the sum of the additions while the window of the cell is open.
\<close>

record batch_race =
  br_cell :: "cell \<Rightarrow> int"
  br_mc :: prometheus
  br_calls :: "(report_call \<times> int list) list"
  br_threads :: "(instr list \<times> int list) list"
  br_recorded :: "cell \<Rightarrow> int"
  br_loaded :: "cell \<Rightarrow> int"
  br_missed :: "cell \<Rightarrow> int"

text \<open>The window of a cell is open when a goroutine has loaded it and has still to store the zero.\<close>

fun window :: "cell \<Rightarrow> instr list \<Rightarrow> bool" where
  "window c [] = False"
| "window c (LoadInt64 c' # p) = (c' \<noteq> c \<and> window c p)"
| "window c (StoreInt64 c' v # p) = (c' = c \<or> window c p)"
| "window c (x # p) = window c p"

definition window_open :: "batch_race \<Rightarrow> cell \<Rightarrow> bool" where
  "window_open s c \<longleftrightarrow> (\<exists>t \<in> set (br_threads s). window c (fst t))"

text \<open>The arguments of a call are the values loaded since the last one, converted to \<open>float64\<close>.\<close>

fun call :: "report_call \<Rightarrow> int list \<Rightarrow> prometheus \<Rightarrow> metric_call list" where
  "call CallWrite [a, b, c] mc = ObserveWrite (f64_of_int a) (f64_of_int b) (f64_of_int c) mc"
| "call CallActive [a, b] mc = ObserveActive (f64_of_int a) (f64_of_int b) mc"
| "call CallRead [a, b, c] mc = ObserveRead (f64_of_int a) (f64_of_int b) (f64_of_int c) mc"
| "call CallInc [a] mc = ObserveAsyncGoroutine MetricsIncOp (f64_of_int a) mc"
| "call CallDec [a] mc = ObserveAsyncGoroutine MetricsDecOp (f64_of_int a) mc"
| "call CallAlloc [a] mc = AllocInc (f64_of_int a) mc"
| "call CallSwitch [a, b] mc = SwitchWithLatency SwitchSuccess (f64_of_int a) (f64_of_int b) mc"
| "call CallSkip [a] mc = SwitchWithLatency SwitchSkip (f64_of_int a) (Fin 0) mc"
| "call k regs mc = []"

fun instr_step :: "instr \<Rightarrow> int list \<Rightarrow> batch_race \<Rightarrow> int list \<times> batch_race" where
  "instr_step (AddInt64 c n) regs s =
     (regs, s\<lparr>br_cell := (br_cell s)(c := wrap64 (br_cell s c + n)),
              br_recorded := (br_recorded s)(c := br_recorded s c + n),
              br_missed := (br_missed s)(c := br_missed s c + (if window_open s c then n else 0))\<rparr>)"
| "instr_step (StoreInt64 c v) regs s = (regs, s\<lparr>br_cell := (br_cell s)(c := v)\<rparr>)"
| "instr_step (LoadInt64 c) regs s =
     (regs @ [br_cell s c], s\<lparr>br_loaded := (br_loaded s)(c := br_loaded s c + br_cell s c)\<rparr>)"
| "instr_step (Report k) regs s = ([], s\<lparr>br_calls := br_calls s @ [(k, regs)]\<rparr>)"

text \<open>What the collector makes of the calls.\<close>

definition made :: "batch_race \<Rightarrow> metric_call list" where
  "made s = concat (map (\<lambda>(k, regs). call k regs (br_mc s)) (br_calls s))"

lemma made_simps [simp]:
  "made (s\<lparr>br_cell := f\<rparr>) = made s" "made (s\<lparr>br_recorded := f\<rparr>) = made s" "made (s\<lparr>br_loaded := f\<rparr>) = made s"
  "made (s\<lparr>br_missed := f\<rparr>) = made s" "made (s\<lparr>br_threads := ts\<rparr>) = made s"
  "made (s\<lparr>br_calls := br_calls s @ [(k, regs)]\<rparr>) = made s @ call k regs (br_mc s)"
  by (simp_all add: made_def)

definition fire_batch :: "nat \<Rightarrow> batch_race \<Rightarrow> batch_race go option" where
  "fire_batch i s =
     (if i < length (br_threads s) then
        case br_threads s ! i of
          ([], regs) \<Rightarrow> None
        | (x # p, regs) \<Rightarrow>
            let (regs1, s1) = instr_step x regs s in Some (Inr (s1\<lparr>br_threads := (br_threads s)[i := (p, regs1)]\<rparr>))
      else None)"

text \<open>
  A new collector with the goroutine of \<open>asyncWorker\<close>, whose ticker will fire \<open>n\<close> times, and goroutines that record
  events (or flush).
\<close>

definition batch_start :: "nat \<Rightarrow> event list list \<Rightarrow> batch_race" where
  "batch_start n ess =
     \<lparr>br_cell = (\<lambda>_. 0), br_mc = CollectSwitcher True NewPrometheus, br_calls = [],
      br_threads = (concat (replicate n report_code), []) # map (\<lambda>es. (concat (map event_code es), [])) ess,
      br_recorded = (\<lambda>_. 0), br_loaded = (\<lambda>_. 0), br_missed = (\<lambda>_. 0)\<rparr>"

section \<open>Undisturbed code\<close>

fun run_code :: "instr list \<Rightarrow> int list \<Rightarrow> batch_race \<Rightarrow> int list \<times> batch_race" where
  "run_code [] regs s = (regs, s)"
| "run_code (x # p) regs s = (let (regs1, s1) = instr_step x regs s in run_code p regs1 s1)"

text \<open>The collector of \<open>Batch_Metrics\<close> that the cells stand for.\<close>

definition collector_of :: "batch_race \<Rightarrow> bool \<Rightarrow> prometheus batch_collector" where
  "collector_of s sem =
     (let v = br_cell s in
      \<lparr>bc_w = \<lparr>wi_writeCounts = v WriteCounts, wi_writeSizes = v WriteSizes, wi_writeErrors = v WriteErrors,
              wi_activeChannelDataCounts = v ActiveCounts, wi_activeChannelDataSizes = v ActiveSizes\<rparr>,
       bc_r = \<lparr>ri_readCounts = v ReadCounts, ri_readSizes = v ReadSizes, ri_readErrors = v ReadErrors\<rparr>,
       bc_sp = \<lparr>si_asyncWorkerIncCounts = v AsyncInc, si_asyncWorkerDecCounts = v AsyncDec, si_poolAlloc = v PoolAlloc,
                si_switchCounts = v SwitchCounts, si_switchLatency = v SwitchLatency, si_skipSwitchCounts = v SkipCounts\<rparr>,
       bc_mc = br_mc s, bc_sem = sem\<rparr>)"

lemma run_report:
  "fst (run_code report_code [] s) = [] \<and>
   made (snd (run_code report_code [] s)) = made s @ fst (report (collector_of s sem)) \<and>
   collector_of (snd (run_code report_code [] s)) sem = snd (report (collector_of s sem))"
  by (simp add: code_defs made_def collector_of_def report_def report_write_def report_read_def report_supporting_def Let_def
      Write_Reset_def Read_Reset_def Supporting_Reset_def)

lemma run_event:
  "fst (run_code (event_code e) [] s) = [] \<and>
   made (snd (run_code (event_code e) [] s)) = made s @ fst (handle e (collector_of s sem)) \<and>
   collector_of (snd (run_code (event_code e) [] s)) sem = snd (handle e (collector_of s sem))"
proof (cases e)
  case EvReport
  then show ?thesis using run_report by simp
qed (auto simp: code_defs made_def collector_of_def RecordWrite_def RecordRead_def RecordSwitch_def ObserveAsyncWorker_def
    RecordPoolAlloc_def Let_def)

section \<open>What reaches a counter\<close>

text \<open>The cell behind a counter, and the share of a call that goes to it.\<close>

fun metric_cell :: "metric \<Rightarrow> cell" where
  "metric_cell writeCounter = WriteCounts"
| "metric_cell writeSizes = WriteSizes"
| "metric_cell writeErrors = WriteErrors"
| "metric_cell readCounter = ReadCounts"
| "metric_cell readSizes = ReadSizes"
| "metric_cell readErrors = ReadErrors"
| "metric_cell switchCounts = SwitchCounts"
| "metric_cell poolAlloc = PoolAlloc"
| "metric_cell _ = SkipCounts"

fun amount :: "metric \<Rightarrow> report_call \<Rightarrow> int list \<Rightarrow> int" where
  "amount m CallWrite [a, b, c] =
     (if m = writeCounter then a else if m = writeSizes then b else if m = writeErrors then c else 0)"
| "amount m CallRead [a, b, c] =
     (if m = readCounter then a else if m = readSizes then b else if m = readErrors then c else 0)"
| "amount m CallAlloc [a] = (if m = poolAlloc then a else 0)"
| "amount m CallSwitch [a, b] = (if m = switchCounts then a else 0)"
| "amount m k regs = 0"

lemma added_call:
  assumes "m \<in> counted" "pm_enabled mc" "\<bar>amount m k regs\<bar> \<le> 2 ^ 53"
  shows "added m (call k regs mc) = of_int (amount m k regs)"
  using assms
  by (cases "(k, regs, mc)" rule: call.cases)
    (auto simp: counted_def observe_defs f64_of_int_exact MetricsIncOp_def MetricsDecOp_def SwitchSuccess_def
      SwitchFailure_def SwitchSkip_def)

text \<open>What a goroutine has loaded for a counter and will pass on: its calls if all further loads gave zero.\<close>

fun carried :: "metric \<Rightarrow> instr list \<Rightarrow> int list \<Rightarrow> int" where
  "carried m [] regs = 0"
| "carried m (LoadInt64 c # p) regs = carried m p (regs @ [0])"
| "carried m (Report k # p) regs = amount m k regs + carried m p []"
| "carried m (x # p) regs = carried m p regs"

text \<open>
  Code that reports: a load opens the window of its cell and carries the value to the counter and to no other; a
  store closes the window with a zero; a call leaves nothing behind. The number is that of the loaded values.
\<close>

fun reports :: "metric \<Rightarrow> nat \<Rightarrow> instr list \<Rightarrow> bool" where
  "reports m k [] = True"
| "reports m k (LoadInt64 c # p) =
     ((c = metric_cell m \<longrightarrow> window c p) \<and>
      (\<forall>regs v. length regs = k \<longrightarrow>
         carried m p (regs @ [v]) = (if c = metric_cell m then v else carried m p (regs @ [0]))) \<and>
      reports m (Suc k) p)"
| "reports m k (StoreInt64 c v # p) = ((c = metric_cell m \<longrightarrow> v = 0 \<and> \<not> window c p) \<and> reports m k p)"
| "reports m k (Report x # p) = (carried m p [] = 0 \<and> reports m 0 p)"
| "reports m k (AddInt64 c n # p) = False"

lemma window_report: "\<not> window c (report_code @ p)"
  by (cases c) (simp_all add: code_defs)

lemma carried_report: "m \<in> counted \<Longrightarrow> carried m (report_code @ p) [] = carried m p []"
  by (auto simp: counted_def code_defs)

lemma reports_append:
  assumes "m \<in> counted" "reports m 0 p" "\<not> window (metric_cell m) p" "carried m p [] = 0"
  shows "reports m 0 (report_code @ p)"
  using assms by (auto simp: counted_def code_defs length_Suc_conv)

lemma reports_rounds:
  assumes "m \<in> counted"
  shows "reports m 0 (concat (replicate n report_code)) \<and> \<not> window (metric_cell m) (concat (replicate n report_code)) \<and>
    carried m (concat (replicate n report_code)) [] = 0"
proof (induction n)
  case 0
  then show ?case by simp
next
  case (Suc n)
  then show ?case using reports_append [OF assms] carried_report [OF assms] window_report by simp
qed

text \<open>Code that records, and the sum of its additions to a cell.\<close>

fun records :: "cell \<Rightarrow> instr list \<Rightarrow> bool" where
  "records c [] = True"
| "records c (AddInt64 c' n # p) = ((c' = c \<longrightarrow> 0 \<le> n) \<and> records c p)"
| "records c (StoreInt64 c' v # p) = (c' \<noteq> c \<and> records c p)"
| "records c (x # p) = False"

fun adds :: "cell \<Rightarrow> instr list \<Rightarrow> int" where
  "adds c [] = 0"
| "adds c (AddInt64 c' n # p) = (if c' = c then n else 0) + adds c p"
| "adds c (x # p) = adds c p"

lemma records_append [simp]: "records c (p @ q) \<longleftrightarrow> records c p \<and> records c q"
  by (induction p rule: adds.induct) auto

lemma adds_append [simp]: "adds c (p @ q) = adds c p + adds c q"
  by (induction p rule: adds.induct) auto

lemma records_facts: "records c p \<Longrightarrow> \<not> window c p \<and> 0 \<le> adds c p"
  by (induction p rule: adds.induct) auto

lemma event_records:
  assumes "m \<in> counted" "e \<noteq> EvReport" "0 \<le> weight m e"
  shows "records (metric_cell m) (event_code e) \<and> adds (metric_cell m) (event_code e) = weight m e"
  using assms by (cases e) (auto simp: counted_def code_defs SwitchSkip_def SwitchSuccess_def split: option.splits)

lemma events_records:
  assumes "m \<in> counted" "\<forall>e \<in> set es. e \<noteq> EvReport \<and> 0 \<le> weight m e"
  shows "records (metric_cell m) (concat (map event_code es)) \<and>
    adds (metric_cell m) (concat (map event_code es)) = sum_list (map (weight m) es)"
  using assms(2) by (induction es) (auto simp: event_records [OF assms(1)])

section \<open>The balance of a counter\<close>

text \<open>As long as the additions stay within \<open>2 ^ 53\<close>, so that no cell wraps around and \<open>float64\<close> is exact.\<close>

definition balance :: "metric \<Rightarrow> instr list \<Rightarrow> int list \<Rightarrow> batch_race \<Rightarrow> bool" where
  "balance m p regs s \<longleftrightarrow>
     (let c = metric_cell m in
       0 \<le> br_cell s c \<and> br_cell s c \<le> br_recorded s c \<and> 0 \<le> carried m p regs \<and> carried m p regs \<le> br_recorded s c \<and>
       br_recorded s c = br_loaded s c + br_missed s c + (if window c p then 0 else br_cell s c) \<and>
       added m (made s) + of_int (carried m p regs) = of_int (br_loaded s c))"

definition counter_inv :: "metric \<Rightarrow> batch_race \<Rightarrow> bool" where
  "counter_inv m s \<longleftrightarrow>
     m \<in> counted \<and> pm_enabled (br_mc s) \<and> 0 \<le> br_missed s (metric_cell m) \<and>
     (\<exists>p regs rest. br_threads s = (p, regs) # rest \<and> reports m (length regs) p \<and>
        (\<forall>t \<in> set rest. records (metric_cell m) (fst t)) \<and>
        (br_recorded s (metric_cell m) \<le> 2 ^ 53 \<longrightarrow> balance m p regs s))"

lemma reporter_step:
  assumes "m \<in> counted" "pm_enabled (br_mc s)" "reports m (length regs) (x # p)"
    and "instr_step x regs s = (regs1, s1)"
  shows "reports m (length regs1) p \<and> br_mc s1 = br_mc s \<and> br_threads s1 = br_threads s \<and>
    br_recorded s1 = br_recorded s \<and> br_missed s1 = br_missed s \<and>
    (balance m (x # p) regs s \<and> br_recorded s (metric_cell m) \<le> 2 ^ 53 \<longrightarrow> balance m p regs1 s1)"
proof (cases x)
  case (AddInt64 c n)
  then show ?thesis using assms(3) by simp
next
  case (StoreInt64 c v)
  then show ?thesis using assms(3,4) by (auto simp: balance_def Let_def)
next
  case (LoadInt64 c)
  have "carried m p (regs @ [v]) = (if c = metric_cell m then v else carried m p (regs @ [0]))" for v
    using assms(3) LoadInt64 by simp
  note carry = this [of "br_cell s c"] this [of 0]
  have r: "regs1 = regs @ [br_cell s c]" "s1 = s\<lparr>br_loaded := (br_loaded s)(c := br_loaded s c + br_cell s c)\<rparr>"
    using assms(4) LoadInt64 by simp_all
  have rep: "reports m (length regs1) p" "c = metric_cell m \<longrightarrow> window c p" using assms(3) LoadInt64 r(1) by simp_all
  have "balance m p regs1 s1" if "balance m (x # p) regs s"
    using that rep(2) carry by (cases "c = metric_cell m") (simp_all add: LoadInt64 r balance_def Let_def)
  then show ?thesis using rep(1) r(2) by simp
next
  case (Report k)
  then have "added m (call k regs (br_mc s)) = of_int (amount m k regs)"
    if "balance m (x # p) regs s" "br_recorded s (metric_cell m) \<le> 2 ^ 53"
    using added_call [OF assms(1,2), of k regs] that assms(3) by (simp add: balance_def Let_def)
  then show ?thesis using Report assms(3,4) by (auto simp: balance_def Let_def)
qed

lemma recorder_step:
  assumes "records (metric_cell m) (x # q)" "instr_step x regs s = (regs1, s1)"
    and "window_open s (metric_cell m) \<longleftrightarrow> window (metric_cell m) p"
  shows "records (metric_cell m) q \<and> br_mc s1 = br_mc s \<and> br_threads s1 = br_threads s \<and>
    br_recorded s (metric_cell m) \<le> br_recorded s1 (metric_cell m) \<and>
    br_missed s (metric_cell m) \<le> br_missed s1 (metric_cell m) \<and>
    (balance m p r s \<and> br_recorded s1 (metric_cell m) \<le> 2 ^ 53 \<longrightarrow> balance m p r s1)"
proof (cases x)
  case (AddInt64 c n)
  then show ?thesis using assms by (cases "c = metric_cell m") (auto simp: balance_def Let_def)
next
  case (StoreInt64 c v)
  then show ?thesis using assms by (auto simp: balance_def Let_def)
qed (use assms in auto)

lemma fire_batchE:
  assumes "fire_batch i s = Some r"
  obtains x p regs regs1 s1 where "i < length (br_threads s)" "br_threads s ! i = (x # p, regs)"
    "instr_step x regs s = (regs1, s1)" "r = Inr (s1\<lparr>br_threads := (br_threads s)[i := (p, regs1)]\<rparr>)"
  using assms by (auto simp: fire_batch_def split: if_splits prod.splits list.splits)

lemma balance_threads [simp]: "balance m p regs (s\<lparr>br_threads := ts\<rparr>) = balance m p regs s"
  by (simp add: balance_def)

lemma counter_inv_step:
  assumes "counter_inv m s" "fire_batch i s = Some (Inr s')"
  shows "counter_inv m s'"
proof -
  let ?c = "metric_cell m"
  obtain p regs rest where inv: "m \<in> counted" "pm_enabled (br_mc s)" "0 \<le> br_missed s ?c" "br_threads s = (p, regs) # rest"
      "reports m (length regs) p" "\<forall>t \<in> set rest. records ?c (fst t)" "br_recorded s ?c \<le> 2 ^ 53 \<longrightarrow> balance m p regs s"
    using assms(1) unfolding counter_inv_def by blast
  obtain x q r r1 s1 where st: "i < length (br_threads s)" "br_threads s ! i = (x # q, r)" "instr_step x r s = (r1, s1)"
      "s' = s1\<lparr>br_threads := (br_threads s)[i := (q, r1)]\<rparr>"
    using fire_batchE [OF assms(2)] by (metis sum.inject(2))
  show ?thesis
  proof (cases i)
    case 0
    then have x: "p = x # q" "regs = r" using st(2) inv(4) by simp_all
    then have "br_threads s' = (q, r1) # rest" using 0 st(4) inv(4) by simp
    with reporter_step [OF inv(1,2) inv(5) [unfolded x] st(3)] inv x show ?thesis
      unfolding counter_inv_def st(4) by auto
  next
    case (Suc j)
    then have t: "j < length rest" "rest ! j = (x # q, r)" using st(1,2) inv(4) by simp_all
    then have rec: "records ?c (x # q)" using inv(6) by (metis fst_conv nth_mem)
    have "window_open s ?c \<longleftrightarrow> window ?c p"
      using inv(6) records_facts by (fastforce simp: window_open_def inv(4))
    note k = recorder_step [OF rec st(3) this]
    have thr: "br_threads s' = (p, regs) # rest[j := (q, r1)]" using Suc st(4) inv(4) by simp
    have "\<forall>t \<in> set (rest[j := (q, r1)]). records ?c (fst t)"
      using k inv(6) by (auto dest: set_update_subset_insert [THEN subsetD])
    moreover have "br_recorded s1 ?c \<le> 2 ^ 53 \<longrightarrow> balance m p regs s1" using k inv(7) by force
    moreover have "0 \<le> br_missed s1 ?c" using k [of regs] inv(3) by linarith
    ultimately show ?thesis using k [of regs] inv(1,2,5) thr unfolding counter_inv_def by (auto simp: st(4))
  qed
qed

interpretation batch_race: safe_system fire_batch "counter_inv m" for m
proof unfold_locales
  show "counter_inv m s'" if "counter_inv m s" "fire_batch i s = Some (Inr s')" for s i s'
    by (rule counter_inv_step [OF that])
  show "fire_batch i s \<noteq> Some (Inl p)" for s i p
    by (auto elim: fire_batchE)
qed

text \<open>The additions still to come.\<close>

definition to_come :: "cell \<Rightarrow> batch_race \<Rightarrow> int" where
  "to_come c s = (\<Sum>t \<leftarrow> br_threads s. adds c (fst t))"

lemma to_come_step:
  assumes "fire_batch i s = Some (Inr s')"
  shows "br_recorded s' c + to_come c s' = br_recorded s c + to_come c s"
proof -
  obtain x q r r1 s1 where st: "i < length (br_threads s)" "br_threads s ! i = (x # q, r)" "instr_step x r s = (r1, s1)"
      "s' = s1\<lparr>br_threads := (br_threads s)[i := (q, r1)]\<rparr>"
    using fire_batchE [OF assms] by (metis sum.inject(2))
  have "(\<Sum>t \<leftarrow> (br_threads s)[i := (q, r1)]. adds c (fst t)) = to_come c s - adds c (x # q) + adds c q"
    using sum_list_change [of i "map (\<lambda>t. adds c (fst t)) (br_threads s)" "adds c q"] st(1,2)
    by (simp add: to_come_def map_update)
  moreover have "br_recorded s1 c = br_recorded s c + (adds c (x # q) - adds c q)"
    using st(3) by (cases x) auto
  ultimately show ?thesis by (simp add: to_come_def st(4))
qed

lemma to_come_exec:
  "exec fire_batch ls s s' \<Longrightarrow> br_recorded s' c + to_come c s' = br_recorded s c + to_come c s"
  by (induction rule: exec.induct) (auto simp: to_come_step [where c = c])

definition total_weight :: "metric \<Rightarrow> event list list \<Rightarrow> int" where
  "total_weight m ess = sum_list (map (weight m) (concat ess))"

lemma start_inv:
  assumes "m \<in> counted" "\<forall>e \<in> set (concat ess). e \<noteq> EvReport \<and> 0 \<le> weight m e"
  shows "counter_inv m (batch_start n ess) \<and> to_come (metric_cell m) (batch_start n ess) = total_weight m ess"
proof -
  let ?c = "metric_cell m"
  have rec: "records ?c (concat (map event_code es)) \<and>
      adds ?c (concat (map event_code es)) = sum_list (map (weight m) es)" if "es \<in> set ess" for es
    using events_records [OF assms(1)] assms(2) that by auto
  have "adds ?c (concat (replicate n report_code)) = 0"
    by (induction n) (use assms(1) in \<open>auto simp: counted_def code_defs\<close>)
  moreover have "(\<Sum>es \<leftarrow> ess. adds ?c (concat (map event_code es))) = total_weight m ess"
    using rec by (induction ess) (simp_all add: total_weight_def)
  ultimately have "to_come ?c (batch_start n ess) = total_weight m ess"
    by (simp add: to_come_def batch_start_def comp_def)
  moreover have "counter_inv m (batch_start n ess)"
    using reports_rounds [OF assms(1), of n] rec assms(1)
    by (auto simp: counter_inv_def batch_start_def balance_def CollectSwitcher_def made_def)
  ultimately show ?thesis by blast
qed

section \<open>Properties\<close>


text \<open>A recording goroutine adds one inside the window of the first of two reports.\<close>

definition batch_run :: "nat \<Rightarrow> event list list \<Rightarrow> nat list \<Rightarrow> batch_race option" where
  "batch_run n ess ls =
     (case run_labels fire_batch ls (batch_start n ess) of Some (Inr s) \<Rightarrow> Some s | _ \<Rightarrow> None)"

lemma batch_run_exec: "batch_run n ess ls = Some s \<Longrightarrow> exec fire_batch ls (batch_start n ess) s"
  by (auto simp: batch_run_def intro: run_labels_exec split: option.splits sum.splits)


text \<open>
  Undisturbed code of the batch collector is what \<open>Batch_Metrics\<close> says: executing the instructions of a recording
  method or of \<open>report\<close> without interruption makes the calls and leaves the counters of \<open>handle\<close>.
\<close>

theorem solo_code_refines:
  "made (snd (run_code (event_code e) [] s)) = made s @ fst (handle e (collector_of s sem)) \<and>
   collector_of (snd (run_code (event_code e) [] s)) sem = snd (handle e (collector_of s sem))"
  using run_event [of e s sem] by simp

text \<open>
  Two reports at the same time: a call of \<open>Flush\<close> beside the timer. Both load the cells before one of them stores the
  zeros, and a single write is reported twice.
\<close>

theorem concurrent_flush_reports_twice:
  "\<exists>s. batch_run 1 [[EvWrite 8 None], [EvReport]]
         (replicate 4 1 @ replicate 4 0 @ replicate 4 2 @ replicate 8 0 @ replicate 8 2) = Some s \<and>
     br_recorded s WriteCounts = 1 \<and> added writeCounter (made s) = 2 \<and> br_cell s WriteCounts = 0"
proof -
  let ?ls = "replicate 4 1 @ replicate 4 0 @ replicate 4 2 @ replicate 8 0 @ replicate 8 2"
  have "map_option (\<lambda>s. (br_recorded s WriteCounts, br_cell s WriteCounts, br_calls s, pm_enabled (br_mc s)))
      (batch_run 1 [[EvWrite 8 None], [EvReport]] ?ls) =
    Some (1, 0, [(CallWrite, [1, 8, 0]), (CallWrite, [1, 8, 0]), (CallActive, [1, 8]), (CallActive, [0, 0])], True)"
    by code_simp
  then obtain s where s: "batch_run 1 [[EvWrite 8 None], [EvReport]] ?ls = Some s" "br_recorded s WriteCounts = 1"
      "br_cell s WriteCounts = 0" "pm_enabled (br_mc s)"
      "br_calls s = [(CallWrite, [1, 8, 0]), (CallWrite, [1, 8, 0]), (CallActive, [1, 8]), (CallActive, [0, 0])]" by auto
  have "added writeCounter (made s) = 2" by (simp add: made_def s(4,5) observe_defs f64_of_int_exact)
  with s(1-3) show ?thesis by blast
qed

end
