(* ===== verification/Collector_Spec.thy ===== *)
theory Collector_Spec
  imports Batch_Metrics
begin

text \<open>
  The interfaces of \<open>src/core/metrics/types.go\<close>. The batch collector holds its collector as a value of the interface
  \<open>Collector\<close>, so \<open>report\<close> is written once for all implementations: an implementation is a record of the methods,
  functions on a state of its own. The locale says what a caller expects of them, the totals that the metrics show;
  with it, batching is correct for every implementation. \<open>Prometheus\<close> is the one of the repository, and with it \<open>report\<close>
  makes the calls that \<open>Batch_Metrics\<close> says.
\<close>

section \<open>The interfaces\<close>

record 'c WriteMetrics =
  wm_ObserveWrite :: "f64 \<Rightarrow> f64 \<Rightarrow> f64 \<Rightarrow> 'c \<Rightarrow> 'c"

record 'c ReadMetrics =
  rm_ObserveRead :: "f64 \<Rightarrow> f64 \<Rightarrow> f64 \<Rightarrow> 'c \<Rightarrow> 'c"

record 'c PoolMetrics =
  am_AllocInc :: "f64 \<Rightarrow> 'c \<Rightarrow> 'c"

record 'c AsyncGoroutineMetrics =
  gm_ObserveAsyncGoroutine :: "int \<Rightarrow> f64 \<Rightarrow> 'c \<Rightarrow> 'c"

record 'c ChannelSwitchMetrics =
  sm_SwitchWithLatency :: "int \<Rightarrow> f64 \<Rightarrow> f64 \<Rightarrow> 'c \<Rightarrow> 'c"

record 'c ActiveChannelMetrics =
  cm_ObserveActive :: "f64 \<Rightarrow> f64 \<Rightarrow> 'c \<Rightarrow> 'c"

record 'c ChannelMetrics =
  ch_switch :: "'c ChannelSwitchMetrics"
  ch_active :: "'c ActiveChannelMetrics"

record 'c Collector =
  co_CollectSwitcher :: "bool \<Rightarrow> 'c \<Rightarrow> 'c"
  co_write :: "'c WriteMetrics"
  co_read :: "'c ReadMetrics"
  co_pool :: "'c PoolMetrics"
  co_async :: "'c AsyncGoroutineMetrics"
  co_channel :: "'c ChannelMetrics"

section \<open>The batch collector over any implementation\<close>

definition NewBatchCollector_for :: "'c Collector \<Rightarrow> 'c \<Rightarrow> 'c batch_collector" where
  "NewBatchCollector_for C mc =
     \<lparr>bc_w = \<lparr>wi_writeCounts = 0, wi_writeSizes = 0, wi_writeErrors = 0, wi_activeChannelDataCounts = 0,
              wi_activeChannelDataSizes = 0\<rparr>,
      bc_r = \<lparr>ri_readCounts = 0, ri_readSizes = 0, ri_readErrors = 0\<rparr>,
      bc_sp = \<lparr>si_asyncWorkerIncCounts = 0, si_asyncWorkerDecCounts = 0, si_poolAlloc = 0, si_switchCounts = 0,
               si_switchLatency = 0, si_skipSwitchCounts = 0\<rparr>,
      bc_mc = co_CollectSwitcher C True mc, bc_sem = False\<rparr>"

definition report_to_write :: "'c Collector \<Rightarrow> 'c batch_collector \<Rightarrow> 'c batch_collector" where
  "report_to_write C b =
     (let w = bc_w b;
          mc1 = wm_ObserveWrite (co_write C) (f64_of_int (wi_writeCounts w)) (f64_of_int (wi_writeSizes w))
                  (f64_of_int (wi_writeErrors w)) (bc_mc b);
          mc2 = cm_ObserveActive (ch_active (co_channel C)) (f64_of_int (wi_activeChannelDataCounts w))
                  (f64_of_int (wi_activeChannelDataSizes w)) mc1
      in b\<lparr>bc_mc := mc2, bc_w := Write_Reset w\<rparr>)"

definition report_to_read :: "'c Collector \<Rightarrow> 'c batch_collector \<Rightarrow> 'c batch_collector" where
  "report_to_read C b =
     (let r = bc_r b;
          mc1 = rm_ObserveRead (co_read C) (f64_of_int (ri_readCounts r)) (f64_of_int (ri_readSizes r))
                  (f64_of_int (ri_readErrors r)) (bc_mc b)
      in b\<lparr>bc_mc := mc1, bc_r := Read_Reset r\<rparr>)"

definition report_to_supporting :: "'c Collector \<Rightarrow> 'c batch_collector \<Rightarrow> 'c batch_collector" where
  "report_to_supporting C b =
     (let s = bc_sp b; async = gm_ObserveAsyncGoroutine (co_async C); switch = sm_SwitchWithLatency (ch_switch (co_channel C));
          mc1 = async MetricsIncOp (f64_of_int (si_asyncWorkerIncCounts s)) (bc_mc b);
          mc2 = async MetricsDecOp (f64_of_int (si_asyncWorkerDecCounts s)) mc1;
          mc3 = am_AllocInc (co_pool C) (f64_of_int (si_poolAlloc s)) mc2;
          mc4 = switch SwitchSuccess (f64_of_int (si_switchCounts s)) (f64_of_int (si_switchLatency s)) mc3;
          mc5 = switch SwitchSkip (f64_of_int (si_skipSwitchCounts s)) (Fin 0) mc4
      in b\<lparr>bc_mc := mc5, bc_sp := Supporting_Reset s\<rparr>)"

definition report_to :: "'c Collector \<Rightarrow> 'c batch_collector \<Rightarrow> 'c batch_collector" where
  "report_to C b = report_to_supporting C (report_to_read C (report_to_write C b))"

text \<open>The methods of the interface \<open>Recorder\<close>, which never touch the collector, and the report.\<close>

fun record_event :: "event \<Rightarrow> 'c batch_collector \<Rightarrow> 'c batch_collector" where
  "record_event (EvWrite n err) b = RecordWrite n err b"
| "record_event (EvRead c n err) b = RecordRead c n err b"
| "record_event (EvSwitch st l) b = RecordSwitch st l b"
| "record_event (EvWorker op) b = ObserveAsyncWorker op b"
| "record_event EvAlloc b = RecordPoolAlloc b"
| "record_event EvReport b = b"

definition handle_to :: "'c Collector \<Rightarrow> event \<Rightarrow> 'c batch_collector \<Rightarrow> 'c batch_collector" where
  "handle_to C e b = (if e = EvReport then report_to C b else record_event e b)"

definition handle_all_to :: "'c Collector \<Rightarrow> event list \<Rightarrow> 'c batch_collector \<Rightarrow> 'c batch_collector" where
  "handle_all_to C es b = fold (handle_to C) es b"

lemma record_event_pending:
  assumes "m \<in> counted" "e \<noteq> EvReport" "\<bar>pending_value m b + weight m e\<bar> \<le> 2 ^ 53"
  shows "pending_value m (record_event e b) = pending_value m b + weight m e \<and> bc_mc (record_event e b) = bc_mc b"
proof -
  have w: "wrap64 (pending_value m b + weight m e) = pending_value m b + weight m e"
    using assms(3) by (simp add: abs_le_iff)
  then show ?thesis
    using assms(1,2)
    by (cases e; cases m)
       (auto simp: counted_def RecordWrite_def RecordRead_def RecordSwitch_def ObserveAsyncWorker_def
          RecordPoolAlloc_def Let_def SwitchSuccess_def SwitchSkip_def SwitchFailure_def split: option.splits)
qed

section \<open>The contract\<close>

definition finite_part :: "f64 \<Rightarrow> rat" where
  "finite_part v = (case v of Fin x \<Rightarrow> x | _ \<Rightarrow> 0)"

lemma finite_part_int: "\<bar>n\<bar> \<le> 2 ^ 53 \<Longrightarrow> finite_part (f64_of_int n) = of_int n"
  by (simp add: finite_part_def f64_of_int_exact)

text \<open>
  \<open>shown m c\<close> is what the metric \<open>m\<close> shows in the state \<open>c\<close>, and \<open>on c\<close> says that collecting is switched on. Each method
  adds its arguments to its own metrics and to no other of those that count, and leaves the switch alone.
\<close>

locale metrics_collector =
  fixes C :: "'c Collector"
    and shown :: "metric \<Rightarrow> 'c \<Rightarrow> rat"
    and on :: "'c \<Rightarrow> bool"
  assumes switched_on: "on (co_CollectSwitcher C True c)"
    and switch_total: "m \<in> counted \<Longrightarrow> shown m (co_CollectSwitcher C True c) = shown m c"
    and write_on: "on (wm_ObserveWrite (co_write C) x y z c) = on c"
    and write_total: "m \<in> counted \<Longrightarrow> on c \<Longrightarrow> shown m (wm_ObserveWrite (co_write C) x y z c) =
      shown m c + (if m = writeCounter then finite_part x else if m = writeSizes then finite_part y
                   else if m = writeErrors then finite_part z else 0)"
    and active_on: "on (cm_ObserveActive (ch_active (co_channel C)) x y c) = on c"
    and active_total: "m \<in> counted \<Longrightarrow> shown m (cm_ObserveActive (ch_active (co_channel C)) x y c) = shown m c"
    and read_on: "on (rm_ObserveRead (co_read C) x y z c) = on c"
    and read_total: "m \<in> counted \<Longrightarrow> on c \<Longrightarrow> shown m (rm_ObserveRead (co_read C) x y z c) =
      shown m c + (if m = readCounter then finite_part x else if m = readSizes then finite_part y
                   else if m = readErrors then finite_part z else 0)"
    and async_on: "on (gm_ObserveAsyncGoroutine (co_async C) op x c) = on c"
    and async_total: "m \<in> counted \<Longrightarrow> shown m (gm_ObserveAsyncGoroutine (co_async C) op x c) = shown m c"
    and alloc_on: "on (am_AllocInc (co_pool C) x c) = on c"
    and alloc_total: "m \<in> counted \<Longrightarrow> on c \<Longrightarrow> shown m (am_AllocInc (co_pool C) x c) =
      shown m c + (if m = poolAlloc then finite_part x else 0)"
    and latency_on: "on (sm_SwitchWithLatency (ch_switch (co_channel C)) st x y c) = on c"
    and latency_total: "m \<in> counted \<Longrightarrow> on c \<Longrightarrow> shown m (sm_SwitchWithLatency (ch_switch (co_channel C)) st x y c) =
      shown m c + (if m = switchCounts \<and> st = SwitchSuccess then finite_part x else 0)"
begin

lemmas method_laws =
  write_on write_total active_on active_total read_on read_total async_on async_total alloc_on alloc_total
  latency_on latency_total

lemma report_total:
  assumes "m \<in> counted" "on (bc_mc b)" "\<bar>pending_value m b\<bar> \<le> 2 ^ 53"
  shows "shown m (bc_mc (report_to C b)) = shown m (bc_mc b) + of_int (pending_value m b) \<and>
    on (bc_mc (report_to C b)) \<and> pending_value m (report_to C b) = 0"
  using assms finite_part_int [of "pending_value m b"]
  by (auto simp: counted_def report_to_def report_to_write_def report_to_read_def report_to_supporting_def Let_def
      method_laws Write_Reset_def Read_Reset_def Supporting_Reset_def SwitchSuccess_def SwitchSkip_def)

lemma handle_total:
  assumes "m \<in> counted" "on (bc_mc b)" "0 \<le> pending_value m b" "0 \<le> weight m e" "pending_value m b + weight m e \<le> 2 ^ 53"
  shows "shown m (bc_mc (handle_to C e b)) + of_int (pending_value m (handle_to C e b)) =
      shown m (bc_mc b) + of_int (pending_value m b + weight m e) \<and>
    on (bc_mc (handle_to C e b)) \<and> 0 \<le> pending_value m (handle_to C e b) \<and>
    pending_value m (handle_to C e b) \<le> pending_value m b + weight m e"
proof (cases "e = EvReport")
  case True
  have "weight m EvReport = 0" using assms(1) by (auto simp: counted_def)
  then show ?thesis using True report_total [OF assms(1,2)] assms(3-5) by (simp add: handle_to_def)
next
  case False
  then show ?thesis using record_event_pending [OF assms(1) False, of b] assms(2-5) by (simp add: handle_to_def)
qed

lemma handle_all_total:
  assumes "m \<in> counted" "on (bc_mc b)" "0 \<le> pending_value m b" "\<forall>e \<in> set es. 0 \<le> weight m e"
    "pending_value m b + sum_list (map (weight m) es) \<le> 2 ^ 53"
  shows "shown m (bc_mc (handle_all_to C es b)) + of_int (pending_value m (handle_all_to C es b)) =
      shown m (bc_mc b) + of_int (pending_value m b + sum_list (map (weight m) es)) \<and>
    on (bc_mc (handle_all_to C es b)) \<and> 0 \<le> pending_value m (handle_all_to C es b) \<and>
    pending_value m (handle_all_to C es b) \<le> pending_value m b + sum_list (map (weight m) es)"
  using assms
proof (induction es arbitrary: b)
  case Nil
  then show ?case by (simp add: handle_all_to_def)
next
  case (Cons e es)
  have "0 \<le> weight m e" "0 \<le> sum_list (map (weight m) es)" using Cons.prems(4) by (auto intro!: sum_list_nonneg)
  then have h: "shown m (bc_mc (handle_to C e b)) + of_int (pending_value m (handle_to C e b)) =
      shown m (bc_mc b) + of_int (pending_value m b + weight m e)" "on (bc_mc (handle_to C e b))"
    "0 \<le> pending_value m (handle_to C e b)" "pending_value m (handle_to C e b) \<le> pending_value m b + weight m e"
    using handle_total [OF Cons.prems(1-3), of e] Cons.prems(5) by auto
  then show ?case
    using Cons.IH [OF Cons.prems(1) h(2,3)] Cons.prems(4,5) by (simp add: handle_all_to_def)
qed

end

section \<open>Prometheus\<close>

text \<open>The collector of the repository; its state has the calls made so far on the metric objects.\<close>

definition Prometheus_methods :: "(prometheus \<times> metric_call list) Collector" where
  "Prometheus_methods =
     \<lparr>co_CollectSwitcher = (\<lambda>enable (p, tr). (CollectSwitcher enable p, tr)),
      co_write = \<lparr>wm_ObserveWrite = (\<lambda>x y z (p, tr). (p, tr @ ObserveWrite x y z p))\<rparr>,
      co_read = \<lparr>rm_ObserveRead = (\<lambda>x y z (p, tr). (p, tr @ ObserveRead x y z p))\<rparr>,
      co_pool = \<lparr>am_AllocInc = (\<lambda>x (p, tr). (p, tr @ AllocInc x p))\<rparr>,
      co_async = \<lparr>gm_ObserveAsyncGoroutine = (\<lambda>op x (p, tr). (p, tr @ ObserveAsyncGoroutine op x p))\<rparr>,
      co_channel =
        \<lparr>ch_switch = \<lparr>sm_SwitchWithLatency = (\<lambda>st x y (p, tr). (p, tr @ SwitchWithLatency st x y p))\<rparr>,
         ch_active = \<lparr>cm_ObserveActive = (\<lambda>x y (p, tr). (p, tr @ ObserveActive x y p))\<rparr>\<rparr>\<rparr>"

definition trace_total :: "metric \<Rightarrow> prometheus \<times> metric_call list \<Rightarrow> rat" where
  "trace_total m c = added m (snd c)"

definition switched :: "prometheus \<times> metric_call list \<Rightarrow> bool" where
  "switched c = pm_enabled (fst c)"

lemma added1_Add: "added1 m (Add m' v) = (if m = m' then finite_part v else 0)"
  by (simp add: finite_part_def)

lemma Prometheus_method_simps:
  "co_CollectSwitcher Prometheus_methods enable c = (CollectSwitcher enable (fst c), snd c)"
  "wm_ObserveWrite (co_write Prometheus_methods) x y z c = (fst c, snd c @ ObserveWrite x y z (fst c))"
  "rm_ObserveRead (co_read Prometheus_methods) x y z c = (fst c, snd c @ ObserveRead x y z (fst c))"
  "am_AllocInc (co_pool Prometheus_methods) x c = (fst c, snd c @ AllocInc x (fst c))"
  "gm_ObserveAsyncGoroutine (co_async Prometheus_methods) op x c = (fst c, snd c @ ObserveAsyncGoroutine op x (fst c))"
  "sm_SwitchWithLatency (ch_switch (co_channel Prometheus_methods)) st x y c =
     (fst c, snd c @ SwitchWithLatency st x y (fst c))"
  "cm_ObserveActive (ch_active (co_channel Prometheus_methods)) x y c = (fst c, snd c @ ObserveActive x y (fst c))"
  by (simp_all add: Prometheus_methods_def split_beta)

text \<open>What a method adds to a metric that counts.\<close>

lemma Prometheus_added:
  assumes "m \<in> counted"
  shows "added m (ObserveActive x y p) = 0" "added m (ObserveAsyncGoroutine op x p) = 0"
    "pm_enabled p \<Longrightarrow> added m (AllocInc x p) = (if m = poolAlloc then finite_part x else 0)"
    "pm_enabled p \<Longrightarrow> added m (SwitchWithLatency st x y p) =
      (if m = switchCounts \<and> st = SwitchSuccess then finite_part x else 0)"
    "pm_enabled p \<Longrightarrow> added m (ObserveWrite x y z p) =
      (if m = writeCounter then finite_part x else if m = writeSizes then finite_part y
       else if m = writeErrors then finite_part z else 0)"
    "pm_enabled p \<Longrightarrow> added m (ObserveRead x y z p) =
      (if m = readCounter then finite_part x else if m = readSizes then finite_part y
       else if m = readErrors then finite_part z else 0)"
  using assms
  by (auto simp: counted_def observe_defs added1_Add SwitchSuccess_def SwitchFailure_def simp del: added1.simps(1))

interpretation prom: metrics_collector Prometheus_methods trace_total switched
  by unfold_locales
    (simp_all add: Prometheus_method_simps trace_total_def switched_def CollectSwitcher_def Prometheus_added)

text \<open>The batch collector over Prometheus is the one of \<open>Batch_Metrics\<close>.\<close>

definition with_trace :: "prometheus batch_collector \<Rightarrow> metric_call list \<Rightarrow> (prometheus \<times> metric_call list) batch_collector" where
  "with_trace b tr = \<lparr>bc_w = bc_w b, bc_r = bc_r b, bc_sp = bc_sp b, bc_mc = (bc_mc b, tr), bc_sem = bc_sem b\<rparr>"

lemma record_with_trace: "e \<noteq> EvReport \<Longrightarrow> record_event e (with_trace b tr) = with_trace (snd (handle e b)) tr"
  by (cases e) (auto simp: with_trace_def RecordWrite_def RecordRead_def RecordSwitch_def ObserveAsyncWorker_def
      RecordPoolAlloc_def Let_def)

lemma report_with_trace: "report_to Prometheus_methods (with_trace b tr) = with_trace (snd (report b)) (tr @ fst (report b))"
  by (simp add: with_trace_def report_to_def report_to_write_def report_to_read_def report_to_supporting_def Let_def
      Prometheus_methods_def report_def report_write_def report_read_def report_supporting_def Write_Reset_def
      Read_Reset_def Supporting_Reset_def)

theorem prometheus_batches:
  "handle_all_to Prometheus_methods es (with_trace b tr) =
     with_trace (snd (handle_all es b)) (tr @ fst (handle_all es b))"
proof (induction es arbitrary: b tr)
  case Nil
  then show ?case by (simp add: handle_all_to_def)
next
  case (Cons e es)
  have "handle_to Prometheus_methods e (with_trace b tr) = with_trace (snd (handle e b)) (tr @ fst (handle e b))"
  proof (cases "e = EvReport")
    case True
    then show ?thesis by (simp add: handle_to_def report_with_trace)
  next
    case False
    moreover have "fst (handle e b) = []" using False by (cases e) simp_all
    ultimately show ?thesis by (simp add: handle_to_def record_with_trace)
  qed
  then show ?case using Cons.IH by (simp add: handle_all_to_def split_beta)
qed

section \<open>Properties\<close>



end
