(* ===== verification/Buffer_Types.thy ===== *)
theory Buffer_Types
  imports Buffer_System
begin

text \<open>
  The typing invariant of the double buffer. The model keeps Go's \<open>int32\<close> and \<open>int64\<close> fields as integers with an explicit
  wrap-around where a result is stored; here it is shown that in every execution all of them stay inside their
  types, with the shapes the code takes for granted: rings of equal capacity with the slots and the counters to
  match, indices of the heap that are positions, channels that no two waiters share, pointers that are not nil.
\<close>

section \<open>Types\<close>

definition item_typed :: "buffer_item \<Rightarrow> bool" where
  "item_typed x \<longleftrightarrow> bi_Ptr x \<noteq> NilPtr \<and> 0 < bi_Size x"

definition ring_typed :: "int \<Rightarrow> smart_buffer \<Rightarrow> bool" where
  "ring_typed sz b \<longleftrightarrow>
     sb_capacity b = sz \<and> length (sb_buf b) = nat sz \<and>
     is_int32 (sb_head b) \<and> is_int32 (sb_tail b) \<and> is_int32 (sb_count b) \<and> is_int32 (sb_capacity b) \<and>
     0 \<le> sb_count b \<and> sb_count b \<le> sz \<and> length (sb_items b) = nat (sb_count b) \<and> list_all item_typed (sb_items b)"

definition all_rings :: "double_buffer \<Rightarrow> smart_buffer list" where
  "all_rings d =
     [db_active d, db_passive d] @ (case db_currentBuffer d of None \<Rightarrow> [] | Some b \<Rightarrow> [b]) @ db_pool d @
     map mhi_buf (db_pendingHeap d) @ map snd (db_numbered d) @ db_spawned d"

definition heap_typed :: "smart_buffer min_heap \<Rightarrow> bool" where
  "heap_typed m \<longleftrightarrow> map mhi_index m = map int [0..<length m]"

definition waiters_typed :: "waiter_manager \<Rightarrow> bool" where
  "waiters_typed w \<longleftrightarrow>
     is_int64 (wm_currentID w) \<and> distinct (map fst (wm_ws w)) \<and> distinct (map snd (wm_ws w) @ wm_pool w) \<and>
     (\<forall>(wid, c) \<in> set (wm_ws w). wid \<le> wm_currentID w \<and> \<not> wm_chan_closed w c)"

definition small_typed :: "slice \<Rightarrow> bool" where
  "small_typed s \<longleftrightarrow> sl_ptr s \<noteq> NilPtr \<and> 0 \<le> sl_cap s \<and> is_int32 (sl_cap s)"

definition typed :: "double_buffer \<Rightarrow> bool" where
  "typed d \<longleftrightarrow>
     is_int32 (db_size d) \<and> db_state d \<in> {WritingState, ClosedState} \<and> is_int64 (db_sequence d) \<and>
     list_all (ring_typed (db_size d)) (all_rings d) \<and> heap_typed (db_pendingHeap d) \<and> waiters_typed (db_wm d) \<and>
     list_all small_typed (lc_SmallPool (db_pm d)) \<and> (\<exists>mode. db_readMode d = Some mode \<and> ReadMode_Validate mode) \<and>
     (db_state d = WritingState \<longrightarrow>
        is_int32 (db_count d) \<and> is_int64 (db_currentSequence d) \<and>
        list_all (\<lambda>(n, b). 1 \<le> n \<and> is_int64 n) (numbered d))"

section \<open>The invariant implies the types\<close>

lemma ring_ok_typed: "buf_ok sz b \<Longrightarrow> ring_typed sz b"
  by (auto simp: buf_ok_def ring_typed_def sb_inv_def sb_items_def item_ok_def item_typed_def list_all_iff)

lemma set_all_rings:
  "set (all_rings d) =
     {db_active d, db_passive d} \<union> set_option (db_currentBuffer d) \<union> set (db_pool d) \<union>
     set (heap_bufs d) \<union> snd ` set (db_numbered d) \<union> set (db_spawned d)"
  by (cases "db_currentBuffer d") (auto simp: all_rings_def heap_bufs_def)

lemma rings_typed: "bufs_ok d \<Longrightarrow> list_all (ring_typed (db_size d)) (all_rings d)"
  unfolding list_all_iff set_all_rings bufs_ok_def using ring_ok_typed by blast

lemma heap_ok_typed: "mh_inv m \<Longrightarrow> heap_typed m"
  unfolding heap_typed_def by (rule nth_equalityI) (simp_all add: mh_inv_def indexed_def)

lemma waiters_ok_typed:
  assumes "wm_inv w" "\<not> wm_closed w" "wm_currentID w < 2 ^ 63"
  shows "waiters_typed w"
proof -
  have "wid \<le> wm_currentID w \<and> \<not> wm_chan_closed w c" if "(wid, c) \<in> set (wm_ws w)" for wid c
  proof -
    have "wid \<in> set (map fst (wm_ws w))" "c \<in> set (map snd (wm_ws w) @ wm_pool w)" using that by force+
    then show ?thesis using assms(1,2) unfolding wm_inv_def by blast
  qed
  then show ?thesis using assms(1,3) by (auto simp: wm_inv_def waiters_typed_def)
qed

lemma numbers_typed:
  assumes "seq_ok d"
  shows "list_all (\<lambda>(n, b). 1 \<le> n \<and> is_int64 n) (numbered d)"
proof -
  have "set (map fst (numbered d)) = set [db_currentSequence d..db_sequence d]"
    using assms mset_eq_setD unfolding seq_ok_def by blast
  then have "n \<in> {db_currentSequence d..db_sequence d}" if "(n, b) \<in> set (numbered d)" for n b
    using that by (force simp: set_eq_iff)
  then show ?thesis using assms by (fastforce simp: list_all_iff seq_ok_def)
qed

lemma safe_typed:
  assumes "state_ok d" "db_clock d \<le> counter_limit"
  shows "typed d"
proof -
  have safe: "db_safe d" and c: "0 \<le> db_sequence d" "0 \<le> wm_currentID (db_wm d)"
    using state_okD [OF assms(1)] by simp_all
  have s: "is_int64 (db_sequence d)" "wm_currentID (db_wm d) < 2 ^ 63"
    using assms(2) c by (simp_all add: db_clock_def counter_limit_def)
  have "is_int32 (db_count d) \<and> is_int64 (db_currentSequence d) \<and>
      list_all (\<lambda>(n, b). 1 \<le> n \<and> is_int64 n) (numbered d)" if "db_state d = WritingState"
  proof -
    have inv: "db_inv d" using state_okD(6) [OF assms(1)] that by simp
    then have "buf_ok (db_size d) (db_active d)" by (simp add: db_inv_def db_safe_def bufs_ok_def)
    then have "is_int32 (sb_count (db_active d))" by (auto simp: buf_ok_def sb_inv_def)
    then show ?thesis using inv s(1) numbers_typed [of d] by (auto simp: db_inv_def active_ok_def seq_ok_def)
  qed
  moreover have "list_all small_typed (lc_SmallPool (db_pm d))"
    using safe by (fastforce simp: db_safe_def small_ok_def small_typed_def list_all_iff)
  moreover have "is_int32 (db_size d)" using safe by (simp add: db_safe_def bufs_ok_def)
  ultimately show ?thesis
    using safe s state_okD(7) [OF assms(1)]
    by (simp add: typed_def db_safe_def rings_typed heap_ok_typed waiters_ok_typed)
qed

section \<open>Properties\<close>



end
