(* ===== verification/Sys_Collectors.thy ===== *)
theory Sys_Collectors
  imports Float64 "HOL-Library.Sublist"
begin

text \<open>
  \<open>src/metrics/collector.go\<close> and the data of \<open>src/metrics/metrics.go\<close>: the collectors of CPU, run-time,
  memory, network and disk figures. What \<open>gopsutil\<close> and the run-time return is an argument of each
  \<open>Collect\<close>; an error is \<open>None\<close>, or a text where the text is used. \<open>uint64\<close> and \<open>uint32\<close> are words.
\<close>

section \<open>Data\<close>

record cpu_states =
  cpu_Usage :: f64
  cpu_User :: f64
  cpu_System :: f64
  cpu_Idle :: f64
  cpu_Load1 :: f64
  cpu_Load5 :: f64
  cpu_Load15 :: f64

record memory_states =
  ms_Total :: "64 word"
  ms_Used :: "64 word"
  ms_Free :: "64 word"
  ms_UsedPercent :: f64
  ms_Cached :: "64 word"
  ms_Buffers :: "64 word"

record interface_stats =
  is_BytesSent :: "64 word"
  is_BytesRecv :: "64 word"
  is_PacketsSent :: "64 word"
  is_PacketsRecv :: "64 word"

record net_io_counters =
  nc_Name :: string
  nc_BytesSent :: "64 word"
  nc_BytesRecv :: "64 word"
  nc_PacketsSent :: "64 word"
  nc_PacketsRecv :: "64 word"

record 'c network_states =
  ns_Connections :: "'c list"
  ns_IOCounters :: "net_io_counters list"
  ns_TotalBytesSent :: "64 word"
  ns_TotalBytesRecv :: "64 word"
  ns_TotalPacketsSent :: "64 word"
  ns_TotalPacketsRecv :: "64 word"
  ns_InterfaceStats :: "string \<rightharpoonup> interface_stats"

record runtime_states =
  rt_Goroutines :: "64 word"
  rt_HeapAlloc :: "64 word"
  rt_StackAlloc :: "64 word"
  rt_GCNums :: "64 word"
  rt_GCPause :: "64 word"

record disk_io_stats =
  io_DiskName :: string
  io_ReadCountPerSec :: f64
  io_WriteCountPerSec :: f64
  io_ReadBytesPerSec :: f64
  io_WriteBytesPerSec :: f64
  io_ReadTimePerSec :: f64
  io_WriteTimePerSec :: f64
  io_UtilizationPercent :: f64

record partition_state =
  pt_Device :: string
  pt_MountPoint :: string
  pt_FsType :: string
  pt_Options :: string
  pt_Total :: "64 word"
  pt_Used :: "64 word"
  pt_Free :: "64 word"
  pt_UsedPercent :: f64
  pt_InodesTotal :: "64 word"
  pt_InodesUsed :: "64 word"
  pt_InodesFree :: "64 word"
  pt_ReadOnly :: bool

record disk_states =
  ds_Timestamp :: int
  ds_Partitions :: "partition_state list"
  ds_TotalIO :: disk_io_stats
  ds_PerDiskIO :: "string \<rightharpoonup> disk_io_stats"
  ds_Errors :: "string list"

section \<open>What the collectors are given\<close>

record times_stat =
  tm_User :: f64
  tm_System :: f64
  tm_Idle :: f64

record avg_stat =
  av_Load1 :: f64
  av_Load5 :: f64
  av_Load15 :: f64

record mem_stats =
  rm_HeapAlloc :: "64 word"
  rm_StackInuse :: "64 word"
  rm_NumGC :: "32 word"
  rm_PauseNs :: "64 word list"

record virtual_memory =
  vm_Total :: "64 word"
  vm_Used :: "64 word"
  vm_Free :: "64 word"
  vm_UsedPercent :: f64
  vm_Cached :: "64 word"
  vm_Buffers :: "64 word"

record partition_stat =
  ps_Device :: string
  ps_Mountpoint :: string
  ps_Fstype :: string
  ps_Opts :: "string list"

record usage_stat =
  us_Total :: "64 word"
  us_Used :: "64 word"
  us_Free :: "64 word"
  us_UsedPercent :: f64
  us_InodesTotal :: "64 word"
  us_InodesUsed :: "64 word"
  us_InodesFree :: "64 word"

record io_counters =
  ic_ReadCount :: "64 word"
  ic_WriteCount :: "64 word"
  ic_ReadBytes :: "64 word"
  ic_WriteBytes :: "64 word"
  ic_ReadTime :: "64 word"
  ic_WriteTime :: "64 word"
  ic_IoTime :: "64 word"

type_synonym io_map = "string \<rightharpoonup> io_counters"

section \<open>CPU\<close>

definition percentBase :: f64 where "percentBase = Fin 100"
definition milliseconds :: f64 where "milliseconds = Fin 1000"

definition f64_gt :: "f64 \<Rightarrow> f64 \<Rightarrow> bool" where
  "f64_gt x y \<longleftrightarrow> f64_ge x y \<and> \<not> f64_ge y x"

definition zero_cpu :: cpu_states where
  "zero_cpu = \<lparr>cpu_Usage = Fin 0, cpu_User = Fin 0, cpu_System = Fin 0, cpu_Idle = Fin 0, cpu_Load1 = Fin 0,
     cpu_Load5 = Fin 0, cpu_Load15 = Fin 0\<rparr>"

definition cpu_times :: "times_stat list option \<Rightarrow> cpu_states \<Rightarrow> cpu_states" where
  "cpu_times timeStates c =
     (case timeStates of
        Some (state # _) \<Rightarrow>
          let total = f64_add (f64_add (tm_User state) (tm_System state)) (tm_Idle state)
          in if f64_gt total (Fin 0)
             then c\<lparr>cpu_User := f64_mul (f64_div (tm_User state) total) percentBase,
                    cpu_System := f64_mul (f64_div (tm_System state) total) percentBase,
                    cpu_Idle := f64_mul (f64_div (tm_Idle state) total) percentBase\<rparr>
             else c
      | _ \<Rightarrow> c)"

definition cpu_load :: "avg_stat option \<Rightarrow> cpu_states \<Rightarrow> cpu_states" where
  "cpu_load avg c =
     (case avg of
        Some a \<Rightarrow> c\<lparr>cpu_Load1 := av_Load1 a, cpu_Load5 := av_Load5 a, cpu_Load15 := av_Load15 a\<rparr>
      | None \<Rightarrow> c)"

definition CPU_Collect ::
    "f64 list option \<Rightarrow> times_stat list option \<Rightarrow> avg_stat option \<Rightarrow> cpu_states go" where
  "CPU_Collect percs timeStates avg =
     (case percs of
        None \<Rightarrow> Inr zero_cpu
      | Some [] \<Rightarrow> Inl IndexOutOfRange
      | Some (p # _) \<Rightarrow> Inr (cpu_load avg (cpu_times timeStates (zero_cpu\<lparr>cpu_Usage := p\<rparr>))))"

section \<open>Run-time\<close>

definition gc_pause :: "mem_stats \<Rightarrow> 64 word go" where
  "gc_pause m =
     (if rm_NumGC m = 0 then Inr 0
      else let n = (of_nat (length (rm_PauseNs m)) :: 32 word)
           in if n = 0 then Inl IntegerDivideByZero
              else let idx = unat ((rm_NumGC m - 1) mod n)
                   in if idx < length (rm_PauseNs m) then Inr (rm_PauseNs m ! idx) else Inl IndexOutOfRange)"

definition Runtime_Collect :: "int \<Rightarrow> mem_stats \<Rightarrow> runtime_states go" where
  "Runtime_Collect numGoroutine m =
     (case gc_pause m of
        Inl p \<Rightarrow> Inl p
      | Inr pause \<Rightarrow>
          Inr \<lparr>rt_Goroutines = of_int numGoroutine, rt_HeapAlloc = rm_HeapAlloc m, rt_StackAlloc = rm_StackInuse m,
               rt_GCNums = ucast (rm_NumGC m), rt_GCPause = pause\<rparr>)"

section \<open>Memory\<close>

definition Memory_Collect :: "virtual_memory option \<Rightarrow> memory_states" where
  "Memory_Collect vms =
     (case vms of
        None \<Rightarrow> \<lparr>ms_Total = 0, ms_Used = 0, ms_Free = 0, ms_UsedPercent = Fin 0, ms_Cached = 0, ms_Buffers = 0\<rparr>
      | Some v \<Rightarrow> \<lparr>ms_Total = vm_Total v, ms_Used = vm_Used v, ms_Free = vm_Free v,
                   ms_UsedPercent = vm_UsedPercent v, ms_Cached = vm_Cached v, ms_Buffers = vm_Buffers v\<rparr>)"

section \<open>Network\<close>

definition net_add :: "net_io_counters \<Rightarrow> 'c network_states \<Rightarrow> 'c network_states" where
  "net_add counter n =
     n\<lparr>ns_TotalBytesSent := ns_TotalBytesSent n + nc_BytesSent counter,
       ns_TotalBytesRecv := ns_TotalBytesRecv n + nc_BytesRecv counter,
       ns_TotalPacketsSent := ns_TotalPacketsSent n + nc_PacketsSent counter,
       ns_TotalPacketsRecv := ns_TotalPacketsRecv n + nc_PacketsRecv counter,
       ns_InterfaceStats := (ns_InterfaceStats n)(nc_Name counter \<mapsto>
         \<lparr>is_BytesSent = nc_BytesSent counter, is_BytesRecv = nc_BytesRecv counter,
          is_PacketsSent = nc_PacketsSent counter, is_PacketsRecv = nc_PacketsRecv counter\<rparr>)\<rparr>"

definition Network_Collect :: "'c list \<Rightarrow> net_io_counters list \<Rightarrow> 'c network_states" where
  "Network_Collect connections ioCounters =
     fold net_add ioCounters
       \<lparr>ns_Connections = connections, ns_IOCounters = ioCounters, ns_TotalBytesSent = 0, ns_TotalBytesRecv = 0,
        ns_TotalPacketsSent = 0, ns_TotalPacketsRecv = 0, ns_InterfaceStats = Map.empty\<rparr>"

section \<open>Disk\<close>

text \<open>\<open>strings.HasPrefix\<close>, \<open>strings.Contains\<close> and \<open>strings.Join\<close>.\<close>

definition HasPrefix :: "string \<Rightarrow> string \<Rightarrow> bool" where
  "HasPrefix s pre \<longleftrightarrow> take (length pre) s = pre"

fun Contains :: "string \<Rightarrow> string \<Rightarrow> bool" where
  "Contains [] sub \<longleftrightarrow> sub = []"
| "Contains (c # s) sub \<longleftrightarrow> HasPrefix (c # s) sub \<or> Contains s sub"

fun Join :: "string list \<Rightarrow> string \<Rightarrow> string" where
  "Join [] sep = []"
| "Join [s] sep = s"
| "Join (s # t # ts) sep = s @ sep @ Join (t # ts) sep"

definition skipFsTypes :: "string list" where
  "skipFsTypes = [''tmpfs'', ''devtmpfs'', ''squashfs'', ''overlay'', ''autofs'', ''cgroup'', ''cgroup2'', ''tracefs'',
     ''debugfs'', ''pstore'', ''bpf'', ''securityfs'', ''configfs'', ''fusectl'', ''hugetlbfs'', ''mqueue'', ''binfmt_misc'']"

definition skipMounts :: "string list" where
  "skipMounts = [''/dev'', ''/proc'', ''/sys'', ''/run'', ''/snap'', ''/sys/kernel'', ''/boot/efi'', ''/sys/fs/cgroup'',
     ''/sys/fs/fuse'', ''/sys/fs/pstore'', ''/sys/fs/bpf'', ''/sys/kernel/debug'', ''/sys/kernel/tracing'',
     ''/proc/sys/fs/binfmt_misc'']"

definition shouldSkipPartition :: "partition_stat \<Rightarrow> bool" where
  "shouldSkipPartition p \<longleftrightarrow>
     ps_Fstype p \<in> set skipFsTypes \<or>
     ps_Mountpoint p \<in> set skipMounts \<or>
     (\<exists>opt \<in> set (ps_Opts p). opt = ''ro'') \<or>
     Contains (ps_Mountpoint p) ''/var/lib/docker'' \<or>
     Contains (ps_Mountpoint p) ''/var/lib/kubelet'' \<or>
     Contains (ps_Mountpoint p) ''/var/lib/lxc'' \<or>
     Contains (ps_Mountpoint p) ''/var/lib/lxd'' \<or>
     Contains (ps_Mountpoint p) ''/var/lib/containers'' \<or>
     HasPrefix (ps_Device p) ''gvfs'' \<or>
     Contains (ps_Device p) ''ram''"

definition zero_io :: disk_io_stats where
  "zero_io = \<lparr>io_DiskName = [], io_ReadCountPerSec = Fin 0, io_WriteCountPerSec = Fin 0, io_ReadBytesPerSec = Fin 0,
     io_WriteBytesPerSec = Fin 0, io_ReadTimePerSec = Fin 0, io_WriteTimePerSec = Fin 0, io_UtilizationPercent = Fin 0\<rparr>"

definition new_disk_states :: "int \<Rightarrow> disk_states" where
  "new_disk_states now = \<lparr>ds_Timestamp = now div 1000000000, ds_Partitions = [], ds_TotalIO = zero_io,
     ds_PerDiskIO = Map.empty, ds_Errors = []\<rparr>"

text \<open>\<open>Sub\<close> saturates; \<open>Seconds\<close> splits off the whole seconds before it converts.\<close>

definition Seconds :: "int \<Rightarrow> f64" where
  "Seconds d = f64_add (f64_of_int (go_quot d 1000000000))
                 (f64_div (f64_of_int (go_rem d 1000000000)) (Fin 1000000000))"

definition elapsed_since :: "int \<Rightarrow> int \<Rightarrow> f64" where
  "elapsed_since now lastCollection =
     (let elapsed = Seconds (max (- (2 ^ 63)) (min (2 ^ 63 - 1) (now - lastCollection)))
      in if f64_ge (Fin 0) elapsed then Fin 1 else elapsed)"

definition add_partition :: "(string \<Rightarrow> string + usage_stat) \<Rightarrow> partition_stat \<Rightarrow> disk_states \<Rightarrow> disk_states" where
  "add_partition usage_of part states =
     (if shouldSkipPartition part then states
      else case usage_of (ps_Mountpoint part) of
             Inl err \<Rightarrow>
               states\<lparr>ds_Errors := ds_Errors states @ [''Usage error ['' @ ps_Mountpoint part @ '']: '' @ err]\<rparr>
           | Inr usage \<Rightarrow>
               let isReadOnly = (\<exists>opt \<in> set (ps_Opts part). opt = ''ro'')
               in states\<lparr>ds_Partitions := ds_Partitions states @
                    [\<lparr>pt_Device = ps_Device part, pt_MountPoint = ps_Mountpoint part,
                      pt_FsType = ps_Fstype part, pt_Options = Join (ps_Opts part) '','',
                      pt_Total = us_Total usage, pt_Used = us_Used usage, pt_Free = us_Free usage,
                      pt_UsedPercent = us_UsedPercent usage, pt_InodesTotal = us_InodesTotal usage,
                      pt_InodesUsed = us_InodesUsed usage, pt_InodesFree = us_InodesFree usage,
                      pt_ReadOnly = isReadOnly\<rparr>]\<rparr>)"

definition delta :: "f64 \<Rightarrow> 64 word \<Rightarrow> 64 word \<Rightarrow> f64" where
  "delta elapsed current prev =
     (if current < prev then f64_div (f64_of_int (uint current)) elapsed
      else f64_div (f64_of_int (uint (current - prev))) elapsed)"

definition skipDisk :: "string \<Rightarrow> bool" where
  "skipDisk diskName \<longleftrightarrow> Contains diskName ''loop'' \<or> HasPrefix diskName ''dm-'' \<or> Contains diskName ''nvme''"

definition disk_rates :: "f64 \<Rightarrow> string \<Rightarrow> io_counters \<Rightarrow> io_counters \<Rightarrow> disk_io_stats" where
  "disk_rates elapsed diskName counters prev =
     (let utilization = f64_div (f64_mul percentBase (f64_of_int (uint (ic_IoTime counters - ic_IoTime prev))))
                          (f64_mul elapsed milliseconds)
      in \<lparr>io_DiskName = diskName,
          io_ReadCountPerSec = delta elapsed (ic_ReadCount counters) (ic_ReadCount prev),
          io_WriteCountPerSec = delta elapsed (ic_WriteCount counters) (ic_WriteCount prev),
          io_ReadBytesPerSec = delta elapsed (ic_ReadBytes counters) (ic_ReadBytes prev),
          io_WriteBytesPerSec = delta elapsed (ic_WriteBytes counters) (ic_WriteBytes prev),
          io_ReadTimePerSec = delta elapsed (ic_ReadTime counters) (ic_ReadTime prev),
          io_WriteTimePerSec = delta elapsed (ic_WriteTime counters) (ic_WriteTime prev),
          io_UtilizationPercent = utilization\<rparr>)"

text \<open>
  The loop over the current counters fills a map with the disk names as keys, so it is a map comprehension.
\<close>

definition per_disk :: "f64 \<Rightarrow> io_map \<Rightarrow> io_map \<Rightarrow> (string \<rightharpoonup> disk_io_stats)" where
  "per_disk elapsed current prevs =
     (\<lambda>diskName.
        if skipDisk diskName then None
        else case (current diskName, prevs diskName) of
               (Some counters, Some prev) \<Rightarrow> Some (disk_rates elapsed diskName counters prev)
             | _ \<Rightarrow> None)"

text \<open>
  \<open>prevs\<close> is the field \<open>prevIOCounters\<close> of the collector, \<open>None\<close> as \<open>lastCollection\<close> the zero time; \<open>io\<close> is the
  result of \<open>disk.IOCounters\<close>, a map and an error.
\<close>

definition Disk_Collect ::
    "int option \<Rightarrow> int \<Rightarrow> partition_stat list \<Rightarrow> (string \<Rightarrow> string + usage_stat) \<Rightarrow> io_map \<times> string option \<Rightarrow>
     io_map \<Rightarrow> disk_states \<times> io_map" where
  "Disk_Collect lastCollection now partitions usage_of io prevs =
     (case lastCollection of
        None \<Rightarrow> (new_disk_states now, fst io)
      | Some last0 \<Rightarrow>
          let elapsed = elapsed_since now last0;
              states = fold (add_partition usage_of) partitions (new_disk_states now)
          in case io of
               (current, Some err) \<Rightarrow>
                 (states\<lparr>ds_Errors := ds_Errors states @ [''IO Counters error: '' @ err]\<rparr>, prevs)
             | (current, None) \<Rightarrow>
                 (states\<lparr>ds_PerDiskIO := per_disk elapsed current prevs\<rparr>, current))"

section \<open>Arithmetic of the rates\<close>

lemma to_f64_nonneg: "0 \<le> x \<Longrightarrow> f64_ge (to_f64 x) (Fin 0)"
proof -
  assume "0 \<le> x"
  then have "0 \<le> round64 x" by (rule round64_nonneg)
  then have "\<not> round64 x \<le> - pow2 1024" using pow2_pos [of 1024] by linarith
  then show ?thesis using \<open>0 \<le> round64 x\<close> by (simp add: to_f64_def Let_def)
qed

lemma of_int_finite:
  assumes "0 \<le> n" "n \<le> 2 ^ 64"
  shows "\<exists>r. f64_of_int n = Fin r \<and> 0 \<le> r \<and> r \<le> pow2 64"
proof -
  have "(of_int n :: rat) \<le> of_int (2 ^ 64)" using assms(2) by (simp only: of_int_le_iff)
  then have le: "(of_int n :: rat) \<le> pow2 64" by (simp add: pow2_def)
  have "pow2 64 \<le> pow2 200" by (rule pow2_mono) simp
  then have "to_f64 (of_int n) = Fin (round64 (of_int n))"
    using le assms(1) by (intro to_f64_finite) simp
  moreover have "round64 (of_int n) \<le> pow2 64"
    using round64_mono [OF le] round64_exact [of 1 64] by simp
  moreover have "0 \<le> round64 (of_int n)" using assms(1) by (intro round64_nonneg) simp
  ultimately show ?thesis by (simp add: f64_of_int_def)
qed

lemma of_uint_finite: "\<exists>r. f64_of_int (uint (w :: 64 word)) = Fin r \<and> 0 \<le> r \<and> r \<le> pow2 64"
  using uint_lt2p [of w] by (intro of_int_finite) simp_all

lemma div_nonneg: "0 \<le> x \<Longrightarrow> f64_gt y (Fin 0) \<Longrightarrow> f64_ge (f64_div (Fin x) y) (Fin 0)"
  by (cases y) (auto simp: f64_gt_def to_f64_nonneg)

lemma go_rem_less: "\<bar>go_rem d 1000000000\<bar> < 1000000000"
  using go_rem_bounds [of 1000000000 d] by auto

lemma go_quot_le: "\<bar>d\<bar> \<le> 2 ^ 63 \<Longrightarrow> \<bar>go_quot d 1000000000\<bar> \<le> 2 ^ 53 - 1"
proof -
  assume d: "\<bar>d\<bar> \<le> 2 ^ 63"
  have "\<bar>go_quot d 1000000000\<bar> \<le> \<bar>d\<bar> div 1000000000" by (simp add: go_quot_def abs_mult sgn_if)
  also have "\<dots> \<le> 2 ^ 63 div 1000000000" using d by (rule zdiv_mono1) simp
  finally show ?thesis by simp
qed

text \<open>\<open>Seconds\<close> of a duration is finite, and for a positive duration at least \<open>2 ^ -30\<close>.\<close>

lemma Seconds_finite:
  assumes "\<bar>d\<bar> \<le> 2 ^ 63"
  shows "Seconds d =
    Fin (round64 (of_int (go_quot d 1000000000) + round64 (of_int (go_rem d 1000000000) / 1000000000)))"
proof -
  let ?q = "go_quot d 1000000000" and ?r = "go_rem d 1000000000"
  let ?x = "of_int ?r / 1000000000 :: rat"
  have r: "f64_of_int ?r = Fin (of_int ?r)" using go_rem_less [of d] by (intro f64_of_int_exact) simp
  have q: "f64_of_int ?q = Fin (of_int ?q)" using go_quot_le [OF assms] by (intro f64_of_int_exact) simp
  have "\<bar>of_int ?r\<bar> \<le> (1000000000 :: rat)"
    using go_rem_less [of d] by (metis less_imp_le of_int_abs of_int_le_iff of_int_numeral)
  then have x: "\<bar>?x\<bar> \<le> 1" by simp
  have big: "(2 ^ 54 :: rat) \<le> pow2 200" using pow2_mono [of 54 200] by (simp add: pow2_def)
  have "\<bar>round64 ?x\<bar> \<le> 1"
    using x round64_numeral_bounds(1) [of 1 ?x] round64_numeral_bounds(2) [of "-1" ?x] by (auto simp: abs_le_iff)
  moreover have "\<bar>of_int ?q :: rat\<bar> \<le> 2 ^ 53 - 1"
  proof -
    have "(of_int \<bar>?q\<bar> :: rat) \<le> of_int (2 ^ 53 - 1)" using go_quot_le [OF assms] by (simp only: of_int_le_iff)
    then show ?thesis by simp
  qed
  ultimately have "\<bar>of_int ?q + round64 ?x\<bar> \<le> pow2 200"
    using big abs_triangle_ineq [of "of_int ?q" "round64 ?x"] by simp
  moreover have "\<bar>?x\<bar> \<le> pow2 200" using x big by simp
  ultimately show ?thesis by (simp add: Seconds_def r q to_f64_finite)
qed

lemma round64_pow2: "round64 (pow2 (- 30)) = pow2 (- 30)"
  using round64_exact [of 1 "-30"] by simp

lemma Seconds_lower:
  assumes "0 < d" "d \<le> 2 ^ 63"
  shows "\<exists>e. Seconds d = Fin e \<and> pow2 (- 30) \<le> e"
proof -
  let ?q = "go_quot d 1000000000" and ?r = "go_rem d 1000000000"
  let ?x = "of_int ?r / 1000000000 :: rat"
  have qr: "0 \<le> ?q" "0 \<le> ?r" "?q * 1000000000 + ?r = d"
    using assms go_quot_rem [of 1000000000 d] by (simp_all add: go_quot_nonneg go_rem_nonneg)
  have small: "pow2 (- 30) \<le> 1 / 1000000000" by (simp add: pow2_def)
  have x0: "0 \<le> round64 ?x" using qr(2) by (intro round64_nonneg) simp
  have "pow2 (- 30) \<le> of_int ?q + round64 ?x"
  proof (cases "?q = 0")
    case True
    then have "1 \<le> ?r" using qr assms(1) by linarith
    then have "pow2 (- 30) \<le> ?x" using small by (simp add: field_simps)
    then have "pow2 (- 30) \<le> round64 ?x" using round64_mono round64_pow2 by metis
    then show ?thesis using True by simp
  next
    case False
    then have "(1 :: rat) \<le> of_int ?q" using qr(1) by simp
    then show ?thesis using x0 small by simp
  qed
  then have "pow2 (- 30) \<le> round64 (of_int ?q + round64 ?x)" using round64_mono round64_pow2 by metis
  then show ?thesis using Seconds_finite [of d] assms by simp
qed

lemma Seconds_nonpositive:
  assumes "d \<le> 0" "- (2 ^ 63) \<le> d"
  shows "f64_ge (Fin 0) (Seconds d)"
proof -
  have "go_quot d 1000000000 \<le> 0" "go_rem d 1000000000 \<le> 0"
    using assms by (auto simp: go_quot_def go_rem_def sgn_if pos_imp_zdiv_nonneg_iff)
  then have "round64 (of_int (go_rem d 1000000000) / 1000000000) \<le> 0"
    by (intro round64_numeral_bounds(1) [of 0, simplified]) simp
  then have "round64 (of_int (go_quot d 1000000000) + round64 (of_int (go_rem d 1000000000) / 1000000000)) \<le> 0"
    using \<open>go_quot d 1000000000 \<le> 0\<close> by (intro round64_numeral_bounds(1) [of 0, simplified]) simp
  then show ?thesis using Seconds_finite [of d] assms by simp
qed

lemma elapsed_bounds: "\<exists>e. elapsed_since now t = Fin e \<and> pow2 (- 30) \<le> e"
proof -
  let ?d = "max (- (2 ^ 63)) (min (2 ^ 63 - 1) (now - t))"
  have d: "- (2 ^ 63) \<le> ?d" "?d \<le> 2 ^ 63" by auto
  have one: "pow2 (- 30) \<le> 1" by (simp add: pow2_def)
  show ?thesis
  proof (cases "0 < ?d")
    case True
    from Seconds_lower [OF this d(2)] show ?thesis using one by (auto simp: elapsed_since_def Let_def)
  next
    case False
    then have "f64_ge (Fin 0) (Seconds ?d)" using d(1) by (intro Seconds_nonpositive) simp_all
    then show ?thesis using one by (simp add: elapsed_since_def Let_def)
  qed
qed

lemma delta_nonneg:
  assumes "0 < e"
  shows "f64_ge (delta (Fin e) c p) (Fin 0)"
proof -
  have "f64_ge (f64_div (f64_of_int (uint w)) (Fin e)) (Fin 0)" for w :: "64 word"
    using of_uint_finite [of w] assms by (auto simp: to_f64_nonneg)
  then show ?thesis by (simp add: delta_def)
qed

lemma utilization_nonneg:
  assumes "pow2 (- 30) \<le> e"
  shows "f64_ge (f64_div (f64_mul percentBase (f64_of_int (uint (w :: 64 word)))) (f64_mul (Fin e) milliseconds)) (Fin 0)"
proof -
  obtain r where r: "f64_of_int (uint w) = Fin r" "0 \<le> r" "r \<le> pow2 64" using of_uint_finite [of w] by blast
  have "100 * r \<le> 100 * pow2 64" using r(3) by simp
  also have "\<dots> \<le> pow2 200" using pow2_mono [of 71 200] by (simp add: pow2_def)
  finally have num: "f64_mul percentBase (f64_of_int (uint w)) = Fin (round64 (100 * r))" "0 \<le> round64 (100 * r)"
    using r(1,2) by (simp_all add: percentBase_def to_f64_finite round64_nonneg)
  have "0 < e" using assms pow2_pos [of "-30"] by linarith
  then have "pow2 (- 30) \<le> e * 1000" using assms by simp
  then have low: "pow2 (- 30) \<le> round64 (e * 1000)" using round64_mono round64_pow2 by metis
  then have pos: "0 < round64 (e * 1000)" using pow2_pos [of "-30"] by linarith
  then have "\<not> round64 (e * 1000) \<le> - pow2 1024" using pow2_pos [of 1024] by linarith
  then have den: "f64_mul (Fin e) milliseconds = PInf \<or> f64_mul (Fin e) milliseconds = Fin (round64 (e * 1000))"
    by (simp add: milliseconds_def to_f64_def Let_def)
  then show ?thesis using num pos by (auto simp: to_f64_nonneg)
qed

definition nonneg_rates :: "disk_io_stats \<Rightarrow> bool" where
  "nonneg_rates st \<longleftrightarrow>
     f64_ge (io_ReadCountPerSec st) (Fin 0) \<and> f64_ge (io_WriteCountPerSec st) (Fin 0) \<and>
     f64_ge (io_ReadBytesPerSec st) (Fin 0) \<and> f64_ge (io_WriteBytesPerSec st) (Fin 0) \<and>
     f64_ge (io_ReadTimePerSec st) (Fin 0) \<and> f64_ge (io_WriteTimePerSec st) (Fin 0) \<and>
     f64_ge (io_UtilizationPercent st) (Fin 0)"

section \<open>Shares of the processor time\<close>

text \<open>A non-negative finite value of the format.\<close>

definition time_value :: "f64 \<Rightarrow> bool" where
  "time_value x \<longleftrightarrow> (\<exists>r. x = Fin r \<and> round64 r = r \<and> 0 \<le> r \<and> r < pow2 1024)"

definition percentage :: "f64 \<Rightarrow> bool" where
  "percentage x \<longleftrightarrow> (\<exists>r. x = Fin r \<and> 0 \<le> r \<and> r \<le> 100)"

lemma time_value_add:
  assumes "time_value x" "time_value y"
  shows "f64_add x y = PInf \<or> (time_value (f64_add x y) \<and> f64_ge (f64_add x y) x \<and> f64_ge (f64_add x y) y)"
proof -
  obtain a b where a: "x = Fin a" "round64 a = a" "0 \<le> a" and b: "y = Fin b" "round64 b = b" "0 \<le> b"
    using assms by (auto simp: time_value_def)
  have ge: "a \<le> round64 (a + b)" "b \<le> round64 (a + b)"
    using round64_mono [of a "a + b"] round64_mono [of b "a + b"] a b by simp_all
  have "\<not> round64 (a + b) \<le> - pow2 1024" using ge(1) a(3) pow2_pos [of 1024] by linarith
  moreover have "round64 (round64 (a + b)) = round64 (a + b)" by (rule round64_idem)
  ultimately show ?thesis using a b ge by (auto simp: to_f64_def Let_def time_value_def)
qed

lemma share_percentage:
  assumes "time_value x" "t = PInf \<or> time_value t \<and> f64_ge t x" "f64_gt t (Fin 0)"
  shows "percentage (f64_mul (f64_div x t) percentBase)"
proof -
  obtain a where a: "x = Fin a" "0 \<le> a" using assms(1) by (auto simp: time_value_def)
  have small: "percentage (f64_mul (Fin q) percentBase)" if "0 \<le> q" "q \<le> 1" for q
  proof -
    have "\<bar>q * 100\<bar> \<le> pow2 200" using that pow2_mono [of 7 200] by (simp add: pow2_def)
    then have "f64_mul (Fin q) percentBase = Fin (round64 (q * 100))" by (simp add: percentBase_def to_f64_finite)
    moreover have "round64 (q * 100) \<le> 100" using that round64_numeral_bounds(1) [of 100 "q * 100"] by simp
    ultimately show ?thesis using that by (simp add: percentage_def round64_nonneg)
  qed
  from assms(2) show ?thesis
  proof
    assume "t = PInf"
    then show ?thesis using a small [of 0] by simp
  next
    assume "time_value t \<and> f64_ge t x"
    then obtain b where b: "t = Fin b" "a \<le> b" using a by (auto simp: time_value_def)
    have pos: "0 < b" using assms(3) b by (auto simp: f64_gt_def)
    have q: "0 \<le> a / b" "a / b \<le> 1" using a(2) b(2) pos by simp_all
    have "(1 :: rat) \<le> pow2 200" using pow2_mono [of 0 200] by (simp add: pow2_def [of 0])
    then have "\<bar>a / b\<bar> \<le> pow2 200" using q by (metis abs_of_nonneg order_trans)
    then have "f64_div x t = Fin (round64 (a / b))" using a(1) b(1) pos to_f64_finite by simp
    then show ?thesis
      using small [of "round64 (a / b)"] q round64_nonneg [OF q(1)] round64_numeral_bounds(1) [of 1 "a / b"] by simp
  qed
qed

section \<open>Loops\<close>

definition interface_of :: "net_io_counters \<Rightarrow> interface_stats" where
  "interface_of c = \<lparr>is_BytesSent = nc_BytesSent c, is_BytesRecv = nc_BytesRecv c,
     is_PacketsSent = nc_PacketsSent c, is_PacketsRecv = nc_PacketsRecv c\<rparr>"

lemma net_fold:
  "ns_IOCounters (fold net_add ios n) = ns_IOCounters n"
  "ns_Connections (fold net_add ios n) = ns_Connections n"
  "ns_TotalBytesSent (fold net_add ios n) = ns_TotalBytesSent n + of_int (\<Sum>c\<leftarrow>ios. uint (nc_BytesSent c))"
  "ns_TotalBytesRecv (fold net_add ios n) = ns_TotalBytesRecv n + of_int (\<Sum>c\<leftarrow>ios. uint (nc_BytesRecv c))"
  "ns_TotalPacketsSent (fold net_add ios n) = ns_TotalPacketsSent n + of_int (\<Sum>c\<leftarrow>ios. uint (nc_PacketsSent c))"
  "ns_TotalPacketsRecv (fold net_add ios n) = ns_TotalPacketsRecv n + of_int (\<Sum>c\<leftarrow>ios. uint (nc_PacketsRecv c))"
  "ns_InterfaceStats (fold net_add ios n) name =
     (case find (\<lambda>c. nc_Name c = name) (rev ios) of
        Some c \<Rightarrow> Some (interface_of c) | None \<Rightarrow> ns_InterfaceStats n name)"
  by (induction ios rule: rev_induct)
     (auto simp: net_add_def interface_of_def)

lemma partition_fold:
  "map pt_MountPoint (ds_Partitions (fold (add_partition usage_of) parts st)) =
     map pt_MountPoint (ds_Partitions st) @
     map ps_Mountpoint (filter (\<lambda>p. \<not> shouldSkipPartition p \<and> \<not> isl (usage_of (ps_Mountpoint p))) parts)"
  "(\<forall>p \<in> set (ds_Partitions st). \<not> pt_ReadOnly p) \<Longrightarrow>
     (\<forall>p \<in> set (ds_Partitions (fold (add_partition usage_of) parts st)). \<not> pt_ReadOnly p)"
  "length (ds_Errors (fold (add_partition usage_of) parts st)) =
     length (ds_Errors st) + length (filter (\<lambda>p. \<not> shouldSkipPartition p \<and> isl (usage_of (ps_Mountpoint p))) parts)"
  by (induction parts rule: rev_induct)
     (auto simp: add_partition_def shouldSkipPartition_def Let_def split: sum.splits)

section \<open>Properties\<close>

text \<open>
  C34: the shares of user, system and idle time are percentages. For any finite non-negative times (also
  when their sum overflows to infinity or is rounded), \<open>Collect\<close> does not panic, reports the usage it was
  given and three values between 0 and 100.
\<close>

theorem cpu_shares_are_percentages:
  assumes "time_value (tm_User st)" "time_value (tm_System st)" "time_value (tm_Idle st)"
  shows "\<exists>c. CPU_Collect (Some (p # ps)) (Some (st # sts)) avg = Inr c \<and> cpu_Usage c = p \<and>
    percentage (cpu_User c) \<and> percentage (cpu_System c) \<and> percentage (cpu_Idle c)"
proof -
  let ?us = "f64_add (tm_User st) (tm_System st)" and ?t = "f64_add (f64_add (tm_User st) (tm_System st)) (tm_Idle st)"
  have zero: "percentage (Fin 0)" by (simp add: percentage_def)
  have us: "?us = PInf \<or> (time_value ?us \<and> f64_ge ?us (tm_User st) \<and> f64_ge ?us (tm_System st))"
    by (rule time_value_add [OF assms(1,2)])
  have tot: "?t = PInf \<or> time_value ?t \<and> f64_ge ?t (tm_User st)" "?t = PInf \<or> time_value ?t \<and> f64_ge ?t (tm_System st)"
      "?t = PInf \<or> time_value ?t \<and> f64_ge ?t (tm_Idle st)"
    using us time_value_add [of ?us "tm_Idle st"] assms by (auto simp: time_value_def)
  show ?thesis
    using share_percentage [OF assms(1) tot(1)] share_percentage [OF assms(2) tot(2)] share_percentage [OF assms(3) tot(3)] zero
    by (auto simp: CPU_Collect_def cpu_load_def cpu_times_def zero_cpu_def Let_def split: option.split)
qed

theorem cpu_shares_are_percentages_witness:
  "\<exists>c. CPU_Collect (Some [Fin 7]) (Some [\<lparr>tm_User = Fin 1, tm_System = Fin 2, tm_Idle = Fin 5\<rparr>]) None = Inr c \<and>
     percentage (cpu_User c)"
proof -
  let ?st = "\<lparr>tm_User = Fin 1, tm_System = Fin 2, tm_Idle = Fin 5\<rparr>"
  have tv: "time_value (Fin (of_int k))" if "0 \<le> k" "k \<le> 5" for k
    using that round64_of_int [of k] by (simp add: time_value_def pow2_def)
  have "time_value (tm_User ?st)" "time_value (tm_System ?st)" "time_value (tm_Idle ?st)"
    using tv [of 1] tv [of 2] tv [of 5] by simp_all
  from cpu_shares_are_percentages [OF this, of "Fin 7" "[]" "[]" None] show ?thesis by blast
qed

text \<open>
  The reported pause is the most recent one. With the 256-entry ring of the run-time, \<open>Collect\<close> never
  panics; before the first collection the pause is 0, afterwards it is the entry \<open>(NumGC + 255) % 256\<close> that
  the documentation of the run-time names, also after the \<open>uint32\<close> counter has wrapped around.
\<close>

theorem runtime_latest_pause:
  assumes "length (rm_PauseNs m) = 256"
  shows "\<exists>r. Runtime_Collect n m = Inr r \<and>
    rt_GCPause r = (if rm_NumGC m = 0 then 0 else rm_PauseNs m ! unat ((rm_NumGC m + 255) mod 256))"
proof -
  have "unat ((w - 1) mod 256) < 256" for w :: "32 word"
    by (simp add: unat_mod)
  moreover have "(w - 1) mod 256 = (w + 255) mod 256" for w :: "32 word"
  proof -
    have "take_bit 8 (x + 256) = take_bit 8 x" for x :: "32 word"
      by transfer (simp add: take_bit_eq_mod mod_mod_cancel)
    from this [of "w - 1"] show ?thesis by (simp add: take_bit_eq_mod add.commute)
  qed
  ultimately show ?thesis using assms by (auto simp: Runtime_Collect_def gc_pause_def Let_def)
qed

theorem runtime_latest_pause_witness:
  "\<exists>r. Runtime_Collect 4 \<lparr>rm_HeapAlloc = 0, rm_StackInuse = 0, rm_NumGC = 257, rm_PauseNs = 9 # replicate 255 0\<rparr> = Inr r \<and>
     rt_GCPause r = 9"
  using runtime_latest_pause
    [of "\<lparr>rm_HeapAlloc = 0, rm_StackInuse = 0, rm_NumGC = 257, rm_PauseNs = 9 # replicate 255 0\<rparr>" 4]
  by simp

text \<open>
  The network totals are the sums over all interfaces modulo \<open>2 ^ 64\<close>, exact when the exact sum fits;
  the statistics of an interface are those of the last entry with its name, and no others are reported.
\<close>

theorem network_totals:
  "let n = Network_Collect cs ios; s = (\<Sum>c\<leftarrow>ios. uint (nc_BytesSent c))
   in ns_IOCounters n = ios \<and> ns_Connections n = cs \<and>
      ns_TotalBytesSent n = of_int s \<and> (s < 2 ^ 64 \<longrightarrow> uint (ns_TotalBytesSent n) = s) \<and>
      ns_TotalBytesRecv n = of_int (\<Sum>c\<leftarrow>ios. uint (nc_BytesRecv c)) \<and>
      ns_TotalPacketsSent n = of_int (\<Sum>c\<leftarrow>ios. uint (nc_PacketsSent c)) \<and>
      ns_TotalPacketsRecv n = of_int (\<Sum>c\<leftarrow>ios. uint (nc_PacketsRecv c)) \<and>
      (\<forall>name. ns_InterfaceStats n name = map_option interface_of (find (\<lambda>c. nc_Name c = name) (rev ios)))"
proof -
  let ?s = "\<Sum>c\<leftarrow>ios. uint (nc_BytesSent c)"
  have "0 \<le> ?s" by (rule sum_list_nonneg) auto
  then have "uint (of_int ?s :: 64 word) = ?s" if "?s < 2 ^ 64"
    using that by (simp only: uint_word_of_int_eq) (simp add: take_bit_int_eq_self)
  then show ?thesis by (simp add: Network_Collect_def net_fold Let_def split: option.split)
qed

theorem network_totals_witness:
  "uint (ns_TotalBytesSent (Network_Collect ([] :: nat list)
     [\<lparr>nc_Name = ''eth0'', nc_BytesSent = 3, nc_BytesRecv = 0, nc_PacketsSent = 1, nc_PacketsRecv = 0\<rparr>,
      \<lparr>nc_Name = ''eth1'', nc_BytesSent = 4, nc_BytesRecv = 0, nc_PacketsSent = 1, nc_PacketsRecv = 0\<rparr>])) = 7"
  using network_totals [of "[] :: nat list"
     "[\<lparr>nc_Name = ''eth0'', nc_BytesSent = 3, nc_BytesRecv = 0, nc_PacketsSent = 1, nc_PacketsRecv = 0\<rparr>,
       \<lparr>nc_Name = ''eth1'', nc_BytesSent = 4, nc_BytesRecv = 0, nc_PacketsSent = 1, nc_PacketsRecv = 0\<rparr>]"]
  by (simp add: Let_def)

text \<open>
  The partitions that are reported are exactly the wanted ones whose usage could be read, in the
  order of the system; every wanted one whose usage could not be read leaves an error entry; and none
  is ever reported as read-only.
\<close>

theorem partitions_reported:
  assumes "Disk_Collect (Some last0) now parts usage_of io prevs = (states, prevs')"
  shows "map pt_MountPoint (ds_Partitions states) =
      map ps_Mountpoint (filter (\<lambda>p. \<not> shouldSkipPartition p \<and> \<not> isl (usage_of (ps_Mountpoint p))) parts) \<and>
    (\<forall>p \<in> set (ds_Partitions states). \<not> pt_ReadOnly p) \<and>
    int (length (ds_Errors states)) =
      int (length (filter (\<lambda>p. \<not> shouldSkipPartition p \<and> isl (usage_of (ps_Mountpoint p))) parts)) +
      (if snd io = None then 0 else 1)"
proof -
  note f = partition_fold [where usage_of = usage_of and parts = parts and st = "new_disk_states now"]
  show ?thesis using assms f
    by (auto simp: Disk_Collect_def Let_def new_disk_states_def split: prod.splits option.splits)
qed

theorem partitions_reported_witness:
  "map pt_MountPoint (ds_Partitions (fst (Disk_Collect (Some 0) 5
     [\<lparr>ps_Device = ''sda1'', ps_Mountpoint = ''/'', ps_Fstype = ''ext4'', ps_Opts = [''rw'']\<rparr>,
      \<lparr>ps_Device = ''sdb1'', ps_Mountpoint = ''/cd'', ps_Fstype = ''iso9660'', ps_Opts = [''ro'']\<rparr>]
     (\<lambda>_. Inr \<lparr>us_Total = 1, us_Used = 1, us_Free = 0, us_UsedPercent = Fin 100, us_InodesTotal = 0, us_InodesUsed = 0,
               us_InodesFree = 0\<rparr>) (Map.empty, None) Map.empty))) = [''/'']"
proof -
  let ?parts = "[\<lparr>ps_Device = ''sda1'', ps_Mountpoint = ''/'', ps_Fstype = ''ext4'', ps_Opts = [''rw'']\<rparr>,
      \<lparr>ps_Device = ''sdb1'', ps_Mountpoint = ''/cd'', ps_Fstype = ''iso9660'', ps_Opts = [''ro'']\<rparr>]"
  let ?use = "\<lambda>_ :: string. (Inr \<lparr>us_Total = 1, us_Used = 1, us_Free = 0, us_UsedPercent = Fin 100, us_InodesTotal = 0, us_InodesUsed = 0,
               us_InodesFree = 0\<rparr> :: string + usage_stat)"
  obtain states p where "Disk_Collect (Some 0) 5 ?parts ?use (Map.empty, None) Map.empty = (states, p)" by fastforce
  from partitions_reported [OF this] this show ?thesis
    by (simp add: shouldSkipPartition_def skipFsTypes_def skipMounts_def HasPrefix_def)
qed

text \<open>
  Rates per disk. After a sample, the next one reports exactly the disks of interest that are in
  both samples; all rates and the utilization are non-negative, whatever the clock and the counters
  did, and the new sample replaces the old one. The first call only takes a sample.
\<close>

theorem disk_rates_reported:
  assumes "Disk_Collect None now parts usage_of (first, err) prevs = (states0, prevs0)"
    and "Disk_Collect (Some last0) now' parts' usage_of' (second, None) prevs0 = (states, prevs')"
  shows "ds_PerDiskIO states0 = Map.empty \<and> prevs' = second \<and>
    dom (ds_PerDiskIO states) = {d. d \<in> dom first \<and> d \<in> dom second \<and> \<not> skipDisk d} \<and>
    (\<forall>d st. ds_PerDiskIO states d = Some st \<longrightarrow> io_DiskName st = d \<and> nonneg_rates st)"
proof -
  obtain e where e: "elapsed_since now' last0 = Fin e" "pow2 (- 30) \<le> e" using elapsed_bounds by blast
  have pos: "0 < e" using e(2) pow2_pos [of "-30"] by linarith
  have st: "states0 = new_disk_states now" "prevs0 = first" "prevs' = second"
      "ds_PerDiskIO states = per_disk (Fin e) second first"
    using assms e(1) by (auto simp: Disk_Collect_def Let_def)
  have rates: "nonneg_rates (disk_rates (Fin e) d c p)" "io_DiskName (disk_rates (Fin e) d c p) = d" for d c p
    using delta_nonneg [OF pos] utilization_nonneg [OF e(2)] by (simp_all add: disk_rates_def nonneg_rates_def Let_def)
  have some: "\<exists>c p. st = disk_rates (Fin e) d c p" if "per_disk (Fin e) second first d = Some st" for d st
    using that by (auto simp: per_disk_def split: if_splits option.splits)
  have "dom (per_disk (Fin e) second first) = {d. d \<in> dom first \<and> d \<in> dom second \<and> \<not> skipDisk d}"
    by (auto simp: per_disk_def dom_def split: if_splits option.splits)
  moreover have "ds_PerDiskIO states0 = Map.empty" by (simp add: st(1) new_disk_states_def)
  ultimately show ?thesis using rates some unfolding st(3,4) by blast
qed

theorem disk_rates_reported_witness:
  "dom (ds_PerDiskIO (fst (Disk_Collect (Some 0) 5 [] (\<lambda>_. Inl ''none'')
     ([''sda'' \<mapsto> \<lparr>ic_ReadCount = 7, ic_WriteCount = 0, ic_ReadBytes = 0, ic_WriteBytes = 0, ic_ReadTime = 0, ic_WriteTime = 0, ic_IoTime = 1\<rparr>], None)
     ([''sda'' \<mapsto> \<lparr>ic_ReadCount = 9, ic_WriteCount = 0, ic_ReadBytes = 0, ic_WriteBytes = 0, ic_ReadTime = 0, ic_WriteTime = 0, ic_IoTime = 0\<rparr>])))) =
   {''sda''}"
proof -
  let ?m = "\<lambda>r t. [''sda'' \<mapsto> \<lparr>ic_ReadCount = r, ic_WriteCount = 0, ic_ReadBytes = 0, ic_WriteBytes = 0, ic_ReadTime = 0, ic_WriteTime = 0, ic_IoTime = t\<rparr>]"
  let ?u = "\<lambda>_ :: string. (Inl ''none'' :: string + usage_stat)"
  have 1: "Disk_Collect None 0 [] ?u (?m 9 0, None) Map.empty = (new_disk_states 0, ?m 9 0)" by (simp add: Disk_Collect_def)
  obtain states p where 2: "Disk_Collect (Some 0) 5 [] ?u (?m 7 1, None) (?m 9 0) = (states, p)" by fastforce
  have "\<not> skipDisk ''sda''" by (simp add: skipDisk_def HasPrefix_def)
  then show ?thesis using disk_rates_reported [OF 1 2] 2 by auto
qed

end
