(* ===== verification/Atomicx.thy ===== *)
theory Atomicx
  imports TS_Prelude
begin

text \<open>
  \<open>src/utils/atomicx\<close>: cells that are read and changed only by the atomic instructions of the processor.
  \<open>atomic_generated.go\<close> has the same methods for \<open>int32\<close>, \<open>int64\<close>, \<open>uint32\<close>, \<open>uint64\<close> and \<open>uintptr\<close>; they are
  written once here, for words of any length, because a Go integer of \<open>w\<close> bits is a word and only the
  reading of it (\<^term>\<open>sint\<close> or \<^term>\<open>uint\<close>) depends on the signedness. \<open>Dec\<close> is the one method whose text
  differs: \<open>a.Add(-1)\<close> for the signed types, \<open>a.Add(^uint32(0))\<close> for the others. \<open>bool.go\<close> keeps a truth
  value in a \<open>uint32\<close>. A method returns its result and the changed cell.
\<close>

unbundle bit_operations_syntax

section \<open>Integers\<close>

record 'v atomic_int =
  ai_value :: 'v

definition NewInt :: "'w::len word \<Rightarrow> 'w word atomic_int" where
  "NewInt v = \<lparr>ai_value = v\<rparr>"

definition Int_Add :: "'w::len word \<Rightarrow> 'w word atomic_int \<Rightarrow> 'w word \<times> 'w word atomic_int" where
  "Int_Add delta a = (let v = ai_value a + delta in (v, a\<lparr>ai_value := v\<rparr>))"

definition Int_Store :: "'w::len word \<Rightarrow> 'w word atomic_int \<Rightarrow> 'w word atomic_int" where
  "Int_Store val a = a\<lparr>ai_value := val\<rparr>"

definition Int_Load :: "'w::len word atomic_int \<Rightarrow> 'w word" where
  "Int_Load a = ai_value a"

definition Int_Swap :: "'w::len word \<Rightarrow> 'w word atomic_int \<Rightarrow> 'w word \<times> 'w word atomic_int" where
  "Int_Swap newVal a = (ai_value a, a\<lparr>ai_value := newVal\<rparr>)"

definition Int_CompareAndSwap ::
    "'w::len word \<Rightarrow> 'w word \<Rightarrow> 'w word atomic_int \<Rightarrow> bool \<times> 'w word atomic_int" where
  "Int_CompareAndSwap oldVal newVal a =
     (if ai_value a = oldVal then (True, a\<lparr>ai_value := newVal\<rparr>) else (False, a))"

definition Int_Inc :: "'w::len word atomic_int \<Rightarrow> 'w word \<times> 'w word atomic_int" where
  "Int_Inc a = Int_Add 1 a"

definition Int_Dec_signed :: "'w::len word atomic_int \<Rightarrow> 'w word \<times> 'w word atomic_int" where
  "Int_Dec_signed a = Int_Add (- 1) a"

definition Int_Dec_unsigned :: "'w::len word atomic_int \<Rightarrow> 'w word \<times> 'w word atomic_int" where
  "Int_Dec_unsigned a = Int_Add (NOT 0) a"

section \<open>Truth values\<close>

record atomic_bool =
  ab_value :: "32 word"

definition NewBool :: atomic_bool where
  "NewBool = \<lparr>ab_value = 0\<rparr>"

definition SetTrue :: "atomic_bool \<Rightarrow> atomic_bool" where
  "SetTrue b = b\<lparr>ab_value := 1\<rparr>"

definition SetFalse :: "atomic_bool \<Rightarrow> atomic_bool" where
  "SetFalse b = b\<lparr>ab_value := 0\<rparr>"

definition Bool_Load :: "atomic_bool \<Rightarrow> bool" where
  "Bool_Load b \<longleftrightarrow> ab_value b = 1"

definition Bool_Store :: "bool \<Rightarrow> atomic_bool \<Rightarrow> atomic_bool" where
  "Bool_Store val b = (if val then b\<lparr>ab_value := 1\<rparr> else b\<lparr>ab_value := 0\<rparr>)"

definition Bool_Swap :: "bool \<Rightarrow> atomic_bool \<Rightarrow> bool \<times> atomic_bool" where
  "Bool_Swap newVal b =
     (let v = (if newVal then 1 else 0)
      in (ab_value b = 1, b\<lparr>ab_value := v\<rparr>))"

definition Bool_CompareAndSwap :: "bool \<Rightarrow> bool \<Rightarrow> atomic_bool \<Rightarrow> bool \<times> atomic_bool" where
  "Bool_CompareAndSwap oldVal newVal b =
     (let old = (if oldVal then 1 else 0); new = (if newVal then 1 else 0)
      in if ab_value b = old then (True, b\<lparr>ab_value := new\<rparr>) else (False, b))"

text \<open>Only zero and one are ever stored.\<close>

definition bool_wf :: "atomic_bool \<Rightarrow> bool" where
  "bool_wf b \<longleftrightarrow> ab_value b = 0 \<or> ab_value b = 1"

lemma bool_wf_ops [simp, intro]:
  "bool_wf NewBool" "bool_wf (SetTrue b)" "bool_wf (SetFalse b)" "bool_wf (Bool_Store v b)"
  "bool_wf (snd (Bool_Swap v b))" "bool_wf b \<Longrightarrow> bool_wf (snd (Bool_CompareAndSwap old new b))"
  by (simp_all add: bool_wf_def NewBool_def SetTrue_def SetFalse_def Bool_Store_def Bool_Swap_def
      Bool_CompareAndSwap_def Let_def)

section \<open>What a cell promises\<close>

text \<open>Several goroutines try to move a cell away from \<open>old\<close>, in the order in which their calls happen.\<close>

fun contend :: "('v \<Rightarrow> 'v \<Rightarrow> 's \<Rightarrow> bool \<times> 's) \<Rightarrow> 'v \<Rightarrow> 'v list \<Rightarrow> 's \<Rightarrow> bool list \<times> 's" where
  "contend cas old [] s = ([], s)"
| "contend cas old (v # vs) s =
     (let (r, s1) = cas old v s; (rs, s2) = contend cas old vs s1 in (r # rs, s2))"

text \<open>
  A register with the instructions \<open>Load\<close>, \<open>Store\<close>, \<open>Swap\<close> and \<open>CompareAndSwap\<close>. Concurrent calls are
  atomic, so a concurrent run is a sequence of calls in some order; the lemmas hold for every order.
\<close>

locale atomic_register =
  fixes wf :: "'s \<Rightarrow> bool"
    and load :: "'s \<Rightarrow> 'v"
    and store :: "'v \<Rightarrow> 's \<Rightarrow> 's"
    and swap :: "'v \<Rightarrow> 's \<Rightarrow> 'v \<times> 's"
    and cas :: "'v \<Rightarrow> 'v \<Rightarrow> 's \<Rightarrow> bool \<times> 's"
  assumes wf_store: "wf s \<Longrightarrow> wf (store v s)"
    and load_store: "wf s \<Longrightarrow> load (store v s) = v"
    and swap_store: "wf s \<Longrightarrow> swap v s = (load s, store v s)"
    and cas_store: "wf s \<Longrightarrow> cas old new s = (if load s = old then (True, store new s) else (False, s))"
begin

lemma contend_lost:
  "wf s \<Longrightarrow> load s \<noteq> old \<Longrightarrow> contend cas old vs s = (replicate (length vs) False, s)"
  by (induction vs) (simp_all add: cas_store)

text \<open>Of several calls that try to leave the same value, exactly the first succeeds.\<close>

lemma one_winner:
  assumes "wf s" "load s = old" "v \<noteq> old"
  shows "contend cas old (v # vs) s = (True # replicate (length vs) False, store v s)"
proof -
  have "contend cas old vs (store v s) = (replicate (length vs) False, store v s)"
    using assms by (intro contend_lost) (simp_all add: wf_store load_store)
  then show ?thesis using assms by (simp add: cas_store)
qed

end

interpretation int_cell: atomic_register "\<lambda>_. True" Int_Load Int_Store Int_Swap Int_CompareAndSwap
  by unfold_locales (simp_all add: Int_Load_def Int_Store_def Int_Swap_def Int_CompareAndSwap_def)

interpretation bool_cell: atomic_register bool_wf Bool_Load Bool_Store Bool_Swap Bool_CompareAndSwap
proof unfold_locales
  fix s :: atomic_bool and v old new :: bool
  assume wf: "bool_wf s"
  show "bool_wf (Bool_Store v s)" by simp
  show "Bool_Load (Bool_Store v s) = v" by (simp add: Bool_Load_def Bool_Store_def)
  show "Bool_Swap v s = (Bool_Load s, Bool_Store v s)"
    by (simp add: Bool_Swap_def Bool_Load_def Bool_Store_def)
  show "Bool_CompareAndSwap old new s = (if Bool_Load s = old then (True, Bool_Store new s) else (False, s))"
    using wf by (auto simp: Bool_CompareAndSwap_def Bool_Load_def Bool_Store_def bool_wf_def)
qed

section \<open>Counters\<close>

datatype 'v counter_op = AddOp 'v | IncOp | DecSigned | DecUnsigned

fun counter_step :: "'w::len word counter_op \<Rightarrow> 'w word atomic_int \<Rightarrow> 'w word \<times> 'w word atomic_int" where
  "counter_step (AddOp d) a = Int_Add d a"
| "counter_step IncOp a = Int_Inc a"
| "counter_step DecSigned a = Int_Dec_signed a"
| "counter_step DecUnsigned a = Int_Dec_unsigned a"

fun counter_run :: "'w::len word counter_op list \<Rightarrow> 'w word atomic_int \<Rightarrow> 'w word list \<times> 'w word atomic_int" where
  "counter_run [] a = ([], a)"
| "counter_run (p # ps) a =
     (let (r, a1) = counter_step p a; (rs, a2) = counter_run ps a1 in (r # rs, a2))"

text \<open>What the operation means for the unbounded value of a signed counter.\<close>

fun op_amount :: "'w::len word counter_op \<Rightarrow> int" where
  "op_amount (AddOp d) = sint d"
| "op_amount IncOp = 1"
| "op_amount DecSigned = - 1"
| "op_amount DecUnsigned = - 1"

lemma counter_step_eq:
  fixes a :: "'w::len word atomic_int"
  shows "counter_step p a =
    (ai_value a + of_int (op_amount p), a\<lparr>ai_value := ai_value a + of_int (op_amount p)\<rparr>)"
  by (cases p)
     (simp_all add: Int_Add_def Int_Inc_def Int_Dec_signed_def Int_Dec_unsigned_def Let_def)

lemma counter_run_value:
  "ai_value (snd (counter_run ps a)) = ai_value a + of_int (sum_list (map op_amount ps))"
  by (induction ps arbitrary: a) (simp_all add: counter_step_eq case_prod_unfold Let_def)

lemma sint_add_of_int:
  fixes x :: "'w::len word"
  assumes "- (2 ^ (LENGTH('w) - 1)) \<le> sint x + n" "sint x + n < 2 ^ (LENGTH('w) - 1)"
  shows "sint (x + of_int n) = sint x + n"
proof -
  have "x + of_int n = of_int (sint x + n)" by simp
  then show ?thesis
    using assms by (simp only: signed_of_int) (simp add: signed_take_bit_int_eq_self)
qed

lemma uint_add_of_int:
  fixes x :: "'w::len word"
  assumes "0 \<le> uint x + n" "uint x + n < 2 ^ LENGTH('w)"
  shows "uint (x + of_int n) = uint x + n"
proof -
  have "x + of_int n = of_int (uint x + n)" by simp
  then show ?thesis using assms by (simp only: unsigned_of_int) (simp add: take_bit_int_eq_self)
qed

section \<open>Properties\<close>

text \<open>
  Of any number of concurrent compare-and-swap calls that try to move an integer cell away from the
  value it holds, exactly the one that happens first succeeds; the cell holds its value and all others
  report failure.
\<close>

theorem cas_one_winner:
  assumes "v \<noteq> Int_Load a"
  shows "contend Int_CompareAndSwap (Int_Load a) (v # vs) a =
    (True # replicate (length vs) False, Int_Store v a)"
  by (rule int_cell.one_winner) (use assms in simp_all)

theorem cas_one_winner_witness:
  "contend Int_CompareAndSwap 0 [1, 2, 1] (NewInt (0 :: 32 word)) = ([True, False, False], NewInt 1)"
  using cas_one_winner [of 1 "NewInt (0 :: 32 word)" "[2, 1]"]
  by (simp add: NewInt_def Int_Load_def Int_Store_def numeral_2_eq_2)

text \<open>
  C40: a shared counter is exact. Whatever the order in which the additions, increments and decrements of
  all goroutines happen, the final cell is the same; its value is the initial value plus the sum of
  the amounts modulo \<open>2 ^ w\<close>, so without overflow the signed types read exactly that sum, and the
  unsigned decrement, an addition of \<open>^uint(0)\<close>, takes one away.
\<close>

theorem counter_any_order:
  fixes a :: "'w::len word atomic_int"
  assumes "mset ps = mset qs"
  shows "snd (counter_run ps a) = snd (counter_run qs a) \<and>
    (let v = Int_Load (snd (counter_run ps a)); n = sum_list (map op_amount ps)
     in v = Int_Load a + of_int n \<and>
        (- (2 ^ (LENGTH('w) - 1)) \<le> sint (Int_Load a) + n \<and> sint (Int_Load a) + n < 2 ^ (LENGTH('w) - 1) \<longrightarrow>
           sint v = sint (Int_Load a) + n) \<and>
        (0 \<le> uint (Int_Load a) + n \<and> uint (Int_Load a) + n < 2 ^ LENGTH('w) \<longrightarrow>
           uint v = uint (Int_Load a) + n))"
proof -
  let ?n = "sum_list (map op_amount ps)"
  have eq: "sum_list (map op_amount qs) = ?n"
    using assms by (metis mset_map sum_mset_sum_list)
  have v: "ai_value (snd (counter_run ps a)) = ai_value a + of_int ?n" by (rule counter_run_value)
  have "snd (counter_run ps a) = snd (counter_run qs a)"
    using v eq counter_run_value [of qs a] by simp
  moreover have "sint (ai_value a + of_int ?n) = sint (ai_value a) + ?n"
    if "- (2 ^ (LENGTH('w) - 1)) \<le> sint (ai_value a) + ?n" "sint (ai_value a) + ?n < 2 ^ (LENGTH('w) - 1)"
    using that by (rule sint_add_of_int)
  moreover have "uint (ai_value a + of_int ?n) = uint (ai_value a) + ?n"
    if "0 \<le> uint (ai_value a) + ?n" "uint (ai_value a) + ?n < 2 ^ LENGTH('w)"
    using that by (rule uint_add_of_int)
  ultimately show ?thesis unfolding Let_def Int_Load_def v by blast
qed

theorem counter_any_order_witness:
  "snd (counter_run [IncOp, DecUnsigned, IncOp] (NewInt (5 :: 32 word))) =
   snd (counter_run [DecUnsigned, IncOp, IncOp] (NewInt 5)) \<and>
   uint (Int_Load (snd (counter_run [IncOp, DecUnsigned, IncOp] (NewInt (5 :: 32 word))))) = 6"
  using counter_any_order [of "[IncOp, DecUnsigned, IncOp]" "[DecUnsigned, IncOp, IncOp]" "NewInt (5 :: 32 word)"]
  by (simp add: NewInt_def Int_Load_def Let_def del: counter_run.simps) auto

end
