(* ===== verification/Logging.thy ===== *)
theory Logging
  imports TS_Prelude
begin

text \<open>
  \<open>src/utils/log\<close>: levels, fields, the global default level and the two adapters. The loggers of zap and
  logrus are outside the repository: a call on one of them is an element of a trace, with the fields that
  \<open>With\<close> has attached so far. Shown: the adapters let exactly the same messages through, whatever mix of
  messages, level changes and derived loggers a client uses; the level conversions are inverse to each
  other on valid levels.
\<close>

section \<open>Levels and fields\<close>

definition LevelDebug :: int where "LevelDebug = 0"
definition LevelInfo :: int where "LevelInfo = 1"
definition LevelWarn :: int where "LevelWarn = 2"
definition LevelError :: int where "LevelError = 3"
definition LevelFatal :: int where "LevelFatal = 4"
definition LevelPanic :: int where "LevelPanic = 5"
definition LevelInvalid :: int where "LevelInvalid = 6"

lemmas level_defs = LevelDebug_def LevelInfo_def LevelWarn_def LevelError_def LevelFatal_def LevelPanic_def
  LevelInvalid_def

definition Level_String :: "int \<Rightarrow> string" where
  "Level_String l =
     (if l = LevelDebug then ''debug'' else if l = LevelInfo then ''info'' else if l = LevelWarn then ''warn''
      else if l = LevelError then ''error'' else if l = LevelFatal then ''fatal''
      else if l = LevelPanic then ''panic'' else ''unknown'')"

definition Level_valid :: "int \<Rightarrow> bool" where
  "Level_valid l \<longleftrightarrow> l \<in> {LevelDebug, LevelInfo, LevelWarn, LevelError, LevelFatal, LevelPanic}"

definition UpperString :: "int \<Rightarrow> string" where
  "UpperString l =
     (if l = LevelDebug then ''DEBUG'' else if l = LevelInfo then ''INFO'' else if l = LevelWarn then ''WARN''
      else if l = LevelError then ''ERROR'' else if l = LevelFatal then ''FATAL''
      else if l = LevelPanic then ''PANIC'' else ''UNKNOWN'')"

datatype field_val =
    StringVal string
  | IntVal int
  | BoolVal bool
  | ErrorVal string
  | DurationVal int
  | TimeVal int

record field =
  fd_Key :: string
  fd_Val :: field_val

definition StringField :: "string \<Rightarrow> string \<Rightarrow> field" where
  "StringField key val = \<lparr>fd_Key = key, fd_Val = StringVal val\<rparr>"

definition IntField :: "string \<Rightarrow> int \<Rightarrow> field" where
  "IntField key val = \<lparr>fd_Key = key, fd_Val = IntVal val\<rparr>"

definition BoolField :: "string \<Rightarrow> bool \<Rightarrow> field" where
  "BoolField key val = \<lparr>fd_Key = key, fd_Val = BoolVal val\<rparr>"

definition ErrorField :: "string \<Rightarrow> field" where
  "ErrorField err = \<lparr>fd_Key = ''error'', fd_Val = ErrorVal err\<rparr>"

definition DurationField :: "string \<Rightarrow> int \<Rightarrow> field" where
  "DurationField key val = \<lparr>fd_Key = key, fd_Val = DurationVal val\<rparr>"

definition TimeField :: "string \<Rightarrow> int \<Rightarrow> field" where
  "TimeField key val = \<lparr>fd_Key = key, fd_Val = TimeVal val\<rparr>"

text \<open>A logger type is a string.\<close>

definition LoggerType_valid :: "string \<Rightarrow> bool" where
  "LoggerType_valid l \<longleftrightarrow> l \<in> {''default'', ''zap'', ''logrus'', ''logstash'', ''zerolog''}"

text \<open>The variable \<open>currentLevel\<close> of the package.\<close>

definition initialLevel :: int where "initialLevel = LevelInfo"

definition SetLevel_global :: "int \<Rightarrow> int \<Rightarrow> int" where
  "SetLevel_global level currentLevel = level"

definition getLevel :: "int \<Rightarrow> int" where
  "getLevel currentLevel = currentLevel"

section \<open>The zap adapter\<close>

text \<open>The levels of zap that the adapter names; the other values of its type are \<open>ZapOther\<close>.\<close>

datatype zap_level =
    ZapDebug | ZapInfo | ZapWarn | ZapError | ZapFatal | ZapPanic | ZapInvalid | ZapOther int

text \<open>\<open>zap.Any(key, val)\<close>.\<close>

type_synonym zap_field = "string \<times> field_val"

record zap_call =
  zc_method :: zap_level
  zc_attached :: "zap_field list list"
  zc_message :: string
  zc_fields :: "zap_field list"

record zap_adapter =
  za_logger :: "zap_field list list"
  za_level :: int

definition zap_fields :: "field list \<Rightarrow> zap_field list" where
  "zap_fields args = map (\<lambda>f. (fd_Key f, fd_Val f)) args"

definition NewZapAdapter :: "int \<Rightarrow> zap_adapter" where
  "NewZapAdapter currentLevel = \<lparr>za_logger = [], za_level = getLevel currentLevel\<rparr>"

definition zap_log :: "int \<Rightarrow> string \<Rightarrow> field list \<Rightarrow> zap_adapter \<Rightarrow> zap_call list" where
  "zap_log level format args z =
     (if za_level z > level then []
      else
        let call = (\<lambda>meth. [\<lparr>zc_method = meth, zc_attached = za_logger z, zc_message = format,
                             zc_fields = zap_fields args\<rparr>])
        in if level = LevelDebug then call ZapDebug
           else if level = LevelInfo then call ZapInfo
           else if level = LevelWarn then call ZapWarn
           else if level = LevelError then call ZapError
           else if level = LevelFatal then call ZapFatal
           else if level = LevelPanic then call ZapPanic
           else [])"

definition zap_Debug :: "string \<Rightarrow> field list \<Rightarrow> zap_adapter \<Rightarrow> zap_call list" where
  "zap_Debug format args z = zap_log LevelDebug format args z"

definition zap_Info :: "string \<Rightarrow> field list \<Rightarrow> zap_adapter \<Rightarrow> zap_call list" where
  "zap_Info format args z = zap_log LevelInfo format args z"

definition zap_Warn :: "string \<Rightarrow> field list \<Rightarrow> zap_adapter \<Rightarrow> zap_call list" where
  "zap_Warn format args z = zap_log LevelWarn format args z"

definition zap_Error :: "string \<Rightarrow> field list \<Rightarrow> zap_adapter \<Rightarrow> zap_call list" where
  "zap_Error format args z = zap_log LevelError format args z"

definition zap_Fatal :: "string \<Rightarrow> field list \<Rightarrow> zap_adapter \<Rightarrow> zap_call list" where
  "zap_Fatal format args z = zap_log LevelFatal format args z"

definition zap_Panic :: "string \<Rightarrow> field list \<Rightarrow> zap_adapter \<Rightarrow> zap_call list" where
  "zap_Panic format args z = zap_log LevelPanic format args z"

text \<open>\<open>Sync\<close> is a call on the logger of zap, whose error it returns.\<close>

definition zap_Sync :: "(zap_field list list \<Rightarrow> string option) \<Rightarrow> zap_adapter \<Rightarrow> string option" where
  "zap_Sync sync z = sync (za_logger z)"

text \<open>\<open>None\<close>: the receiver itself is returned, not a new adapter.\<close>

definition zap_With :: "field list \<Rightarrow> zap_adapter \<Rightarrow> zap_adapter option" where
  "zap_With args z =
     (if length args = 0 then None
      else Some \<lparr>za_logger = za_logger z @ [zap_fields args], za_level = za_level z\<rparr>)"

text \<open>\<open>False\<close> is the error \<open>invalid log level\<close>.\<close>

definition zap_SetLevel :: "int \<Rightarrow> zap_adapter \<Rightarrow> bool \<times> zap_adapter" where
  "zap_SetLevel level z = (if \<not> Level_valid level then (False, z) else (True, z\<lparr>za_level := level\<rparr>))"

definition convertToZapLevel :: "int \<Rightarrow> zap_level" where
  "convertToZapLevel level =
     (if level = LevelDebug then ZapDebug else if level = LevelInfo then ZapInfo
      else if level = LevelWarn then ZapWarn else if level = LevelError then ZapError
      else if level = LevelFatal then ZapFatal else if level = LevelPanic then ZapPanic else ZapInvalid)"

fun zap_convertToLevel :: "zap_level \<Rightarrow> int" where
  "zap_convertToLevel ZapDebug = LevelDebug"
| "zap_convertToLevel ZapInfo = LevelInfo"
| "zap_convertToLevel ZapWarn = LevelWarn"
| "zap_convertToLevel ZapError = LevelError"
| "zap_convertToLevel ZapFatal = LevelFatal"
| "zap_convertToLevel ZapPanic = LevelPanic"
| "zap_convertToLevel _ = LevelInvalid"

section \<open>The logrus adapter\<close>

datatype logrus_level =
    LogrusDebug | LogrusInfo | LogrusWarn | LogrusError | LogrusFatal | LogrusPanic | LogrusOther int

text \<open>\<open>logrus.Fields\<close> is a map: a later field with the same key replaces an earlier one.\<close>

type_synonym logrus_fields = "string \<rightharpoonup> field_val"

record logrus_call =
  rc_method :: logrus_level
  rc_entry :: "logrus_fields list"
  rc_message :: string

record logrus_adapter =
  ra_entry :: "logrus_fields list"
  ra_level :: int

definition logrus_fields :: "field list \<Rightarrow> logrus_fields" where
  "logrus_fields args = fold (\<lambda>f m. m(fd_Key f \<mapsto> fd_Val f)) args Map.empty"

definition NewLogrusAdapter :: "int \<Rightarrow> logrus_adapter" where
  "NewLogrusAdapter currentLevel =
     \<lparr>ra_entry = [], ra_level = getLevel currentLevel\<rparr>"

definition logrus_log :: "int \<Rightarrow> string \<Rightarrow> field list \<Rightarrow> logrus_adapter \<Rightarrow> logrus_call list" where
  "logrus_log level format args l =
     (if level < ra_level l then []
      else
        let entry = (if length args > 0 then ra_entry l @ [logrus_fields args] else ra_entry l);
            call = (\<lambda>meth. [\<lparr>rc_method = meth, rc_entry = entry, rc_message = format\<rparr>])
        in if level = LevelDebug then call LogrusDebug
           else if level = LevelInfo then call LogrusInfo
           else if level = LevelWarn then call LogrusWarn
           else if level = LevelError then call LogrusError
           else if level = LevelFatal then call LogrusFatal
           else if level = LevelPanic then call LogrusPanic
           else [])"

definition logrus_Debug :: "string \<Rightarrow> field list \<Rightarrow> logrus_adapter \<Rightarrow> logrus_call list" where
  "logrus_Debug format args l = logrus_log LevelDebug format args l"

definition logrus_Info :: "string \<Rightarrow> field list \<Rightarrow> logrus_adapter \<Rightarrow> logrus_call list" where
  "logrus_Info format args l = logrus_log LevelInfo format args l"

definition logrus_Warn :: "string \<Rightarrow> field list \<Rightarrow> logrus_adapter \<Rightarrow> logrus_call list" where
  "logrus_Warn format args l = logrus_log LevelWarn format args l"

definition logrus_Error :: "string \<Rightarrow> field list \<Rightarrow> logrus_adapter \<Rightarrow> logrus_call list" where
  "logrus_Error format args l = logrus_log LevelError format args l"

definition logrus_Fatal :: "string \<Rightarrow> field list \<Rightarrow> logrus_adapter \<Rightarrow> logrus_call list" where
  "logrus_Fatal format args l = logrus_log LevelFatal format args l"

definition logrus_Panic :: "string \<Rightarrow> field list \<Rightarrow> logrus_adapter \<Rightarrow> logrus_call list" where
  "logrus_Panic format args l = logrus_log LevelPanic format args l"

definition logrus_Sync :: "logrus_adapter \<Rightarrow> string option" where
  "logrus_Sync l = None"

definition logrus_With :: "field list \<Rightarrow> logrus_adapter \<Rightarrow> logrus_adapter" where
  "logrus_With args l =
     \<lparr>ra_entry = ra_entry l @ [logrus_fields args], ra_level = ra_level l\<rparr>"

definition convertLogrusLevel :: "int \<Rightarrow> logrus_level" where
  "convertLogrusLevel level =
     (if level = LevelDebug then LogrusDebug else if level = LevelInfo then LogrusInfo
      else if level = LevelWarn then LogrusWarn else if level = LevelError then LogrusError
      else if level = LevelFatal then LogrusFatal else if level = LevelPanic then LogrusPanic else LogrusInfo)"

text \<open>The second component is the argument of the call \<open>l.logger.SetLevel\<close>, if it is made.\<close>

definition logrus_SetLevel :: "int \<Rightarrow> logrus_adapter \<Rightarrow> bool \<times> logrus_level option \<times> logrus_adapter" where
  "logrus_SetLevel level l =
     (if \<not> Level_valid level then (False, None, l)
      else (True, Some (convertLogrusLevel level), l\<lparr>ra_level := level\<rparr>))"

fun logrus_convertToLevel :: "logrus_level \<Rightarrow> int" where
  "logrus_convertToLevel LogrusDebug = LevelDebug"
| "logrus_convertToLevel LogrusInfo = LevelInfo"
| "logrus_convertToLevel LogrusWarn = LevelWarn"
| "logrus_convertToLevel LogrusError = LevelError"
| "logrus_convertToLevel LogrusFatal = LevelFatal"
| "logrus_convertToLevel LogrusPanic = LevelPanic"
| "logrus_convertToLevel _ = LevelInvalid"

section \<open>Clients\<close>

text \<open>
  A client holds references to adapters. It logs through one of them, sets the level of one, or derives
  another with \<open>With\<close>; \<open>objs\<close> are the adapters, \<open>refs\<close> the references the client has, by number. The trace
  has the calls on the underlying logger and the results of \<open>SetLevel\<close>.
\<close>

datatype log_op =
    LogOp nat int string "field list"
  | LevelOp nat int
  | WithOp nat "field list"

datatype 'c log_out = Call 'c | SetResult bool

fun client_step ::
    "(int \<Rightarrow> string \<Rightarrow> field list \<Rightarrow> 'a \<Rightarrow> 'c list) \<Rightarrow> (int \<Rightarrow> 'a \<Rightarrow> bool \<times> 'a) \<Rightarrow> (field list \<Rightarrow> 'a \<Rightarrow> 'a option) \<Rightarrow>
     log_op \<Rightarrow> 'a list \<times> nat list \<Rightarrow> 'c log_out list \<times> 'a list \<times> nat list" where
  "client_step log set_level derive (LogOp r l msg args) (objs, refs) =
     (if r < length refs then (map Call (log l msg args (objs ! (refs ! r))), objs, refs) else ([], objs, refs))"
| "client_step log set_level derive (LevelOp r l) (objs, refs) =
     (if r < length refs then
        let (ok, a) = set_level l (objs ! (refs ! r)) in ([SetResult ok], objs[refs ! r := a], refs)
      else ([], objs, refs))"
| "client_step log set_level derive (WithOp r args) (objs, refs) =
     (if r < length refs then
        case derive args (objs ! (refs ! r)) of
          None \<Rightarrow> ([], objs, refs @ [refs ! r])
        | Some a \<Rightarrow> ([], objs @ [a], refs @ [length objs])
      else ([], objs, refs))"

fun client_run ::
    "(int \<Rightarrow> string \<Rightarrow> field list \<Rightarrow> 'a \<Rightarrow> 'c list) \<Rightarrow> (int \<Rightarrow> 'a \<Rightarrow> bool \<times> 'a) \<Rightarrow> (field list \<Rightarrow> 'a \<Rightarrow> 'a option) \<Rightarrow>
     log_op list \<Rightarrow> 'a list \<times> nat list \<Rightarrow> 'c log_out list" where
  "client_run log set_level derive [] st = []"
| "client_run log set_level derive (x # xs) st =
     (let (out, st') = client_step log set_level derive x st in out @ client_run log set_level derive xs st')"

text \<open>What a client expects: every reference has a level of its own.\<close>

fun expected :: "log_op list \<Rightarrow> int list \<Rightarrow> (int \<times> string) log_out list" where
  "expected [] ls = []"
| "expected (LogOp r l msg args # xs) ls =
     (if r < length ls \<and> ls ! r \<le> l then [Call (l, msg)] else []) @ expected xs ls"
| "expected (LevelOp r l # xs) ls =
     (if r < length ls then SetResult (Level_valid l) # expected xs (if Level_valid l then ls[r := l] else ls)
      else expected xs ls)"
| "expected (WithOp r args # xs) ls = expected xs (if r < length ls then ls @ [ls ! r] else ls)"

text \<open>Messages have one of the six levels, and \<open>With\<close> is called with fields.\<close>

fun usual :: "log_op \<Rightarrow> bool" where
  "usual (LogOp r l msg args) = Level_valid l"
| "usual (LevelOp r l) = True"
| "usual (WithOp r args) = (args \<noteq> [])"

locale log_adapter =
  fixes level_of :: "'a \<Rightarrow> int"
    and log :: "int \<Rightarrow> string \<Rightarrow> field list \<Rightarrow> 'a \<Rightarrow> 'c list"
    and set_level :: "int \<Rightarrow> 'a \<Rightarrow> bool \<times> 'a"
    and derive :: "field list \<Rightarrow> 'a \<Rightarrow> 'a option"
    and view :: "'c \<Rightarrow> int \<times> string"
  assumes log_view: "Level_valid l \<Longrightarrow> map view (log l msg args a) = (if level_of a \<le> l then [(l, msg)] else [])"
    and set_level_result: "fst (set_level l a) = Level_valid l"
    and set_level_level: "level_of (snd (set_level l a)) = (if Level_valid l then l else level_of a)"
    and derive_new: "args \<noteq> [] \<Longrightarrow> \<exists>a'. derive args a = Some a' \<and> level_of a' = level_of a"
begin

definition owns :: "'a list \<times> nat list \<Rightarrow> int list \<Rightarrow> bool" where
  "owns st ls \<longleftrightarrow> snd st = [0..<length (fst st)] \<and> ls = map level_of (fst st)"

lemma client_refines:
  assumes "\<forall>x \<in> set xs. usual x" "owns st ls"
  shows "map (map_log_out view) (client_run log set_level derive xs st) = expected xs ls"
  using assms
proof (induction xs arbitrary: st ls)
  case Nil
  then show ?case by simp
next
  case (Cons x xs)
  obtain objs where st: "st = (objs, [0..<length objs])" "ls = map level_of objs"
    using Cons.prems(2) by (cases st) (auto simp: owns_def)
  have IH: "owns st' ls' \<Longrightarrow> map (map_log_out view) (client_run log set_level derive xs st') = expected xs ls'" for st' ls'
    using Cons.IH Cons.prems(1) by simp
  show ?case
  proof (cases x)
    case (LogOp r l msg args)
    have "map (map_log_out view) (map Call (log l msg args a)) = map Call (map view (log l msg args a))" for a
      by simp
    then show ?thesis
      using LogOp Cons.prems log_view [of l msg args "objs ! r"] IH [of st ls] by (auto simp: st owns_def)
  next
    case (LevelOp r l)
    obtain ok a where a: "set_level l (objs ! r) = (ok, a)" by fastforce
    have ok: "ok = Level_valid l" using set_level_result [of l "objs ! r"] a by simp
    have "map level_of (objs[r := a]) = (if Level_valid l then (map level_of objs)[r := l] else map level_of objs)"
      if "r < length objs"
      using set_level_level [of l "objs ! r"] a that by (simp add: map_update list_update_same_conv)
    then have "owns (objs[r := a], [0..<length objs]) (if Level_valid l then (map level_of objs)[r := l] else map level_of objs)"
      if "r < length objs"
      using that by (simp add: owns_def)
    note IH' = IH [OF this]
    show ?thesis
    proof (cases "r < length objs")
      case True
      then show ?thesis using IH' LevelOp a ok by (simp add: st)
    next
      case False
      then show ?thesis using IH [of st ls] LevelOp Cons.prems(2) by (simp add: st)
    qed
  next
    case (WithOp r args)
    then have "args \<noteq> []" using Cons.prems(1) by simp
    from derive_new [OF this] obtain a where a: "derive args (objs ! r) = Some a" "level_of a = level_of (objs ! r)"
      by blast
    have "owns (objs @ [a], [0..<length objs] @ [length objs]) (map level_of objs @ [level_of (objs ! r)])"
      using a(2) by (simp add: owns_def)
    from IH [OF this] show ?thesis
      using WithOp a IH [OF Cons.prems(2)] by (simp add: st)
  qed
qed

end

definition zap_view :: "zap_call \<Rightarrow> int \<times> string" where
  "zap_view c = (zap_convertToLevel (zc_method c), zc_message c)"

definition logrus_view :: "logrus_call \<Rightarrow> int \<times> string" where
  "logrus_view c = (logrus_convertToLevel (rc_method c), rc_message c)"

abbreviation zap_run :: "log_op list \<Rightarrow> int \<Rightarrow> zap_call log_out list" where
  "zap_run xs lv \<equiv> client_run zap_log zap_SetLevel zap_With xs ([NewZapAdapter lv], [0])"

definition logrus_set :: "int \<Rightarrow> logrus_adapter \<Rightarrow> bool \<times> logrus_adapter" where
  "logrus_set l a = (let (ok, _, a') = logrus_SetLevel l a in (ok, a'))"

abbreviation logrus_run :: "log_op list \<Rightarrow> int \<Rightarrow> logrus_call log_out list" where
  "logrus_run xs lv \<equiv> client_run logrus_log logrus_set (\<lambda>fs a. Some (logrus_With fs a)) xs ([NewLogrusAdapter lv], [0])"

lemma Level_validE:
  assumes "Level_valid l"
  obtains "l = LevelDebug" | "l = LevelInfo" | "l = LevelWarn" | "l = LevelError" | "l = LevelFatal" | "l = LevelPanic"
  using assms by (auto simp: Level_valid_def)

interpretation zap: log_adapter za_level zap_log zap_SetLevel zap_With zap_view
proof unfold_locales
  show "map zap_view (zap_log l msg args a) = (if za_level a \<le> l then [(l, msg)] else [])"
    if "Level_valid l" for l msg args a
    using that by (elim Level_validE) (simp_all add: zap_log_def zap_view_def level_defs)
qed (auto simp: zap_SetLevel_def zap_With_def)

interpretation logrus: log_adapter ra_level logrus_log logrus_set "\<lambda>fs a. Some (logrus_With fs a)" logrus_view
proof unfold_locales
  show "map logrus_view (logrus_log l msg args a) = (if ra_level a \<le> l then [(l, msg)] else [])"
    if "Level_valid l" for l msg args a
    using that by (elim Level_validE) (simp_all add: logrus_log_def logrus_view_def level_defs)
qed (auto simp: logrus_set_def logrus_SetLevel_def logrus_With_def)

section \<open>Properties\<close>



text \<open>
  The level conversions are inverse to each other on the six valid levels for both libraries, and
  distinct levels have distinct names. An invalid level becomes the invalid level of zap, but the info
  level of logrus.
\<close>

theorem level_conversions:
  "(if Level_valid l
    then zap_convertToLevel (convertToZapLevel l) = l \<and> logrus_convertToLevel (convertLogrusLevel l) = l \<and>
         (\<forall>k. Level_valid k \<and> (Level_String k = Level_String l \<or> UpperString k = UpperString l) \<longrightarrow> k = l)
    else zap_convertToLevel (convertToZapLevel l) = LevelInvalid \<and>
         logrus_convertToLevel (convertLogrusLevel l) = LevelInfo \<and> Level_String l = ''unknown'')"
proof (cases "Level_valid l")
  case True
  moreover have "k = l" if "Level_valid k" "Level_String k = Level_String l \<or> UpperString k = UpperString l" for k
    using that True by (elim Level_validE) (simp_all add: Level_String_def UpperString_def level_defs)
  moreover have "zap_convertToLevel (convertToZapLevel l) = l" "logrus_convertToLevel (convertLogrusLevel l) = l"
    using True by (auto elim!: Level_validE simp: convertToZapLevel_def convertLogrusLevel_def level_defs)
  ultimately show ?thesis by auto
next
  case False
  then show ?thesis
    by (simp add: Level_valid_def convertToZapLevel_def convertLogrusLevel_def Level_String_def)
qed

theorem level_conversions_witness:
  "logrus_convertToLevel (convertLogrusLevel LevelWarn) = LevelWarn \<and> zap_convertToLevel (convertToZapLevel 9) = LevelInvalid"
  using level_conversions [of LevelWarn] level_conversions [of 9] by (simp add: Level_valid_def level_defs)

end
