(* ===== verification/Sys_Monitor.thy ===== *)
theory Sys_Monitor
  imports Sys_Collectors Atomicx Logging
begin

text \<open>
  \<open>src/metrics/monitor.go\<close>, \<open>opensource_timeout.go\<close> and the Prometheus observer of \<open>observer.go\<close>: a monitor
  that samples the collectors periodically in a pool of workers and hands the figures to its observers.

  The pool is the \<open>ants\<close> package. Its answer to \<open>Submit\<close> is a parameter \<open>accepts\<close>: whether the task with a
  given number is accepted, depending on whether the pool has been released. Which accepted tasks have
  finished when the \<open>select\<close> of \<open>collectAllMetrics\<close> is decided, and whether its timer has fired, are
  arguments of a round. A panic of a task ends the model's run, whatever the pool makes of it.
\<close>

section \<open>Timeouts\<close>

text \<open>\<open>None\<close>: the product is outside of the range of \<open>int64\<close>, where Go leaves the conversion open.\<close>

definition OpenSource_Timeout :: "f64 \<Rightarrow> int \<Rightarrow> int option" where
  "OpenSource_Timeout fixedRatio collectInterval = f64_to_int64 (f64_mul (f64_of_int collectInterval) fixedRatio)"

text \<open>A controller is its method \<open>Timeout\<close>; the interface admits any.\<close>

type_synonym timeout_controller = "int \<Rightarrow> int option"

definition newOpenSourceTimeout :: "f64 \<Rightarrow> timeout_controller" where
  "newOpenSourceTimeout ratio = OpenSource_Timeout ratio"

definition HandleTimeout :: "string \<Rightarrow> int \<Rightarrow> int \<Rightarrow> int \<times> string \<times> field list" where
  "HandleTimeout component collected latency =
     (LevelWarn, ''collect context deadline'',
      [StringField ''component'' component, IntField ''collected'' collected, DurationField ''latency'' latency])"

section \<open>The monitor\<close>

record meta =
  me_LastCollectTime :: "int option"
  me_SuccessCount :: int
  me_ErrCount :: int
  me_AverageTimeTaken :: int
  me_TimeTakenQueue :: "int list"

record 'c metrics =
  mt_Timestamp :: int
  mt_CPU :: cpu_states
  mt_Memory :: memory_states
  mt_Disk :: disk_states
  mt_Runtime :: runtime_states
  mt_Network :: "'c network_states"

text \<open>
  An observer is a reference. \<open>mo_cancelled\<close> is the state of the context in the field \<open>ctx\<close>, \<open>mo_running\<close> the
  number of goroutines in \<open>runCollector\<close> (the counter of \<open>wg\<close>), \<open>mo_prevIO\<close> the field of the disk collector.
\<close>

record 'c monitor =
  mo_collectInterval :: int
  mo_reportInterval :: int
  mo_pid :: int
  mo_observers :: "nat list"
  mo_prevIO :: io_map
  mo_cancelled :: bool
  mo_metrics :: "'c metrics"
  mo_meta :: meta
  mo_running :: nat
  mo_released :: bool
  mo_timeoutCtrl :: timeout_controller
  mo_state :: atomic_bool

definition collectInterval :: int where "collectInterval = 5 * 1000000000"
definition reportInterval :: int where "reportInterval = 5 * 1000000000"
definition workers :: nat where "workers = 5"
definition mod5 :: int where "mod5 = 5"

type_synonym 'c mon_option = "'c monitor \<Rightarrow> 'c monitor"

definition WithTimeoutController :: "timeout_controller \<Rightarrow> 'c mon_option" where
  "WithTimeoutController ctrl m = m\<lparr>mo_timeoutCtrl := ctrl\<rparr>"

definition WithCollectInterval :: "int \<Rightarrow> 'c mon_option" where
  "WithCollectInterval interval m = m\<lparr>mo_reportInterval := interval\<rparr>"

definition WithProcessMonitoring :: "int \<Rightarrow> 'c mon_option" where
  "WithProcessMonitoring pid m = m\<lparr>mo_pid := pid\<rparr>"

definition zero_metrics :: "'c metrics" where
  "zero_metrics =
     \<lparr>mt_Timestamp = 0, mt_CPU = zero_cpu,
      mt_Memory = \<lparr>ms_Total = 0, ms_Used = 0, ms_Free = 0, ms_UsedPercent = Fin 0, ms_Cached = 0, ms_Buffers = 0\<rparr>,
      mt_Disk = \<lparr>ds_Timestamp = 0, ds_Partitions = [], ds_TotalIO = zero_io, ds_PerDiskIO = Map.empty, ds_Errors = []\<rparr>,
      mt_Runtime = \<lparr>rt_Goroutines = 0, rt_HeapAlloc = 0, rt_StackAlloc = 0, rt_GCNums = 0, rt_GCPause = 0\<rparr>,
      mt_Network = \<lparr>ns_Connections = [], ns_IOCounters = [], ns_TotalBytesSent = 0, ns_TotalBytesRecv = 0,
                    ns_TotalPacketsSent = 0, ns_TotalPacketsRecv = 0, ns_InterfaceStats = Map.empty\<rparr>\<rparr>"

definition zero_meta :: meta where
  "zero_meta = \<lparr>me_LastCollectTime = None, me_SuccessCount = 0, me_ErrCount = 0, me_AverageTimeTaken = 0,
     me_TimeTakenQueue = []\<rparr>"

text \<open>\<open>pool_ok\<close>: \<open>ants.NewPool\<close> returned no error.\<close>

definition NewMonitor :: "bool \<Rightarrow> 'c mon_option list \<Rightarrow> 'c monitor option" where
  "NewMonitor pool_ok opts =
     (if \<not> pool_ok then None
      else Some (fold (\<lambda>opt m. opt m) opts
        \<lparr>mo_collectInterval = collectInterval, mo_reportInterval = reportInterval, mo_pid = 0, mo_observers = [],
         mo_prevIO = Map.empty, mo_cancelled = False, mo_metrics = zero_metrics, mo_meta = zero_meta, mo_running = 0,
         mo_released = False, mo_timeoutCtrl = newOpenSourceTimeout (f64_of_int collectInterval), mo_state = NewBool\<rparr>))"

definition Mon_Register :: "nat \<Rightarrow> 'c monitor \<Rightarrow> 'c monitor" where
  "Mon_Register observer m = m\<lparr>mo_observers := mo_observers m @ [observer]\<rparr>"

fun remove_first :: "nat \<Rightarrow> nat list \<Rightarrow> nat list" where
  "remove_first observer [] = []"
| "remove_first observer (ob # obs) = (if ob = observer then obs else ob # remove_first observer obs)"

definition Mon_Unregister :: "nat \<Rightarrow> 'c monitor \<Rightarrow> 'c monitor" where
  "Mon_Unregister observer m = m\<lparr>mo_observers := remove_first observer (mo_observers m)\<rparr>"

text \<open>The calls of \<open>Update\<close>, in order.\<close>

definition NotifyAll :: "'c monitor \<Rightarrow> (nat \<times> 'c metrics) list" where
  "NotifyAll m = (let copyObservers = mo_observers m in map (\<lambda>ob. (ob, mo_metrics m)) copyObservers)"

section \<open>Collecting\<close>

record 'c inputs =
  in_percs :: "f64 list option"
  in_times :: "times_stat list option"
  in_avg :: "avg_stat option"
  in_vms :: "virtual_memory option"
  in_connections :: "'c list"
  in_netIO :: "net_io_counters list"
  in_goroutines :: int
  in_memStats :: mem_stats
  in_partitions :: "partition_stat list"
  in_usage :: "string \<Rightarrow> string + usage_stat"
  in_diskIO :: "io_map \<times> string option"
  in_now :: int

text \<open>The five closures submitted to the pool, by number.\<close>

fun run_task :: "'c inputs \<Rightarrow> nat \<Rightarrow> 'c monitor \<Rightarrow> 'c monitor go" where
  "run_task i 0 m =
     (case CPU_Collect (in_percs i) (in_times i) (in_avg i) of
        Inl p \<Rightarrow> Inl p
      | Inr c \<Rightarrow> Inr (m\<lparr>mo_metrics := (mo_metrics m)\<lparr>mt_CPU := c\<rparr>\<rparr>))"
| "run_task i (Suc 0) m = Inr (m\<lparr>mo_metrics := (mo_metrics m)\<lparr>mt_Memory := Memory_Collect (in_vms i)\<rparr>\<rparr>)"
| "run_task i (Suc (Suc 0)) m =
     Inr (m\<lparr>mo_metrics := (mo_metrics m)\<lparr>mt_Network := Network_Collect (in_connections i) (in_netIO i)\<rparr>\<rparr>)"
| "run_task i (Suc (Suc (Suc 0))) m =
     (case Runtime_Collect (in_goroutines i) (in_memStats i) of
        Inl p \<Rightarrow> Inl p
      | Inr r \<Rightarrow> Inr (m\<lparr>mo_metrics := (mo_metrics m)\<lparr>mt_Runtime := r\<rparr>\<rparr>))"
| "run_task i _ m =
     (let (d, prevs) = Disk_Collect (me_LastCollectTime (mo_meta m)) (in_now i) (in_partitions i) (in_usage i)
                         (in_diskIO i) (mo_prevIO m)
      in Inr (m\<lparr>mo_metrics := (mo_metrics m)\<lparr>mt_Disk := d\<rparr>, mo_prevIO := prevs\<rparr>))"

fun run_tasks :: "'c inputs \<Rightarrow> nat list \<Rightarrow> 'c monitor \<Rightarrow> 'c monitor go" where
  "run_tasks i [] m = Inr m"
| "run_tasks i (k # ks) m = (case run_task i k m of Inl p \<Rightarrow> Inl p | Inr m1 \<Rightarrow> run_tasks i ks m1)"

definition total_duration :: "int list \<Rightarrow> int" where
  "total_duration q = fold (\<lambda>duration total. wrap64 (total + duration)) q 0"

definition record_success :: "int \<Rightarrow> int \<Rightarrow> meta \<Rightarrow> meta" where
  "record_success timeTaken now me =
     (let q = me_TimeTakenQueue me @ [timeTaken];
          n = wrap64 (me_SuccessCount me + 1);
          avg = (if go_rem n mod5 = 0 then go_quot (total_duration q) (int (length q)) else me_AverageTimeTaken me)
      in me\<lparr>me_TimeTakenQueue := q, me_SuccessCount := n, me_AverageTimeTaken := avg, me_LastCollectTime := Some now\<rparr>)"

definition record_timeout :: "int \<Rightarrow> meta \<Rightarrow> meta" where
  "record_timeout now me = me\<lparr>me_ErrCount := wrap64 (me_ErrCount me + 1), me_LastCollectTime := Some now\<rparr>"

text \<open>
  \<open>finished k\<close>: task \<open>k\<close>, if accepted, has ended when the \<open>select\<close> is decided; \<open>timer\<close>: the branch of the timer is
  taken although all have. The result is \<open>False\<close> for the error \<open>DeadlineExceeded\<close>.
\<close>

record 'c round =
  rd_inputs :: "'c inputs"
  rd_finished :: "nat \<Rightarrow> bool"
  rd_timer :: bool
  rd_start :: int
  rd_end :: int

definition collectAllMetrics :: "(bool \<Rightarrow> nat \<Rightarrow> bool) \<Rightarrow> 'c round \<Rightarrow> 'c monitor \<Rightarrow> (bool \<times> 'c monitor) go" where
  "collectAllMetrics accepts r m =
     (let ran = filter (\<lambda>k. accepts (mo_released m) k \<and> rd_finished r k) [0..<workers]
      in case run_tasks (rd_inputs r) ran m of
           Inl p \<Rightarrow> Inl p
         | Inr m1 \<Rightarrow>
             if length ran = workers \<and> \<not> rd_timer r then
               let timeTaken = go_quot (rd_end r - rd_start r) 1000000
               in Inr (True, m1\<lparr>mo_metrics := (mo_metrics m1)\<lparr>mt_Timestamp := timeTaken\<rparr>,
                                mo_meta := record_success timeTaken (rd_end r) (mo_meta m1)\<rparr>)
             else Inr (False, m1\<lparr>mo_meta := record_timeout (rd_end r) (mo_meta m1)\<rparr>))"

text \<open>One round of the loop of \<open>runCollector\<close> when its ticker fires.\<close>

definition runCollector_tick ::
    "(bool \<Rightarrow> nat \<Rightarrow> bool) \<Rightarrow> 'c round \<Rightarrow> 'c monitor \<Rightarrow> ((nat \<times> 'c metrics) list \<times> 'c monitor) go" where
  "runCollector_tick accepts r m =
     (case collectAllMetrics accepts r m of
        Inl p \<Rightarrow> Inl p
      | Inr (ok, m1) \<Rightarrow> if \<not> ok then Inr ([], m1) else Inr (NotifyAll m1, m1))"

text \<open>\<open>cancelled\<close>: the context passed by the caller is already cancelled.\<close>

definition Mon_Start :: "bool \<Rightarrow> 'c monitor \<Rightarrow> 'c monitor" where
  "Mon_Start cancelled m =
     (case Bool_CompareAndSwap False True (mo_state m) of
        (False, _) \<Rightarrow> m
      | (True, st) \<Rightarrow> m\<lparr>mo_state := st, mo_cancelled := cancelled, mo_running := mo_running m + 1\<rparr>)"

text \<open>\<open>Stop\<close> without its waiting, which changes nothing.\<close>

definition Mon_Stop :: "'c monitor \<Rightarrow> 'c monitor" where
  "Mon_Stop m =
     (case Bool_CompareAndSwap True False (mo_state m) of
        (False, _) \<Rightarrow> m
      | (True, st) \<Rightarrow> m\<lparr>mo_state := st, mo_cancelled := True, mo_released := True\<rparr>)"

section \<open>Runs\<close>

datatype 'c mon_op =
    DoRegister nat
  | DoUnregister nat
  | DoStart bool
  | DoStop
  | CallerCancels
  | CollectorTicks "'c round"
  | CollectorEnds
  | TaskEndsLate "'c inputs" nat

fun mon_step :: "(bool \<Rightarrow> nat \<Rightarrow> bool) \<Rightarrow> 'c mon_op \<Rightarrow> 'c monitor \<Rightarrow> ((nat \<times> 'c metrics) list \<times> 'c monitor) go" where
  "mon_step accepts (DoRegister ob) m = Inr ([], Mon_Register ob m)"
| "mon_step accepts (DoUnregister ob) m = Inr ([], Mon_Unregister ob m)"
| "mon_step accepts (DoStart c) m = Inr ([], Mon_Start c m)"
| "mon_step accepts DoStop m = Inr ([], Mon_Stop m)"
| "mon_step accepts CallerCancels m = Inr ([], m\<lparr>mo_cancelled := True\<rparr>)"
| "mon_step accepts (CollectorTicks r) m = (if mo_running m > 0 then runCollector_tick accepts r m else Inr ([], m))"
| "mon_step accepts CollectorEnds m =
     (if mo_running m > 0 \<and> mo_cancelled m then Inr ([], m\<lparr>mo_running := mo_running m - 1\<rparr>) else Inr ([], m))"
| "mon_step accepts (TaskEndsLate i k) m = (case run_task i k m of Inl p \<Rightarrow> Inl p | Inr m1 \<Rightarrow> Inr ([], m1))"

fun mon_run :: "(bool \<Rightarrow> nat \<Rightarrow> bool) \<Rightarrow> 'c mon_op list \<Rightarrow> 'c monitor \<Rightarrow> ((nat \<times> 'c metrics) list \<times> 'c monitor) go" where
  "mon_run accepts [] m = Inr ([], m)"
| "mon_run accepts (x # xs) m =
     (case mon_step accepts x m of
        Inl p \<Rightarrow> Inl p
      | Inr (us, m1) \<Rightarrow>
          (case mon_run accepts xs m1 of Inl p \<Rightarrow> Inl p | Inr (us', m2) \<Rightarrow> Inr (us @ us', m2)))"

section \<open>The Prometheus observer\<close>

datatype gauge = cpuUsage | memUsage | goroutines | heapAlloc | networkSent | networkRcv | diskUsage string string

text \<open>The calls of \<open>Set\<close> on the gauges.\<close>

definition PrometheusObserver_Update :: "'c metrics \<Rightarrow> (gauge \<times> f64) list" where
  "PrometheusObserver_Update m =
     [(cpuUsage, cpu_Usage (mt_CPU m)),
      (memUsage, ms_UsedPercent (mt_Memory m)),
      (goroutines, f64_of_int (uint (rt_Goroutines (mt_Runtime m)))),
      (heapAlloc, f64_of_int (uint (rt_HeapAlloc (mt_Runtime m)))),
      (networkSent, f64_of_int (uint (ns_TotalBytesSent (mt_Network m)))),
      (networkRcv, f64_of_int (uint (ns_TotalBytesRecv (mt_Network m))))] @
     map (\<lambda>p. (diskUsage (pt_Device p) (pt_MountPoint p), pt_UsedPercent p)) (ds_Partitions (mt_Disk m))"

section \<open>What a round changes\<close>

lemma run_task_keeps:
  assumes "run_task i k m = Inr m'"
  shows "mo_meta m' = mo_meta m" "mo_observers m' = mo_observers m" "mo_state m' = mo_state m"
    "mo_running m' = mo_running m" "mo_released m' = mo_released m" "mo_cancelled m' = mo_cancelled m"
  using assms by (cases "(i, k, m)" rule: run_task.cases; auto split: sum.splits prod.splits)+

lemma run_tasks_keeps:
  assumes "run_tasks i ks m = Inr m'"
  shows "mo_meta m' = mo_meta m" "mo_observers m' = mo_observers m" "mo_state m' = mo_state m"
    "mo_running m' = mo_running m" "mo_released m' = mo_released m" "mo_cancelled m' = mo_cancelled m"
  using assms by (induction ks arbitrary: m; auto split: sum.splits dest: run_task_keeps)+

lemma collect_keeps:
  assumes "collectAllMetrics accepts r m = Inr (ok, m')"
  shows "mo_observers m' = mo_observers m" "mo_state m' = mo_state m" "mo_running m' = mo_running m"
    "mo_released m' = mo_released m" "mo_cancelled m' = mo_cancelled m"
    "mo_meta m' = (if ok then record_success (go_quot (rd_end r - rd_start r) 1000000) (rd_end r) (mo_meta m)
                   else record_timeout (rd_end r) (mo_meta m))"
  using assms by (auto simp: collectAllMetrics_def Let_def split: sum.splits if_splits dest: run_tasks_keeps)

lemma collect_rejected:
  assumes "collectAllMetrics accepts r m = Inr (ok, m')" "mo_released m" "\<forall>k. \<not> accepts True k"
  shows "\<not> ok"
  using assms by (auto simp: collectAllMetrics_def Let_def workers_def split: sum.splits if_splits)

lemma tick_keeps:
  assumes "runCollector_tick accepts r m = Inr (us, m')"
  shows "mo_observers m' = mo_observers m" "mo_state m' = mo_state m" "mo_running m' = mo_running m"
    "mo_released m' = mo_released m" "mo_cancelled m' = mo_cancelled m" "us = [] \<or> us = NotifyAll m'"
  using assms by (auto simp: runCollector_tick_def split: sum.splits if_splits dest: collect_keeps)

lemma tickE:
  assumes "runCollector_tick accepts r m = Inr (us, m')"
  obtains ok where "collectAllMetrics accepts r m = Inr (ok, m')" "us = (if ok then NotifyAll m' else [])"
proof (cases "collectAllMetrics accepts r m")
  case (Inr res)
  obtain ok m1 where "res = (ok, m1)" by fastforce
  then show ?thesis using Inr assms that [of ok] by (auto simp: runCollector_tick_def split: if_splits)
qed (use assms in \<open>simp add: runCollector_tick_def\<close>)

lemma remove_first_count: "count_list (remove_first ob xs) o' = count_list xs o' - (if o' = ob then 1 else 0)"
  by (induction xs) auto

section \<open>Statistics\<close>

fun collect_rounds :: "(bool \<Rightarrow> nat \<Rightarrow> bool) \<Rightarrow> 'c round list \<Rightarrow> 'c monitor \<Rightarrow> (bool list \<times> 'c monitor) go" where
  "collect_rounds accepts [] m = Inr ([], m)"
| "collect_rounds accepts (r # rs) m =
     (case collectAllMetrics accepts r m of
        Inl p \<Rightarrow> Inl p
      | Inr (ok, m1) \<Rightarrow>
          (case collect_rounds accepts rs m1 of Inl p \<Rightarrow> Inl p | Inr (oks, m2) \<Rightarrow> Inr (ok # oks, m2)))"

definition taken :: "'c round \<Rightarrow> int" where
  "taken r = (rd_end r - rd_start r) div 1000000"

text \<open>The average over the longest prefix whose length is a multiple of five.\<close>

definition average_of :: "int list \<Rightarrow> int" where
  "average_of q = (let k = 5 * (length q div 5) in sum_list (take k q) div int k)"

lemma total_duration_sum:
  assumes "\<forall>d \<in> set q. 0 \<le> d" "sum_list q < 2 ^ 63"
  shows "total_duration q = sum_list q"
  using assms
proof (induction q rule: rev_induct)
  case Nil
  then show ?case by (simp add: total_duration_def)
next
  case (snoc d q)
  have "0 \<le> sum_list q" using snoc.prems(1) by (intro sum_list_nonneg) auto
  then show ?case using snoc by (simp add: total_duration_def)
qed

lemma average_snoc:
  "average_of (q @ [t]) = (if Suc (length q) mod 5 = 0 then sum_list (q @ [t]) div int (Suc (length q)) else average_of q)"
proof (cases "Suc (length q) mod 5 = 0")
  case True
  then have "5 * (length (q @ [t]) div 5) = length (q @ [t])" by (simp add: dvd_mult_div_cancel dvd_eq_mod_eq_0)
  then show ?thesis using True by (simp add: average_of_def Let_def)
next
  case False
  have d: "Suc (length q) div 5 = length q div 5" using False by (simp add: div_Suc)
  have "5 * (length q div 5) - length q = 0" by simp
  then show ?thesis using False by (simp add: average_of_def Let_def d)
qed

definition meta_ok :: "int list \<Rightarrow> nat \<Rightarrow> meta \<Rightarrow> bool" where
  "meta_ok q errs me \<longleftrightarrow> me_TimeTakenQueue me = q \<and> me_SuccessCount me = int (length q) \<and>
     me_ErrCount me = int errs \<and> me_AverageTimeTaken me = average_of q"

lemma record_success_ok:
  assumes "meta_ok q errs me" "\<forall>d \<in> set (q @ [t]). 0 \<le> d" "sum_list (q @ [t]) < 2 ^ 63" "length q + 1 < 2 ^ 63"
  shows "meta_ok (q @ [t]) errs (record_success t now me)"
proof -
  have n: "wrap64 (int (length q) + 1) = int (Suc (length q))" using assms(4) by (simp add: of_nat_less_iff [symmetric])
  have "0 \<le> sum_list (q @ [t])" using assms(2) by (intro sum_list_nonneg) auto
  moreover have "int (Suc (length q)) mod 5 = 0 \<longleftrightarrow> Suc (length q) mod 5 = 0"
    by (metis of_nat_0_eq_iff of_nat_numeral zmod_int)
  ultimately show ?thesis
    using assms(1) total_duration_sum [OF assms(2,3)] average_snoc [of q t]
    by (auto simp: meta_ok_def record_success_def Let_def n mod5_def go_rem_nonneg go_quot_nonneg)
qed

lemma rounds_meta:
  assumes "collect_rounds accepts rs m = Inr (oks, m')" "meta_ok q errs (mo_meta m)"
    and "\<forall>d \<in> set q. 0 \<le> d" "\<forall>r \<in> set rs. rd_start r \<le> rd_end r"
    and "sum_list q + (\<Sum>r\<leftarrow>rs. taken r) < 2 ^ 63" "length q + errs + length rs < 2 ^ 63"
  shows "length oks = length rs \<and>
    meta_ok (q @ map (taken \<circ> fst) (filter snd (zip rs oks))) (errs + length (filter Not oks)) (mo_meta m')"
  using assms
proof (induction rs arbitrary: m oks q errs)
  case Nil
  then show ?case by simp
next
  case (Cons r rs)
  obtain ok m1 oks1 where c: "collectAllMetrics accepts r m = Inr (ok, m1)" "collect_rounds accepts rs m1 = Inr (oks1, m')"
      "oks = ok # oks1"
    using Cons.prems(1) by (auto split: sum.splits)
  have t: "go_quot (rd_end r - rd_start r) 1000000 = taken r" "0 \<le> taken r"
    using Cons.prems(4) by (simp_all add: taken_def go_quot_nonneg pos_imp_zdiv_nonneg_iff)
  have rest: "0 \<le> (\<Sum>r\<leftarrow>rs. taken r)"
    using Cons.prems(4) by (intro sum_list_nonneg) (auto simp: taken_def pos_imp_zdiv_nonneg_iff)
  show ?case
  proof (cases ok)
    case True
    have "meta_ok (q @ [taken r]) errs (mo_meta m1)"
      using collect_keeps(6) [OF c(1)] True t Cons.prems rest
      by (auto intro!: record_success_ok)
    from Cons.IH [OF c(2) this] show ?thesis using Cons.prems t c(3) True by auto
  next
    case False
    have "wrap64 (int errs + 1) = int errs + 1" using Cons.prems(6) by simp
    then have "meta_ok q (Suc errs) (mo_meta m1)"
      using collect_keeps(6) [OF c(1)] False Cons.prems(2) by (simp add: meta_ok_def record_timeout_def)
    from Cons.IH [OF c(2) this] show ?thesis using Cons.prems t c(3) False by auto
  qed
qed

section \<open>Observers and starts\<close>

fun registered :: "nat \<Rightarrow> 'c mon_op list \<Rightarrow> nat \<Rightarrow> nat" where
  "registered ob [] n = n"
| "registered ob (DoRegister x # xs) n = registered ob xs (if x = ob then n + 1 else n)"
| "registered ob (DoUnregister x # xs) n = registered ob xs (if x = ob then n - 1 else n)"
| "registered ob (_ # xs) n = registered ob xs n"

lemma mon_runE:
  assumes "mon_run accepts (x # xs) m = Inr (us, m')"
  obtains us1 m1 us2 where "mon_step accepts x m = Inr (us1, m1)" "mon_run accepts xs m1 = Inr (us2, m')" "us = us1 @ us2"
  using assms by (auto split: sum.splits)

lemma start_stop_keeps [simp]:
  "mo_observers (Mon_Start c m) = mo_observers m" "mo_observers (Mon_Stop m) = mo_observers m"
  "mo_meta (Mon_Start c m) = mo_meta m" "mo_meta (Mon_Stop m) = mo_meta m"
  "mo_released (Mon_Start c m) = mo_released m"
  by (simp_all add: Mon_Start_def Mon_Stop_def split: prod.split bool.split)

lemma step_observers:
  assumes "mon_step accepts x m = Inr (us, m')"
  shows "registered ob (x # xs) (count_list (mo_observers m) ob) = registered ob xs (count_list (mo_observers m') ob)"
proof (cases x)
  case (CollectorTicks r)
  then have "mo_observers m' = mo_observers m" using assms tick_keeps(1) by (auto split: if_splits)
  then show ?thesis using CollectorTicks by simp
next
  case (TaskEndsLate i k)
  then have "mo_observers m' = mo_observers m" using assms run_task_keeps(2) by (auto split: sum.splits)
  then show ?thesis using TaskEndsLate by simp
next
  case CollectorEnds
  then have "mo_observers m' = mo_observers m" using assms by (auto split: if_splits)
  then show ?thesis using CollectorEnds by simp
next
  case (DoUnregister y)
  then have "mo_observers m' = remove_first y (mo_observers m)" using assms by (auto simp: Mon_Unregister_def)
  then show ?thesis using DoUnregister by (simp add: remove_first_count)
qed (use assms in \<open>auto simp: Mon_Register_def\<close>)

lemma run_observers:
  "mon_run accepts xs m = Inr (us, m') \<Longrightarrow>
   count_list (mo_observers m') ob = registered ob xs (count_list (mo_observers m) ob)"
proof (induction xs arbitrary: m us)
  case (Cons x xs)
  from Cons.prems obtain us1 m1 us2 where s: "mon_step accepts x m = Inr (us1, m1)" "mon_run accepts xs m1 = Inr (us2, m')"
    by (rule mon_runE)
  from Cons.IH [OF s(2)] step_observers [OF s(1)] show ?case by metis
qed simp

lemma released_step:
  assumes "mon_step accepts x m = Inr (us, m')" "mo_released m" "\<forall>k. \<not> accepts True k"
  shows "us = [] \<and> mo_released m' \<and> me_SuccessCount (mo_meta m') = me_SuccessCount (mo_meta m)"
proof (cases x)
  case (CollectorTicks r)
  show ?thesis
  proof (cases "mo_running m > 0")
    case True
    then have "runCollector_tick accepts r m = Inr (us, m')" using assms(1) CollectorTicks by simp
    from tickE [OF this] obtain ok
      where c: "collectAllMetrics accepts r m = Inr (ok, m')" "us = (if ok then NotifyAll m' else [])" .
    then have "\<not> ok" using collect_rejected [OF c(1) assms(2,3)] by simp
    then show ?thesis using c collect_keeps [OF c(1)] assms(2) by (simp add: record_timeout_def)
  next
    case False
    then show ?thesis using assms CollectorTicks by simp
  qed
next
  case (TaskEndsLate i k)
  then show ?thesis using assms by (auto split: sum.splits dest: run_task_keeps)
qed (use assms in \<open>auto simp: Mon_Register_def Mon_Unregister_def Mon_Stop_def Mon_Start_def split: if_splits prod.splits bool.splits\<close>)

lemma released_run:
  assumes "mon_run accepts xs m = Inr (us, m')" "mo_released m" "\<forall>k. \<not> accepts True k"
  shows "us = [] \<and> me_SuccessCount (mo_meta m') = me_SuccessCount (mo_meta m)"
  using assms(1,2)
proof (induction xs arbitrary: m us)
  case (Cons x xs)
  from Cons.prems(1) obtain us1 m1 us2
    where s: "mon_step accepts x m = Inr (us1, m1)" "mon_run accepts xs m1 = Inr (us2, m')" "us = us1 @ us2"
    by (rule mon_runE)
  from released_step [OF s(1) Cons.prems(2) assms(3)] Cons.IH [OF s(2)] s(3) show ?case by simp
qed simp

definition single :: "'c monitor \<Rightarrow> bool" where
  "single m \<longleftrightarrow> bool_wf (mo_state m) \<and> mo_running m \<le> 1 \<and> (\<not> Bool_Load (mo_state m) \<longrightarrow> mo_running m = 0)"

lemma single_step:
  assumes "mon_step accepts x m = Inr (us, m')" "single m" "x \<noteq> DoStop"
  shows "single m'"
proof (cases x)
  case (DoStart c)
  then have m': "m' = Mon_Start c m" using assms(1) by simp
  have wf: "bool_wf (mo_state m)" using assms(2) by (simp add: single_def)
  show ?thesis
    using assms(2) bool_cell.load_store [OF wf, of True]
    by (auto simp: m' Mon_Start_def bool_cell.cas_store [OF wf] single_def)
next
  case (CollectorTicks r)
  then show ?thesis using assms by (auto simp: single_def split: if_splits dest: tick_keeps)
next
  case (TaskEndsLate i k)
  then show ?thesis using assms by (auto simp: single_def split: sum.splits dest: run_task_keeps)
qed (use assms in \<open>auto simp: single_def Mon_Register_def Mon_Unregister_def split: if_splits\<close>)

lemma single_run:
  assumes "mon_run accepts xs m = Inr (us, m')" "single m" "DoStop \<notin> set xs"
  shows "single m'"
  using assms
proof (induction xs arbitrary: m us)
  case (Cons x xs)
  from Cons.prems(1) obtain us1 m1 us2 where s: "mon_step accepts x m = Inr (us1, m1)" "mon_run accepts xs m1 = Inr (us2, m')"
    by (rule mon_runE)
  have "single m1" using single_step [OF s(1) Cons.prems(2)] Cons.prems(3) by auto
  then show ?case using Cons.IH [OF s(2)] Cons.prems(3) by simp
qed simp

definition sample_inputs :: "nat inputs" where
  "sample_inputs =
     \<lparr>in_percs = Some [Fin 7], in_times = None, in_avg = None, in_vms = None, in_connections = [], in_netIO = [],
      in_goroutines = 3, in_memStats = \<lparr>rm_HeapAlloc = 0, rm_StackInuse = 0, rm_NumGC = 0, rm_PauseNs = []\<rparr>,
      in_partitions = [], in_usage = (\<lambda>_. Inl []), in_diskIO = (Map.empty, None), in_now = 0\<rparr>"

definition sample_round :: "bool \<Rightarrow> nat round" where
  "sample_round t = \<lparr>rd_inputs = sample_inputs, rd_finished = (\<lambda>_. True), rd_timer = t, rd_start = 0, rd_end = 2000000\<rparr>"

definition sample_monitor :: "nat monitor" where
  "sample_monitor = the (NewMonitor True [])"

text \<open>A pool that takes every task until it is released.\<close>

definition sample_pool :: "bool \<Rightarrow> nat \<Rightarrow> bool" where
  "sample_pool released k = (\<not> released)"

lemma new_monitor:
  assumes "NewMonitor True [] = Some m"
  shows "mo_observers m = []" "meta_ok [] 0 (mo_meta m)" "single m" "mo_reportInterval m = reportInterval"
    "mo_timeoutCtrl m = newOpenSourceTimeout (f64_of_int collectInterval)"
  using assms
  by (auto simp: NewMonitor_def zero_meta_def meta_ok_def average_of_def single_def Bool_Load_def NewBool_def bool_wf_def)

lemma sample_new: "NewMonitor True [] = Some sample_monitor"
  by (simp add: sample_monitor_def NewMonitor_def)

section \<open>Properties\<close>

text \<open>
  C31: the statistics of the monitor are exact. After any sequence of rounds of a new monitor, successful
  or timed out, the queue holds the durations of the successful ones in order, the two counters say how
  many there were of each kind, and the average is that of the durations up to the last multiple of five.
\<close>

theorem monitor_statistics:
  assumes "NewMonitor True [] = Some m" "collect_rounds accepts rs m = Inr (oks, m')"
    and "\<forall>r \<in> set rs. rd_start r \<le> rd_end r" "(\<Sum>r\<leftarrow>rs. taken r) < 2 ^ 63" "length rs < 2 ^ 63"
  shows "let q = map (taken \<circ> fst) (filter snd (zip rs oks)); n = length q; k = 5 * (n div 5); me = mo_meta m'
    in me_TimeTakenQueue me = q \<and> me_SuccessCount me = int n \<and> me_ErrCount me = int (length rs) - int n \<and>
       me_AverageTimeTaken me = sum_list (take k q) div int k"
proof -
  have inv: "length oks = length rs \<and>
      meta_ok ([] @ map (taken \<circ> fst) (filter snd (zip rs oks))) (0 + length (filter Not oks)) (mo_meta m')"
    using assms(3-5) by (intro rounds_meta [OF assms(2) new_monitor(2) [OF assms(1)]]) simp_all
  have "length (filter snd (zip rs oks)) = length (filter id oks)" if "length oks = length rs"
    using that by (induction oks rs rule: list_induct2) auto
  moreover have "length (filter id oks) + length (filter Not oks) = length oks"
    using sum_length_filter_compl [of id oks] by (simp add: id_def)
  ultimately show ?thesis using inv by (simp add: meta_ok_def average_of_def Let_def)
qed

theorem monitor_statistics_witness:
  "\<exists>oks m'. collect_rounds sample_pool [sample_round False, sample_round True] sample_monitor = Inr (oks, m') \<and>
     me_TimeTakenQueue (mo_meta m') = [2] \<and> me_ErrCount (mo_meta m') = 1"
proof -
  let ?rs = "[sample_round False, sample_round True]"
  have ran: "filter (\<lambda>k. True) [0..<5] = [0, Suc 0, Suc (Suc 0), Suc (Suc (Suc 0)), Suc (Suc (Suc (Suc 0)))]"
    by (simp add: upt_rec)
  have "\<exists>m'. collect_rounds sample_pool ?rs sample_monitor = Inr ([True, False], m')"
    by (simp add: sample_monitor_def NewMonitor_def collectAllMetrics_def workers_def sample_pool_def sample_round_def
        ran sample_inputs_def CPU_Collect_def Runtime_Collect_def gc_pause_def zero_meta_def Let_def case_prod_unfold)
  then obtain m' where c: "collect_rounds sample_pool ?rs sample_monitor = Inr ([True, False], m')" ..
  have "taken (sample_round b) = 2" "rd_start (sample_round b) \<le> rd_end (sample_round b)" for b
    by (simp_all add: taken_def sample_round_def)
  with monitor_statistics [OF sample_new c] c show ?thesis by (simp add: Let_def)
qed



text \<open>
  \<open>Start\<close> is idempotent. However often and in whatever order it is called by concurrent callers,
  before the first \<open>Stop\<close> at most one collector goroutine runs, and only after a \<open>Start\<close>.
\<close>

theorem one_collector:
  assumes "NewMonitor True [] = Some m0" "mon_run accepts xs m0 = Inr (us, m)" "DoStop \<notin> set xs"
  shows "mo_running m \<le> 1 \<and> (mo_running m = 1 \<longrightarrow> Bool_Load (mo_state m))"
  using single_run [OF assms(2) new_monitor(3) [OF assms(1)] assms(3)] by (auto simp: single_def)

theorem one_collector_witness:
  "\<exists>us m. mon_run sample_pool [DoStart False, DoStart False] sample_monitor = Inr (us, m) \<and> mo_running m \<le> 1"
proof -
  obtain us m where r: "mon_run sample_pool [DoStart False, DoStart False] sample_monitor = Inr (us, m)" by simp
  from one_collector [OF sample_new r] r show ?thesis by simp
qed



text \<open>
  The timeout is a fraction of the interval when the ratio is between 0 and 1. The ratio a new monitor
  is given is the interval itself, in nanoseconds, and with it the product does not fit into a duration.
\<close>

theorem timeout_fraction:
  "(0 \<le> i \<and> i \<le> 2 ^ 53 \<and> 0 \<le> ratio \<and> ratio \<le> 1 \<longrightarrow>
      (\<exists>t. OpenSource_Timeout (Fin ratio) i = Some t \<and> 0 \<le> t \<and> t \<le> i)) \<and>
   (NewMonitor True [] = Some m \<longrightarrow> mo_timeoutCtrl m (mo_reportInterval m) = None)"
proof (intro conjI impI)
  assume a: "0 \<le> i \<and> i \<le> 2 ^ 53 \<and> 0 \<le> ratio \<and> ratio \<le> 1"
  let ?p = "of_int i * ratio"
  have le: "?p \<le> of_int i" "0 \<le> ?p" using a by (simp_all add: mult_left_le)
  have i: "f64_of_int i = Fin (of_int i)" using a by (intro f64_of_int_exact) simp
  have "(of_int i :: rat) \<le> of_int (2 ^ 53)" using a by (simp only: of_int_le_iff)
  moreover have "(of_int (2 ^ 53) :: rat) \<le> pow2 200" using pow2_mono [of 53 200] by (simp add: pow2_def [of 53])
  ultimately have "to_f64 ?p = Fin (round64 ?p)" using le by (intro to_f64_finite) (metis abs_of_nonneg order_trans)
  moreover have r: "0 \<le> round64 ?p" "round64 ?p \<le> of_int i"
    using le a round64_numeral_bounds(1) [of i ?p] by (simp_all add: round64_nonneg)
  moreover have "0 \<le> \<lfloor>round64 ?p\<rfloor>" "\<lfloor>round64 ?p\<rfloor> \<le> i" using r by (simp_all add: floor_le_iff)
  ultimately show "\<exists>t. OpenSource_Timeout (Fin ratio) i = Some t \<and> 0 \<le> t \<and> t \<le> i"
    using a by (simp add: OpenSource_Timeout_def i Let_def)
next
  assume "NewMonitor True [] = Some m"
  note n = new_monitor(4,5) [OF this]
  have x: "f64_of_int 5000000000 = Fin 5000000000" using f64_of_int_exact [of 5000000000] by simp
  have r: "round64 25000000000000000000 = 25000000000000000000"
    using round64_exact [of "5 ^ 20" 18] by (simp add: pow2_def)
  have "(25000000000000000000 :: rat) \<le> pow2 65" by (simp add: pow2_def)
  also have "\<dots> \<le> pow2 200" by (rule pow2_mono) simp
  finally have "to_f64 25000000000000000000 = Fin 25000000000000000000" by (simp add: to_f64_finite r)
  then show "mo_timeoutCtrl m (mo_reportInterval m) = None"
    by (simp add: n newOpenSourceTimeout_def OpenSource_Timeout_def reportInterval_def collectInterval_def x)
qed

theorem timeout_fraction_witness:
  "(\<exists>t. OpenSource_Timeout (Fin (1 / 2)) 1000 = Some t \<and> 0 \<le> t \<and> t \<le> 1000) \<and>
   mo_timeoutCtrl sample_monitor (mo_reportInterval sample_monitor) = None"
  using timeout_fraction [of 1000 "1 / 2" sample_monitor] sample_new by simp

end
