(* ===== verification/Prom_Registry.thy ===== *)
theory Prom_Registry
  imports Batch_Metrics Sys_Monitor
begin

text \<open>
  The registration of the metric objects: \<open>NewPrometheus\<close> and \<open>GetHandler\<close> of \<open>src/core/metrics/prometheus.go\<close> with
  their two package variables, and \<open>NewPrometheusObserver\<close> of \<open>src/metrics/observer.go\<close>. The registry belongs to the
  Prometheus client library. What it answers to \<open>Register\<close> is a parameter \<open>accepts\<close>; the theorems assume
  what its documentation says: a metric is refused if its name is invalid or already registered. Which
  names are valid depends on a setting of the library, so it is a parameter as well: the namespace of
  the collector has a space, which the classic rule forbids. The batch collector never adds a negative value to
  one of the counters, which would panic.
\<close>

section \<open>Registries\<close>

datatype metric_kind =
    CounterKind | CounterVecKind "string list" | GaugeKind | GaugeVecKind "string list" | HistogramKind

record metric_opts =
  op_Namespace :: string
  op_Name :: string
  op_Help :: string
  op_kind :: metric_kind

type_synonym registry = "metric_opts list"

text \<open>\<open>registry.MustRegister(c1, c2, ...)\<close>; \<open>None\<close> is the panic with the error of \<open>Register\<close>.\<close>

fun must_register :: "(registry \<Rightarrow> metric_opts \<Rightarrow> bool) \<Rightarrow> metric_opts list \<Rightarrow> registry \<Rightarrow> registry option" where
  "must_register accepts [] reg = Some reg"
| "must_register accepts (c # cs) reg =
     (if accepts reg c then must_register accepts cs (reg @ [c]) else None)"

section \<open>The collector\<close>

definition namespace :: string where
  "namespace = ''turbo stream''"

text \<open>The assignments of \<open>register\<close>, each followed by a call of \<open>MustRegister\<close>.\<close>

definition registrations :: "(metric \<times> metric_opts) list" where
  "registrations =
     [(writeCounter, \<lparr>op_Namespace = namespace, op_Name = ''write_counts_total'', op_Help = ''Number of metrics written by write.'', op_kind = CounterVecKind [''result'']\<rparr>),
      (writeSizes, \<lparr>op_Namespace = namespace, op_Name = ''write_sizes_total'', op_Help = ''Number of metrics written by write sizes.'', op_kind = CounterKind\<rparr>),
      (writeErrors, \<lparr>op_Namespace = namespace, op_Name = ''write_errors_total'', op_Help = ''Number of errors encountered by write.'', op_kind = CounterKind\<rparr>),
      (readCounter, \<lparr>op_Namespace = namespace, op_Name = ''read_counts_total'', op_Help = ''Number of metrics read.'', op_kind = CounterVecKind [''result'']\<rparr>),
      (readSizes, \<lparr>op_Namespace = namespace, op_Name = ''read_metrics_sizes_total'', op_Help = ''Number of metrics read sizes.'', op_kind = CounterKind\<rparr>),
      (readErrors, \<lparr>op_Namespace = namespace, op_Name = ''read_metrics_errors_total'', op_Help = ''Number of read errors.'', op_kind = CounterKind\<rparr>),
      (poolAlloc, \<lparr>op_Namespace = namespace, op_Name = ''pool_alloc_total'', op_Help = ''Number of pool allocations.'', op_kind = CounterKind\<rparr>),
      (asyncWorkers, \<lparr>op_Namespace = namespace, op_Name = ''async_workers'', op_Help = ''Number of async workers.'', op_kind = GaugeKind\<rparr>),
      (switchCounts, \<lparr>op_Namespace = namespace, op_Name = ''switch_counts_total'', op_Help = ''Number of switches.'', op_kind = CounterKind\<rparr>),
      (activeChannelDataCounts, \<lparr>op_Namespace = namespace, op_Name = ''active_channel_data_counts'', op_Help = ''Number of active channels.'', op_kind = GaugeKind\<rparr>),
      (activeChannelDataSizes, \<lparr>op_Namespace = namespace, op_Name = ''active_channel_data_sizes'', op_Help = ''Number of active channel sizes.'', op_kind = GaugeKind\<rparr>),
      (switchLatency, \<lparr>op_Namespace = namespace, op_Name = ''switch_latency'', op_Help = ''Latency of switches.'', op_kind = HistogramKind\<rparr>),
      (skipSwitchCounts, \<lparr>op_Namespace = namespace, op_Name = ''skip_switch_counts_total'', op_Help = ''Number of skip switches.'', op_kind = CounterKind\<rparr>)]"

fun register_fields ::
    "(registry \<Rightarrow> metric_opts \<Rightarrow> bool) \<Rightarrow> (metric \<times> metric_opts) list \<Rightarrow> (metric \<rightharpoonup> metric_opts) \<times> registry \<Rightarrow>
     ((metric \<rightharpoonup> metric_opts) \<times> registry) option" where
  "register_fields accepts [] (flds, reg) = Some (flds, reg)"
| "register_fields accepts ((m, c) # rest) (flds, reg) =
     (case must_register accepts [c] reg of
        None \<Rightarrow> None
      | Some reg1 \<Rightarrow> register_fields accepts rest (flds(m \<mapsto> c), reg1))"

text \<open>
  The objects that exist, by number, and the package variables \<open>mc\<close> and \<open>registry\<close> (\<open>None\<close> is nil). A collector is the
  model of \<open>Batch_Metrics\<close> with the metric objects in its fields and the registry they were registered in.
\<close>

record collector =
  cl_state :: prometheus
  cl_fields :: "metric \<rightharpoonup> metric_opts"
  cl_registry :: nat

record prom_globals =
  pg_registries :: "registry list"
  pg_collectors :: "collector list"
  pg_mc :: "nat option"
  pg_registry :: "nat option"

definition NewPrometheus_call ::
    "(registry \<Rightarrow> metric_opts \<Rightarrow> bool) \<Rightarrow> prom_globals \<Rightarrow> (nat \<times> prom_globals) option" where
  "NewPrometheus_call accepts g =
     (let p = length (pg_collectors g); r = length (pg_registries g)
      in case register_fields accepts registrations (Map.empty, []) of
           None \<Rightarrow> None
         | Some (flds, reg) \<Rightarrow>
             Some (p, \<lparr>pg_registries = pg_registries g @ [reg],
                       pg_collectors = pg_collectors g @ [\<lparr>cl_state = NewPrometheus, cl_fields = flds, cl_registry = r\<rparr>],
                       pg_mc = Some p, pg_registry = Some r\<rparr>))"

text \<open>A handler serves the registry that the variable holds when \<open>GetHandler\<close> is called.\<close>

definition GetHandler :: "prom_globals \<Rightarrow> nat option" where
  "GetHandler g = pg_registry g"

definition served :: "nat option \<Rightarrow> prom_globals \<Rightarrow> registry option" where
  "served h g = (case h of None \<Rightarrow> None | Some r \<Rightarrow> Some (pg_registries g ! r))"

section \<open>The observer\<close>

fun gauge_opts :: "gauge \<Rightarrow> metric_opts" where
  "gauge_opts cpuUsage =
     \<lparr>op_Namespace = [], op_Name = ''system_cpu_usage_percent'',
      op_Help = ''Current CPU usage in percent'', op_kind = GaugeKind\<rparr>"
| "gauge_opts memUsage =
     \<lparr>op_Namespace = [], op_Name = ''system_memory_usage_percent'',
      op_Help = ''Current memory usage in percent'', op_kind = GaugeKind\<rparr>"
| "gauge_opts goroutines =
     \<lparr>op_Namespace = [], op_Name = ''runtime_goroutines'',
      op_Help = ''Number of active goroutines'', op_kind = GaugeKind\<rparr>"
| "gauge_opts heapAlloc =
     \<lparr>op_Namespace = [], op_Name = ''runtime_heap_alloc_bytes'',
      op_Help = ''Bytes allocated on the heap'', op_kind = GaugeKind\<rparr>"
| "gauge_opts networkSent =
     \<lparr>op_Namespace = [], op_Name = ''network_bytes_sent'',
      op_Help = ''Total bytes sent over the network'', op_kind = GaugeKind\<rparr>"
| "gauge_opts networkRcv =
     \<lparr>op_Namespace = [], op_Name = ''network_bytes_received'',
      op_Help = ''Total bytes received over the network'', op_kind = GaugeKind\<rparr>"
| "gauge_opts (diskUsage dev mount) =
     \<lparr>op_Namespace = [], op_Name = ''disk_usage_percent'',
      op_Help = ''Disk usage by partition'', op_kind = GaugeVecKind [''partition'', ''mountpoint'']\<rparr>"

text \<open>The vector of the disk gauges is one object, whatever the labels.\<close>

definition NewPrometheusObserver :: "(registry \<Rightarrow> metric_opts \<Rightarrow> bool) \<Rightarrow> registry option" where
  "NewPrometheusObserver accepts =
     must_register accepts
       (map gauge_opts [cpuUsage, memUsage, goroutines, heapAlloc, networkSent, networkRcv, diskUsage [] []]) []"

text \<open>The values of the gauges after calls of \<open>Set\<close>.\<close>

fun after_sets :: "(gauge \<times> f64) list \<Rightarrow> (gauge \<rightharpoonup> f64) \<Rightarrow> gauge \<rightharpoonup> f64" where
  "after_sets [] g = g"
| "after_sets ((k, v) # cs) g = after_sets cs (g(k \<mapsto> v))"

lemma after_sets_other: "k \<notin> fst ` set cs \<Longrightarrow> after_sets cs g k = g k"
  by (induction cs g rule: after_sets.induct) auto

lemma after_sets_distinct: "distinct (map fst cs) \<Longrightarrow> (k, v) \<in> set cs \<Longrightarrow> after_sets cs g k = Some v"
proof (induction cs g rule: after_sets.induct)
  case (2 k' v' cs g)
  then show ?case using after_sets_other [of k' cs "g(k' \<mapsto> v')"]
    by (auto simp del: fun_upd_apply) (simp add: fun_upd_same)
qed simp

section \<open>What the library answers\<close>

text \<open>The classic rule for names: letters, digits, underscores and colons, no digit in front.\<close>

definition name_char :: "char \<Rightarrow> bool" where
  "name_char c \<longleftrightarrow>
     (let n = (of_char c :: nat) in 97 \<le> n \<and> n \<le> 122 \<or> 65 \<le> n \<and> n \<le> 90 \<or> 48 \<le> n \<and> n \<le> 57 \<or> n = 95 \<or> n = 58)"

definition classic_name :: "string \<Rightarrow> bool" where
  "classic_name s \<longleftrightarrow>
     s \<noteq> [] \<and> list_all name_char s \<and> \<not> (48 \<le> (of_char (hd s) :: nat) \<and> (of_char (hd s) :: nat) \<le> 57)"

text \<open>The full name: namespace and name are joined by an underscore unless the namespace is empty.\<close>

definition full_name :: "metric_opts \<Rightarrow> string" where
  "full_name c = (if op_Namespace c = [] then op_Name c else op_Namespace c @ ''_'' @ op_Name c)"

definition documented :: "(string \<Rightarrow> bool) \<Rightarrow> (registry \<Rightarrow> metric_opts \<Rightarrow> bool) \<Rightarrow> bool" where
  "documented valid accepts \<longleftrightarrow>
     (\<forall>reg c. accepts reg c \<longleftrightarrow> valid (full_name c) \<and> full_name c \<notin> full_name ` set reg)"

lemma must_register_all:
  assumes "documented valid accepts" "\<forall>c \<in> set cs. valid (full_name c)" "distinct (map full_name (reg @ cs))"
  shows "must_register accepts cs reg = Some (reg @ cs)"
  using assms(2,3)
proof (induction cs arbitrary: reg)
  case Nil
  then show ?case by simp
next
  case (Cons c cs)
  have "accepts reg c" using assms(1) Cons.prems by (auto simp: documented_def)
  then show ?case using Cons by simp
qed

lemma register_fields_all:
  assumes "documented valid accepts" "\<forall>(m, c) \<in> set cs. valid (full_name c)"
    "distinct (map full_name (reg @ map snd cs))"
  shows "register_fields accepts cs (flds, reg) = Some (flds ++ map_of (rev cs), reg @ map snd cs)"
  using assms(2,3)
proof (induction cs arbitrary: flds reg)
  case Nil
  then show ?case by simp
next
  case (Cons x cs)
  obtain m c where x: "x = (m, c)" by fastforce
  have "accepts reg c" using assms(1) Cons.prems by (auto simp: documented_def x)
  then show ?case using Cons by (auto simp: x map_add_def map_of_append split: option.splits)
qed

lemma collector_names:
  "distinct (map full_name (map snd registrations))"
  by (simp add: registrations_def full_name_def namespace_def)

lemma observer_names:
  "distinct (map full_name (map gauge_opts [cpuUsage, memUsage, goroutines, heapAlloc, networkSent, networkRcv, diskUsage [] []]))"
  by (simp add: full_name_def)

lemma distinct_filter_one: "distinct (map f xs) \<Longrightarrow> c \<in> set xs \<Longrightarrow> length (filter (\<lambda>x. f x = f c) xs) = 1"
  by (induction xs) (auto simp: filter_empty_conv image_iff)

lemma field_of_metric: "map_of (rev registrations) m = map_of registrations m"
  by (cases m) (simp_all add: registrations_def)

lemma every_metric: "\<exists>c. map_of registrations m = Some c"
  by (cases m) (simp_all add: registrations_def)

section \<open>Counters only grow\<close>

text \<open>
  A counter of the library panics when a negative value is added to it. \<open>weight\<close> and \<open>pending_value\<close> are those of
  \<open>Batch_Metrics\<close>.
\<close>

definition is_counter :: "metric \<Rightarrow> bool" where
  "is_counter m =
     (case map_of registrations m of
        None \<Rightarrow> False
      | Some c \<Rightarrow> (case op_kind c of CounterKind \<Rightarrow> True | CounterVecKind labels \<Rightarrow> True | _ \<Rightarrow> False))"

fun negative :: "f64 \<Rightarrow> bool" where
  "negative (Fin x) = (x < 0)"
| "negative NInf = True"
| "negative _ = False"

fun call_panics :: "metric_call \<Rightarrow> bool" where
  "call_panics (Add m v) = (is_counter m \<and> negative v)"
| "call_panics _ = False"

lemma is_counter_iff: "is_counter m \<longleftrightarrow> m \<in> counted \<or> m = skipSwitchCounts"
  by (cases m) (simp_all add: is_counter_def registrations_def counted_def)

lemma f64_of_int_not_negative [simp]: "0 \<le> n \<Longrightarrow> \<not> negative (f64_of_int n)"
  using round64_nonneg [of "of_int n"] pow2_pos [of 1024]
  by (simp add: f64_of_int_def to_f64_def Let_def not_less)

definition recorded_ok :: "int \<Rightarrow> prometheus batch_collector \<Rightarrow> bool" where
  "recorded_ok n b \<longleftrightarrow> (\<forall>m \<in> counted. 0 \<le> pending_value m b \<and> pending_value m b \<le> n)"

text \<open>An event weighs no more than this in any counter.\<close>

fun event_size :: "event \<Rightarrow> int" where
  "event_size (EvWrite n err) = n + 1"
| "event_size (EvRead c n err) = c + n + 1"
| "event_size EvReport = 0"
| "event_size _ = 1"

fun event_ok :: "event \<Rightarrow> bool" where
  "event_ok (EvWrite n err) = (0 \<le> n)"
| "event_ok (EvRead c n err) = (0 \<le> c \<and> 0 \<le> n)"
| "event_ok _ = True"

lemma weight_bound: "event_ok e \<Longrightarrow> 0 \<le> weight m e \<and> weight m e \<le> event_size e"
proof (cases e)
  case (EvWrite n err)
  then show "event_ok e \<Longrightarrow> ?thesis" by (cases err; cases m) simp_all
next
  case (EvRead c n err)
  then show "event_ok e \<Longrightarrow> ?thesis" by (cases err; cases m) simp_all
qed (cases m; simp)+

lemma report_no_panic:
  assumes "recorded_ok n b" "c \<in> set (fst (report b))"
  shows "\<not> call_panics c"
proof -
  have "0 \<le> pending_value m b" if "m \<in> counted" for m using assms(1) that by (simp add: recorded_ok_def)
  from this [of writeCounter] this [of writeSizes] this [of writeErrors] this [of readCounter] this [of readSizes]
    this [of readErrors] this [of switchCounts] this [of poolAlloc]
  show ?thesis
    using assms(2)
    by (auto simp: counted_def is_counter_iff report_def report_write_def report_read_def report_supporting_def Let_def
        observe_defs Write_Reset_def Read_Reset_def SwitchSkip_def SwitchSuccess_def split: if_splits)
qed

lemma handle_recorded:
  assumes "recorded_ok n b" "event_ok e" "n + event_size e \<le> 2 ^ 53"
  shows "recorded_ok (n + event_size e) (snd (handle e b)) \<and> (\<forall>c \<in> set (fst (handle e b)). \<not> call_panics c)"
proof -
  have "0 \<le> pending_value m (snd (handle e b)) \<and> pending_value m (snd (handle e b)) \<le> n + event_size e"
    if m: "m \<in> counted" for m
  proof -
    have p: "0 \<le> pending_value m b" "pending_value m b \<le> n" using assms(1) m by (simp_all add: recorded_ok_def)
    note w = weight_bound [OF assms(2), of m]
    have "\<bar>pending_value m b + weight m e\<bar> \<le> 2 ^ 53" using p w assms(3) by linarith
    from handle_pending [OF m this] show ?thesis using p w by auto
  qed
  then have "recorded_ok (n + event_size e) (snd (handle e b))" by (simp add: recorded_ok_def)
  moreover have "fst (handle e b) = [] \<or> handle e b = report b" by (cases e) simp_all
  ultimately show ?thesis using report_no_panic [OF assms(1)] by auto
qed

lemma handle_all_no_panic:
  assumes "recorded_ok n b" "\<forall>e \<in> set es. event_ok e" "n + sum_list (map event_size es) \<le> 2 ^ 53"
  shows "recorded_ok (n + sum_list (map event_size es)) (snd (handle_all es b)) \<and>
    (\<forall>c \<in> set (fst (handle_all es b)). \<not> call_panics c)"
  using assms
proof (induction es arbitrary: n b)
  case Nil
  then show ?case by simp
next
  case (Cons e es)
  let ?b = "snd (handle e b)"
  have "0 \<le> event_size e'" if "event_ok e'" for e' using that by (cases e') simp_all
  then have "0 \<le> sum_list (map event_size es)" using Cons.prems(2) by (auto intro!: sum_list_nonneg)
  then have h: "recorded_ok (n + event_size e) ?b" "\<forall>c \<in> set (fst (handle e b)). \<not> call_panics c"
    using handle_recorded [OF Cons.prems(1), of e] Cons.prems(2,3) by auto
  have "fst (handle_all (e # es) b) = fst (handle e b) @ fst (handle_all es ?b)"
      "snd (handle_all (e # es) b) = snd (handle_all es ?b)"
    by (simp_all add: Let_def split: prod.splits)
  then show ?case using Cons.IH [OF h(1)] Cons.prems(2,3) h(2) by (auto simp: add.assoc)
qed

section \<open>Properties\<close>


definition any_name :: "registry \<Rightarrow> metric_opts \<Rightarrow> bool" where
  "any_name reg c \<longleftrightarrow> full_name c \<notin> full_name ` set reg"


text \<open>
  C38: which constructor depends on the rule for names. The metrics of the monitor's observer have classic names, so
  \<open>NewPrometheusObserver\<close> succeeds under the classic rule and under every wider one. The namespace
  of the collector has a space: under the classic rule the first \<open>MustRegister\<close> of \<open>NewPrometheus\<close> panics.
\<close>

theorem names_and_rules:
  assumes "documented valid accepts" "\<And>s. classic_name s \<Longrightarrow> valid s"
  shows "NewPrometheusObserver accepts =
      Some (map gauge_opts [cpuUsage, memUsage, goroutines, heapAlloc, networkSent, networkRcv, diskUsage [] []]) \<and>
    (\<forall>m. gauge_opts m \<in> set (the (NewPrometheusObserver accepts))) \<and>
    ((\<forall>s. valid s \<longrightarrow> classic_name s) \<longrightarrow> NewPrometheus_call accepts g = None)"
proof -
  let ?gs = "map gauge_opts [cpuUsage, memUsage, goroutines, heapAlloc, networkSent, networkRcv, diskUsage [] []]"
  have "classic_name (full_name c)" if "c \<in> set ?gs" for c
    using that by (auto simp: classic_name_def full_name_def name_char_def)
  then have obs: "NewPrometheusObserver accepts = Some ?gs"
    unfolding NewPrometheusObserver_def
    using must_register_all [OF assms(1), of ?gs "[]"] assms(2) observer_names by simp
  have "gauge_opts m \<in> set ?gs" for m by (cases m) simp_all
  moreover have "NewPrometheus_call accepts g = None" if "\<forall>s. valid s \<longrightarrow> classic_name s"
  proof -
    obtain m c cs where r: "registrations = (m, c) # cs" "op_Namespace c = namespace" by (simp add: registrations_def)
    have "\<not> classic_name (full_name c)"
      by (simp add: classic_name_def full_name_def r(2) namespace_def name_char_def)
    then have "\<not> accepts [] c" using assms(1) that by (auto simp: documented_def)
    then show ?thesis by (simp add: NewPrometheus_call_def r(1))
  qed
  ultimately show ?thesis by (simp add: obs)
qed

definition classic_only :: "registry \<Rightarrow> metric_opts \<Rightarrow> bool" where
  "classic_only reg c \<longleftrightarrow> classic_name (full_name c) \<and> any_name reg c"

theorem names_and_rules_witness:
  "NewPrometheus_call classic_only \<lparr>pg_registries = [], pg_collectors = [], pg_mc = None, pg_registry = None\<rparr> = None \<and>
   NewPrometheusObserver classic_only \<noteq> None"
proof -
  have "documented classic_name classic_only" by (simp add: documented_def classic_only_def any_name_def)
  from names_and_rules [OF this] show ?thesis by simp
qed

text \<open>
  C37: a report never makes a counter panic. For every sequence of recorded events with sizes and counts that
  are not negative, and reports in between, whose total stays within \<open>2 ^ 53\<close>, no call of the batch collector
  adds a negative value to a metric that is registered as a counter, the final \<open>Flush\<close> included. (The negative
  additions of \<open>ObserveAsyncGoroutine\<close> go to a gauge.)
\<close>

theorem reports_do_not_panic:
  assumes "\<forall>e \<in> set es. event_ok e" "sum_list (map event_size es) \<le> 2 ^ 53"
  shows "case handle_all es (NewBatchCollector NewPrometheus) of (cs, b) \<Rightarrow>
    \<forall>c \<in> set (cs @ fst (Flush b)). \<not> call_panics c"
proof -
  let ?b0 = "NewBatchCollector NewPrometheus"
  obtain cs b where r: "handle_all es ?b0 = (cs, b)" by fastforce
  have "recorded_ok 0 ?b0" by (auto simp: recorded_ok_def counted_def NewBatchCollector_def)
  from handle_all_no_panic [OF this assms(1)] assms(2) r
  have "recorded_ok (sum_list (map event_size es)) b" "\<forall>c \<in> set cs. \<not> call_panics c" by simp_all
  then show ?thesis using report_no_panic [of _ b] r by (auto simp: Flush_def)
qed

theorem reports_do_not_panic_witness:
  "case handle_all [EvWorker MetricsDecOp, EvReport, EvWrite 5 None, EvRead 1 5 None]
      (NewBatchCollector NewPrometheus) of (cs, b) \<Rightarrow> \<not> call_panics (hd (cs @ fst (Flush b)))"
proof -
  let ?es = "[EvWorker MetricsDecOp, EvReport, EvWrite 5 None, EvRead 1 5 None]"
  have "case handle_all ?es (NewBatchCollector NewPrometheus) of (cs, b) \<Rightarrow>
      \<forall>c \<in> set (cs @ fst (Flush b)). \<not> call_panics c"
    by (rule reports_do_not_panic) simp_all
  moreover have "fst (handle_all ?es (NewBatchCollector NewPrometheus)) \<noteq> []"
    by (simp add: report_def report_supporting_def Let_def observe_defs NewBatchCollector_def CollectSwitcher_def
        ObserveAsyncWorker_def MetricsIncOp_def MetricsDecOp_def)
  ultimately show ?thesis by (auto split: prod.splits)
qed

text \<open>
  What an update leaves in the gauges: the figures of the round for everything the round has; but the gauge of a
  partition that is not in the figures any more keeps its last value for ever, because nothing deletes it.
\<close>

theorem gauges_follow_figures:
  assumes "distinct (map (\<lambda>p. (pt_Device p, pt_MountPoint p)) (ds_Partitions (mt_Disk m)))"
  shows "let g' = after_sets (PrometheusObserver_Update m) g in
    g' cpuUsage = Some (cpu_Usage (mt_CPU m)) \<and> g' memUsage = Some (ms_UsedPercent (mt_Memory m)) \<and>
    (\<forall>p \<in> set (ds_Partitions (mt_Disk m)). g' (diskUsage (pt_Device p) (pt_MountPoint p)) = Some (pt_UsedPercent p)) \<and>
    (\<forall>dev mount. (\<forall>p \<in> set (ds_Partitions (mt_Disk m)). (pt_Device p, pt_MountPoint p) \<noteq> (dev, mount)) \<longrightarrow>
       g' (diskUsage dev mount) = g (diskUsage dev mount))"
proof -
  let ?cs = "PrometheusObserver_Update m" and ?ps = "ds_Partitions (mt_Disk m)"
  have "distinct (map (\<lambda>p. diskUsage (pt_Device p) (pt_MountPoint p)) ?ps)"
    using assms by (auto simp: distinct_map inj_on_def)
  then have d: "distinct (map fst ?cs)" by (auto simp: PrometheusObserver_Update_def comp_def)
  have "after_sets ?cs g (diskUsage dev mount) = g (diskUsage dev mount)"
    if "\<forall>p \<in> set ?ps. (pt_Device p, pt_MountPoint p) \<noteq> (dev, mount)" for dev mount
    using that by (intro after_sets_other) (auto simp: PrometheusObserver_Update_def)
  moreover have "after_sets ?cs g k = Some v" if "(k, v) \<in> set ?cs" for k v
    using after_sets_distinct [OF d that] .
  ultimately show ?thesis unfolding Let_def by (simp add: PrometheusObserver_Update_def)
qed

end
