(* ===== verification/Console_Observer.thy ===== *)
theory Console_Observer
  imports Sys_Monitor
begin

text \<open>
  The console observer of \<open>src/metrics/observer.go\<close>: a line with the most important figures and, if the
  encoding succeeds, the whole record as JSON, both logged at the info level. \<open>fmt.Sprintf\<close> is written out for
  the verbs in use, \<open>%d\<close> and \<open>%.1f\<close>; \<open>json.MarshalIndent\<close> is a parameter, of which only the documented
  condition matters here: it fails exactly when a figure is not a finite number.

  Shown: through either adapter the same lines are logged, none above the info level; a reader gets the integers
  of the summary back exactly and the percentages up to half a unit of the last digit.
\<close>

section \<open>Printing numbers\<close>

definition digit :: "nat \<Rightarrow> char" where
  "digit d = char_of (48 + d)"

fun show_nat :: "nat \<Rightarrow> string" where
  "show_nat n = (if n < 10 then [digit n] else show_nat (n div 10) @ [digit (n mod 10)])"

declare show_nat.simps [simp del]

text \<open>The verb \<open>%d\<close>.\<close>

definition show_int :: "int \<Rightarrow> string" where
  "show_int n = (if n < 0 then ''-'' else []) @ show_nat (nat \<bar>n\<bar>)"

text \<open>The verb \<open>%.1f\<close>: one decimal, rounded to nearest, ties to even.\<close>

fun show_1f :: "f64 \<Rightarrow> string" where
  "show_1f (Fin x) =
     (let t = nat (rne (\<bar>x\<bar> * 10))
      in (if x < 0 then ''-'' else []) @ show_nat (t div 10) @ ''.'' @ [digit (t mod 10)])"
| "show_1f PInf = ''+Inf''"
| "show_1f NInf = ''-Inf''"
| "show_1f NaN = ''NaN''"

section \<open>The observer\<close>

record 'l console_observer =
  co_l :: 'l

definition NewConsoleObserver :: "'l \<Rightarrow> 'l console_observer" where
  "NewConsoleObserver l = \<lparr>co_l = l\<rparr>"

definition summary :: "'c metrics \<Rightarrow> string" where
  "summary m =
     ''[Metrics] Timestamp: '' @ show_int (mt_Timestamp m) @
     '' | CPU: '' @ show_1f (cpu_Usage (mt_CPU m)) @
     ''% | Memory: '' @ show_1f (ms_UsedPercent (mt_Memory m)) @
     ''% | Goroutines: '' @ show_int (uint (rt_Goroutines (mt_Runtime m)))"

text \<open>\<open>info\<close> is the method \<open>Info\<close> of the logger, \<open>marshal\<close> the call of \<open>json.MarshalIndent\<close>.\<close>

definition ConsoleObserver_Update ::
    "(string \<Rightarrow> field list \<Rightarrow> 'l \<Rightarrow> 'k list) \<Rightarrow> ('c metrics \<Rightarrow> string option) \<Rightarrow> 'c metrics \<Rightarrow> 'l console_observer \<Rightarrow> 'k list" where
  "ConsoleObserver_Update info marshal m c =
     info (summary m) [] (co_l c) @
     (case marshal m of
        Some data \<Rightarrow> info ''Detailed metrics:'' [] (co_l c) @ info data [] (co_l c)
      | None \<Rightarrow> [])"

text \<open>The figures that the encoder of JSON refuses.\<close>

fun json_number :: "f64 \<Rightarrow> bool" where
  "json_number (Fin x) = True"
| "json_number _ = False"

definition json_disk_io :: "disk_io_stats \<Rightarrow> bool" where
  "json_disk_io s \<longleftrightarrow>
     list_all json_number
       [io_ReadCountPerSec s, io_WriteCountPerSec s, io_ReadBytesPerSec s, io_WriteBytesPerSec s, io_ReadTimePerSec s,
        io_WriteTimePerSec s, io_UtilizationPercent s]"

definition json_ok :: "'c metrics \<Rightarrow> bool" where
  "json_ok m \<longleftrightarrow>
     list_all json_number
       [cpu_Usage (mt_CPU m), cpu_User (mt_CPU m), cpu_System (mt_CPU m), cpu_Idle (mt_CPU m), cpu_Load1 (mt_CPU m),
        cpu_Load5 (mt_CPU m), cpu_Load15 (mt_CPU m), ms_UsedPercent (mt_Memory m)] \<and>
     list_all (\<lambda>p. json_number (pt_UsedPercent p)) (ds_Partitions (mt_Disk m)) \<and>
     json_disk_io (ds_TotalIO (mt_Disk m)) \<and> (\<forall>s \<in> ran (ds_PerDiskIO (mt_Disk m)). json_disk_io s)"

section \<open>Reading the numbers back\<close>

definition is_digit :: "char \<Rightarrow> bool" where
  "is_digit c \<longleftrightarrow> 48 \<le> (of_char c :: nat) \<and> (of_char c :: nat) \<le> 57"

fun read_digits :: "nat \<Rightarrow> string \<Rightarrow> nat \<times> string" where
  "read_digits a [] = (a, [])"
| "read_digits a (c # cs) =
     (if is_digit c then read_digits (10 * a + (of_char c - 48)) cs else (a, c # cs))"

definition read_sign :: "string \<Rightarrow> int \<times> string" where
  "read_sign s = (case s of c # cs \<Rightarrow> (if c = CHR ''-'' then (- 1, cs) else (1, s)) | [] \<Rightarrow> (1, s))"

definition read_int :: "string \<Rightarrow> int \<times> string" where
  "read_int s = (let (sg, s1) = read_sign s; (n, r) = read_digits 0 s1 in (sg * int n, r))"

definition read_1f :: "string \<Rightarrow> rat \<times> string" where
  "read_1f s =
     (let (sg, s1) = read_sign s; (a, s2) = read_digits 0 s1; (b, r) = read_digits 0 (tl s2)
      in (of_int sg * (of_nat a + of_nat b / 10), r))"

definition read_summary :: "string \<Rightarrow> int \<times> rat \<times> rat \<times> int" where
  "read_summary s =
     (let (t, s1) = read_int (drop (length ''[Metrics] Timestamp: '') s);
          (c, s2) = read_1f (drop (length '' | CPU: '') s1);
          (u, s3) = read_1f (drop (length ''% | Memory: '') s2);
          (g, s4) = read_int (drop (length ''% | Goroutines: '') s3)
      in (t, c, u, g))"

lemma of_char_digit [simp]: "d < 10 \<Longrightarrow> of_char (digit d) = 48 + d"
  by (simp add: digit_def)

lemma is_digit_digit [simp]: "d < 10 \<Longrightarrow> is_digit (digit d)"
  by (simp add: is_digit_def)

lemma not_digit [simp]: "\<not> is_digit (CHR ''-'')" "\<not> is_digit (CHR ''.'')" "\<not> is_digit (CHR '' '')" "\<not> is_digit (CHR ''%'')"
  by (simp_all add: is_digit_def)

lemma read_show_nat:
  "read_digits a (show_nat n @ r) = read_digits (a * 10 ^ length (show_nat n) + n) r"
proof (induction n arbitrary: a r rule: show_nat.induct)
  case (1 n)
  show ?case
  proof (cases "n < 10")
    case True
    then show ?thesis by (simp add: show_nat.simps [of n] mult.commute [of 10])
  next
    case False
    have "read_digits a (show_nat n @ r) =
        read_digits (10 * (a * 10 ^ length (show_nat (n div 10)) + n div 10) + n mod 10) r"
      using False 1 [OF False, of a "[digit (n mod 10)] @ r"] by (simp add: show_nat.simps [of n])
    moreover have "length (show_nat n) = Suc (length (show_nat (n div 10)))"
      using False by (simp add: show_nat.simps [of n])
    ultimately show ?thesis by (simp add: algebra_simps)
  qed
qed

definition stops :: "string \<Rightarrow> bool" where
  "stops r \<longleftrightarrow> r = [] \<or> \<not> is_digit (hd r)"

lemma stops_simps [simp]: "stops []" "stops (c # r) \<longleftrightarrow> \<not> is_digit c"
  by (simp_all add: stops_def)

lemma read_stops: "stops r \<Longrightarrow> read_digits a r = (a, r)"
  by (cases r) simp_all

lemma read_nat [simp]: "stops r \<Longrightarrow> read_digits 0 (show_nat n @ r) = (n, r)"
  by (simp add: read_show_nat read_stops)

lemma show_nat_hd: "\<exists>d cs. show_nat n = digit d # cs \<and> d < 10"
proof (induction n rule: show_nat.induct)
  case (1 n)
  then show ?case by (cases "n < 10") (force simp: show_nat.simps [of n])+
qed

lemma read_sign_show [simp]:
  "read_sign (CHR ''-'' # s) = (- 1, s)" "read_sign (show_nat n @ r) = (1, show_nat n @ r)"
proof -
  obtain d cs where d: "show_nat n = digit d # cs" "d < 10" using show_nat_hd by blast
  then have "digit d \<noteq> CHR ''-''" using is_digit_digit not_digit(1) by metis
  then show "read_sign (show_nat n @ r) = (1, show_nat n @ r)" by (simp add: read_sign_def d(1))
qed (simp add: read_sign_def)

lemma read_show_int [simp]: "stops r \<Longrightarrow> read_int (show_int n @ r) = (n, r)"
  by (auto simp: read_int_def show_int_def)

lemma tenths: "of_nat (t div 10) + of_nat (t mod 10) / 10 = (of_nat t / 10 :: rat)"
proof -
  have "of_nat t = (of_nat (10 * (t div 10) + t mod 10) :: rat)" by simp
  then show ?thesis by (simp only: of_nat_add of_nat_mult) simp
qed

lemma read_show_1f:
  assumes "stops r"
  shows "\<exists>v. read_1f (show_1f (Fin x) @ r) = (v, r) \<and> \<bar>v - x\<bar> \<le> 1 / 20"
proof -
  obtain t where t: "nat (rne (\<bar>x\<bar> * 10)) = t" by simp
  have "rne 0 \<le> rne (\<bar>x\<bar> * 10)" by (rule rne_mono) simp
  then have "rne (\<bar>x\<bar> * 10) = int t" using t rne_of_int [of 0] by simp
  then have err: "\<bar>of_nat t - \<bar>x\<bar> * 10\<bar> \<le> (1 / 2 :: rat)"
    using rne_error [of "\<bar>x\<bar> * 10"] by simp
  have last: "read_digits 0 (digit (t mod 10) # r) = (t mod 10, r)"
    using assms by (simp add: read_stops)
  have "show_1f (Fin x) = (if x < 0 then ''-'' else []) @ show_nat (t div 10) @ ''.'' @ [digit (t mod 10)]"
    by (simp only: show_1f.simps t Let_def)
  then have "read_1f (show_1f (Fin x) @ r) = (of_int (if x < 0 then - 1 else 1) * (of_nat t / 10), r)"
    using last by (cases "x < 0") (simp_all add: read_1f_def del: show_1f.simps flip: tenths [of t])
  moreover have "\<bar>of_int (if x < 0 then - 1 else 1) * (of_nat t / 10) - x\<bar> \<le> 1 / 20"
    using err by (cases "x < 0") (simp_all add: abs_if field_simps split: if_splits)
  ultimately show ?thesis by blast
qed

section \<open>Properties\<close>

lemma summary_read:
  assumes "cpu_Usage (mt_CPU m) = Fin c" "ms_UsedPercent (mt_Memory m) = Fin u"
  shows "\<exists>c' u'. read_summary (summary m) = (mt_Timestamp m, c', u', uint (rt_Goroutines (mt_Runtime m))) \<and>
    \<bar>c' - c\<bar> \<le> 1 / 20 \<and> \<bar>u' - u\<bar> \<le> 1 / 20"
proof -
  let ?g = "''% | Goroutines: '' @ show_int (uint (rt_Goroutines (mt_Runtime m)))"
  let ?m = "''% | Memory: '' @ show_1f (Fin u) @ ?g"
  obtain u' where u: "read_1f (show_1f (Fin u) @ ?g) = (u', ?g)" "\<bar>u' - u\<bar> \<le> 1 / 20"
    using read_show_1f [of ?g u] by auto
  obtain c' where c: "read_1f (show_1f (Fin c) @ ?m) = (c', ?m)" "\<bar>c' - c\<bar> \<le> 1 / 20"
    using read_show_1f [of ?m c] by auto
  have g: "read_int (show_int (uint (rt_Goroutines (mt_Runtime m)))) = (uint (rt_Goroutines (mt_Runtime m)), [])"
    using read_show_int [of "[]"] by simp
  have "read_summary (summary m) = (mt_Timestamp m, c', u', uint (rt_Goroutines (mt_Runtime m)))"
    unfolding read_summary_def summary_def assms using u(1) c(1) g by (simp del: show_1f.simps)
  with u(2) c(2) show ?thesis by blast
qed

text \<open>What reaches the two loggers; the messages of an observer have the info level.\<close>

lemma zap_Info_view: "map zap_view (zap_Info msg [] z) = (if za_level z \<le> LevelInfo then [(LevelInfo, msg)] else [])"
  unfolding zap_Info_def by (rule zap.log_view) (simp add: Level_valid_def)

lemma logrus_Info_view:
  "map logrus_view (logrus_Info msg [] l) = (if ra_level l \<le> LevelInfo then [(LevelInfo, msg)] else [])"
  unfolding logrus_Info_def by (rule logrus.log_view) (simp add: Level_valid_def)

definition console_lines :: "('c metrics \<Rightarrow> string option) \<Rightarrow> 'c metrics \<Rightarrow> string list" where
  "console_lines marshal m =
     summary m # (case marshal m of Some data \<Rightarrow> [''Detailed metrics:'', data] | None \<Rightarrow> [])"

text \<open>
  C35: the console observer. Through a zap and through a logrus adapter at the same level the observer logs the same
  lines: nothing above the info level, otherwise the summary, and the details exactly when no figure is infinite or
  not a number (the documented condition of \<open>json.MarshalIndent\<close>). The summary can be read back: the
  time stamp and the number of goroutines exactly, the two percentages up to 0.05.
\<close>

theorem console_output:
  assumes "\<And>m. marshal m = None \<longleftrightarrow> \<not> json_ok m"
    and "za_level z = level" "ra_level l = level" "cpu_Usage (mt_CPU m) = Fin c" "ms_UsedPercent (mt_Memory m) = Fin u"
  shows "map zap_view (ConsoleObserver_Update zap_Info marshal m (NewConsoleObserver z)) =
      (if level \<le> LevelInfo then map (Pair LevelInfo) (console_lines marshal m) else []) \<and>
    map logrus_view (ConsoleObserver_Update logrus_Info marshal m (NewConsoleObserver l)) =
      map zap_view (ConsoleObserver_Update zap_Info marshal m (NewConsoleObserver z)) \<and>
    length (console_lines marshal m) = (if json_ok m then 3 else 1) \<and>
    (\<exists>c' u'. read_summary (hd (console_lines marshal m)) = (mt_Timestamp m, c', u', uint (rt_Goroutines (mt_Runtime m))) \<and>
      \<bar>c' - c\<bar> \<le> 1 / 20 \<and> \<bar>u' - u\<bar> \<le> 1 / 20)"
proof -
  have "length (console_lines marshal m) = (if json_ok m then 3 else 1)"
    using assms(1) [of m] by (cases "marshal m") (simp_all add: console_lines_def)
  moreover have "hd (console_lines marshal m) = summary m" by (simp add: console_lines_def)
  moreover have "map zap_view (ConsoleObserver_Update zap_Info marshal m (NewConsoleObserver z)) =
      (if level \<le> LevelInfo then map (Pair LevelInfo) (console_lines marshal m) else [])"
    "map logrus_view (ConsoleObserver_Update logrus_Info marshal m (NewConsoleObserver l)) =
      (if level \<le> LevelInfo then map (Pair LevelInfo) (console_lines marshal m) else [])"
    using assms(2,3)
    by (cases "marshal m"; cases "level \<le> LevelInfo";
        simp add: ConsoleObserver_Update_def console_lines_def NewConsoleObserver_def zap_Info_view logrus_Info_view)+
  ultimately show ?thesis using summary_read [OF assms(4,5)] by simp
qed

definition demo_metrics :: "unit metrics" where
  "demo_metrics =
     (zero_metrics :: unit metrics)\<lparr>mt_Timestamp := 17, mt_CPU := (mt_CPU (zero_metrics :: unit metrics))\<lparr>cpu_Usage := Fin (25 / 2), cpu_Load1 := NaN\<rparr>,
       mt_Memory := (mt_Memory (zero_metrics :: unit metrics))\<lparr>ms_UsedPercent := Fin (1 / 16)\<rparr>\<rparr>"

lemma demo_summary:
  "summary demo_metrics = ''[Metrics] Timestamp: 17 | CPU: 12.5% | Memory: 0.1% | Goroutines: 0''"
  by code_simp

theorem console_output_witness:
  "map zap_view (ConsoleObserver_Update zap_Info (\<lambda>m. if json_ok m then Some ''{}'' else None) demo_metrics
       (NewConsoleObserver (NewZapAdapter LevelInfo))) =
     [(LevelInfo, ''[Metrics] Timestamp: 17 | CPU: 12.5% | Memory: 0.1% | Goroutines: 0'')]"
proof -
  let ?marshal = "\<lambda>m :: unit metrics. if json_ok m then Some ''{}'' else None"
  have "\<not> json_ok demo_metrics" by (simp add: json_ok_def demo_metrics_def)
  then have lines: "console_lines ?marshal demo_metrics = [summary demo_metrics]" by (simp add: console_lines_def)
  have "map zap_view (ConsoleObserver_Update zap_Info ?marshal demo_metrics (NewConsoleObserver (NewZapAdapter LevelInfo))) =
      (if LevelInfo \<le> LevelInfo then map (Pair LevelInfo) (console_lines ?marshal demo_metrics) else [])"
    by (rule console_output [where l = "NewLogrusAdapter LevelInfo" and c = "25 / 2" and u = "1 / 16", THEN conjunct1])
      (simp_all add: NewZapAdapter_def NewLogrusAdapter_def getLevel_def demo_metrics_def)
  then show ?thesis by (simp add: lines demo_summary)
qed

end
