(* ===== verification/Atomic_Types.thy ===== *)
theory Atomic_Types
  imports Atomicx
begin

text \<open>
  The five types of \<open>src/utils/atomicx/atomic_generated.go\<close>. The file is written by a generator
  (\<open>src/utils/atomicx/gen/gen.go\<close>) from a table and a template, so the text of the methods is the same for all
  types except for \<open>Dec\<close>, which the column \<open>IsSigned\<close> selects. \<open>Atomicx\<close> has the methods once, for words of any length, and
  its lines are those of \<open>Int32\<close>; here they are taken at the other types, with an \<open>uintptr\<close> of 64 bits as on
  the supported platforms. Shown: every type is a register in the sense of \<open>Atomicx\<close>, and its arithmetic is
  that of the Go type, with the wrap-around \<open>wrap32\<close>, \<open>wrap64\<close> or modulo \<open>2 ^ w\<close> that the other theories use.
\<close>

section \<open>The table of the generator\<close>

record type_def =
  td_Name :: string
  td_Base :: string
  td_AtomicSuffix :: string
  td_IsSigned :: bool

definition gen_types :: "type_def list" where
  "gen_types =
     [\<lparr>td_Name = ''Int32'', td_Base = ''int32'', td_AtomicSuffix = ''Int32'', td_IsSigned = True\<rparr>,
      \<lparr>td_Name = ''Int64'', td_Base = ''int64'', td_AtomicSuffix = ''Int64'', td_IsSigned = True\<rparr>,
      \<lparr>td_Name = ''Uint32'', td_Base = ''uint32'', td_AtomicSuffix = ''Uint32'', td_IsSigned = False\<rparr>,
      \<lparr>td_Name = ''Uint64'', td_Base = ''uint64'', td_AtomicSuffix = ''Uint64'', td_IsSigned = False\<rparr>,
      \<lparr>td_Name = ''Uintptr'', td_Base = ''uintptr'', td_AtomicSuffix = ''Uintptr'', td_IsSigned = False\<rparr>]"

text \<open>The \<open>if\<close> of the template in the body of \<open>Dec\<close>.\<close>

definition template_Dec :: "type_def \<Rightarrow> 'w::len word atomic_int \<Rightarrow> 'w word \<times> 'w word atomic_int" where
  "template_Dec t = (if td_IsSigned t then Int_Dec_signed else Int_Dec_unsigned)"

section \<open>Int64\<close>

type_synonym int64_cell = "64 word atomic_int"

definition NewInt64 :: "64 word \<Rightarrow> int64_cell" where
  "NewInt64 = NewInt"

definition Int64_Add :: "64 word \<Rightarrow> int64_cell \<Rightarrow> 64 word \<times> int64_cell" where
  "Int64_Add = Int_Add"

definition Int64_Store :: "64 word \<Rightarrow> int64_cell \<Rightarrow> int64_cell" where
  "Int64_Store = Int_Store"

definition Int64_Load :: "int64_cell \<Rightarrow> 64 word" where
  "Int64_Load = Int_Load"

definition Int64_Swap :: "64 word \<Rightarrow> int64_cell \<Rightarrow> 64 word \<times> int64_cell" where
  "Int64_Swap = Int_Swap"

definition Int64_CompareAndSwap :: "64 word \<Rightarrow> 64 word \<Rightarrow> int64_cell \<Rightarrow> bool \<times> int64_cell" where
  "Int64_CompareAndSwap = Int_CompareAndSwap"

definition Int64_Inc :: "int64_cell \<Rightarrow> 64 word \<times> int64_cell" where
  "Int64_Inc a = Int64_Add 1 a"

definition Int64_Dec :: "int64_cell \<Rightarrow> 64 word \<times> int64_cell" where
  "Int64_Dec a = Int64_Add (- 1) a"

lemmas int64_defs =
  NewInt64_def Int64_Add_def Int64_Store_def Int64_Load_def Int64_Swap_def Int64_CompareAndSwap_def Int64_Inc_def Int64_Dec_def

interpretation int64_register: atomic_register "\<lambda>_. True" Int64_Load Int64_Store Int64_Swap Int64_CompareAndSwap
  unfolding int64_defs by (rule int_cell.atomic_register_axioms)

section \<open>Uint32\<close>

type_synonym uint32_cell = "32 word atomic_int"

definition NewUint32 :: "32 word \<Rightarrow> uint32_cell" where
  "NewUint32 = NewInt"

definition Uint32_Add :: "32 word \<Rightarrow> uint32_cell \<Rightarrow> 32 word \<times> uint32_cell" where
  "Uint32_Add = Int_Add"

definition Uint32_Store :: "32 word \<Rightarrow> uint32_cell \<Rightarrow> uint32_cell" where
  "Uint32_Store = Int_Store"

definition Uint32_Load :: "uint32_cell \<Rightarrow> 32 word" where
  "Uint32_Load = Int_Load"

definition Uint32_Swap :: "32 word \<Rightarrow> uint32_cell \<Rightarrow> 32 word \<times> uint32_cell" where
  "Uint32_Swap = Int_Swap"

definition Uint32_CompareAndSwap :: "32 word \<Rightarrow> 32 word \<Rightarrow> uint32_cell \<Rightarrow> bool \<times> uint32_cell" where
  "Uint32_CompareAndSwap = Int_CompareAndSwap"

definition Uint32_Inc :: "uint32_cell \<Rightarrow> 32 word \<times> uint32_cell" where
  "Uint32_Inc a = Uint32_Add 1 a"

definition Uint32_Dec :: "uint32_cell \<Rightarrow> 32 word \<times> uint32_cell" where
  "Uint32_Dec a = Uint32_Add (NOT 0) a"

lemmas uint32_defs =
  NewUint32_def Uint32_Add_def Uint32_Store_def Uint32_Load_def Uint32_Swap_def Uint32_CompareAndSwap_def Uint32_Inc_def Uint32_Dec_def

interpretation uint32_register: atomic_register "\<lambda>_. True" Uint32_Load Uint32_Store Uint32_Swap Uint32_CompareAndSwap
  unfolding uint32_defs by (rule int_cell.atomic_register_axioms)

section \<open>Uint64\<close>

type_synonym uint64_cell = "64 word atomic_int"

definition NewUint64 :: "64 word \<Rightarrow> uint64_cell" where
  "NewUint64 = NewInt"

definition Uint64_Add :: "64 word \<Rightarrow> uint64_cell \<Rightarrow> 64 word \<times> uint64_cell" where
  "Uint64_Add = Int_Add"

definition Uint64_Store :: "64 word \<Rightarrow> uint64_cell \<Rightarrow> uint64_cell" where
  "Uint64_Store = Int_Store"

definition Uint64_Load :: "uint64_cell \<Rightarrow> 64 word" where
  "Uint64_Load = Int_Load"

definition Uint64_Swap :: "64 word \<Rightarrow> uint64_cell \<Rightarrow> 64 word \<times> uint64_cell" where
  "Uint64_Swap = Int_Swap"

definition Uint64_CompareAndSwap :: "64 word \<Rightarrow> 64 word \<Rightarrow> uint64_cell \<Rightarrow> bool \<times> uint64_cell" where
  "Uint64_CompareAndSwap = Int_CompareAndSwap"

definition Uint64_Inc :: "uint64_cell \<Rightarrow> 64 word \<times> uint64_cell" where
  "Uint64_Inc a = Uint64_Add 1 a"

definition Uint64_Dec :: "uint64_cell \<Rightarrow> 64 word \<times> uint64_cell" where
  "Uint64_Dec a = Uint64_Add (NOT 0) a"

lemmas uint64_defs =
  NewUint64_def Uint64_Add_def Uint64_Store_def Uint64_Load_def Uint64_Swap_def Uint64_CompareAndSwap_def Uint64_Inc_def Uint64_Dec_def

interpretation uint64_register: atomic_register "\<lambda>_. True" Uint64_Load Uint64_Store Uint64_Swap Uint64_CompareAndSwap
  unfolding uint64_defs by (rule int_cell.atomic_register_axioms)

section \<open>Uintptr\<close>

type_synonym uintptr_cell = "64 word atomic_int"

definition NewUintptr :: "64 word \<Rightarrow> uintptr_cell" where
  "NewUintptr = NewInt"

definition Uintptr_Add :: "64 word \<Rightarrow> uintptr_cell \<Rightarrow> 64 word \<times> uintptr_cell" where
  "Uintptr_Add = Int_Add"

definition Uintptr_Store :: "64 word \<Rightarrow> uintptr_cell \<Rightarrow> uintptr_cell" where
  "Uintptr_Store = Int_Store"

definition Uintptr_Load :: "uintptr_cell \<Rightarrow> 64 word" where
  "Uintptr_Load = Int_Load"

definition Uintptr_Swap :: "64 word \<Rightarrow> uintptr_cell \<Rightarrow> 64 word \<times> uintptr_cell" where
  "Uintptr_Swap = Int_Swap"

definition Uintptr_CompareAndSwap :: "64 word \<Rightarrow> 64 word \<Rightarrow> uintptr_cell \<Rightarrow> bool \<times> uintptr_cell" where
  "Uintptr_CompareAndSwap = Int_CompareAndSwap"

definition Uintptr_Inc :: "uintptr_cell \<Rightarrow> 64 word \<times> uintptr_cell" where
  "Uintptr_Inc a = Uintptr_Add 1 a"

definition Uintptr_Dec :: "uintptr_cell \<Rightarrow> 64 word \<times> uintptr_cell" where
  "Uintptr_Dec a = Uintptr_Add (NOT 0) a"

lemmas uintptr_defs =
  NewUintptr_def Uintptr_Add_def Uintptr_Store_def Uintptr_Load_def Uintptr_Swap_def Uintptr_CompareAndSwap_def Uintptr_Inc_def Uintptr_Dec_def

interpretation uintptr_register: atomic_register "\<lambda>_. True" Uintptr_Load Uintptr_Store Uintptr_Swap Uintptr_CompareAndSwap
  unfolding uintptr_defs by (rule int_cell.atomic_register_axioms)

section \<open>Arithmetic\<close>

text \<open>Reading a signed word after an addition is the conversion that Go makes.\<close>

lemma sint_add32 [go_arith]: "sint (a + b :: 32 word) = wrap32 (sint a + sint b)"
proof -
  have "a + b = of_int (sint a + sint b)" by simp
  then show ?thesis
    by (simp only: signed_of_int) (simp add: signed_take_bit_eq_take_bit_shift take_bit_eq_mod wrap32_def)
qed

lemma sint_add64 [go_arith]: "sint (a + b :: 64 word) = wrap64 (sint a + sint b)"
proof -
  have "a + b = of_int (sint a + sint b)" by simp
  then show ?thesis
    by (simp only: signed_of_int) (simp add: signed_take_bit_eq_take_bit_shift take_bit_eq_mod wrap64_def)
qed

lemma uint_add_mod [go_arith]: "uint (a + b :: 'w::len word) = (uint a + uint b) mod 2 ^ LENGTH('w)"
  by (simp add: uint_word_ariths)

lemma uint_minus_one: "uint (a - 1 :: 'w::len word) = (uint a - 1) mod 2 ^ LENGTH('w)"
  by (simp add: uint_word_ariths)

lemma dec_template:
  "td_IsSigned t \<Longrightarrow> template_Dec t a = Int_Add (- 1) a"
  "\<not> td_IsSigned t \<Longrightarrow> template_Dec t a = Int_Add (NOT 0) a"
  by (simp_all add: template_Dec_def Int_Dec_signed_def Int_Dec_unsigned_def)

text \<open>The files agree: \<open>Dec\<close> of each generated type is what the template makes of its row of the table.\<close>

lemma generated_Dec:
  "Int64_Dec = template_Dec (gen_types ! 1)" "Uint32_Dec = template_Dec (gen_types ! 2)"
  "Uint64_Dec = template_Dec (gen_types ! 3)" "Uintptr_Dec = template_Dec (gen_types ! 4)"
  by (rule ext; simp add: gen_types_def template_Dec_def Int_Dec_signed_def Int_Dec_unsigned_def
      Int64_Dec_def Uint32_Dec_def Uint64_Dec_def Uintptr_Dec_def Int64_Add_def Uint32_Add_def Uint64_Add_def Uintptr_Add_def)+

section \<open>Properties\<close>

text \<open>
  The counters have the arithmetic of their Go types. The result of \<open>Add\<close>, \<open>Inc\<close> and \<open>Dec\<close> is the value the cell
  holds afterwards; it is the sum, read with two's complement wrap-around for the signed types and modulo
  \<open>2 ^ 32\<close> or \<open>2 ^ 64\<close> for the others, where \<open>Dec\<close> of zero is the greatest value.
\<close>

theorem counters_wrap:
  "sint (fst (Int_Add d32 a32)) = wrap32 (sint (Int_Load a32) + sint d32) \<and>
   sint (fst (Int_Inc a32)) = wrap32 (sint (Int_Load a32) + 1) \<and>
   sint (fst (Int_Dec_signed a32)) = wrap32 (sint (Int_Load a32) - 1) \<and>
   sint (fst (Int64_Add d64 a64)) = wrap64 (sint (Int64_Load a64) + sint d64) \<and>
   sint (fst (Int64_Inc a64)) = wrap64 (sint (Int64_Load a64) + 1) \<and>
   sint (fst (Int64_Dec a64)) = wrap64 (sint (Int64_Load a64) - 1) \<and>
   uint (fst (Uint32_Inc a32)) = (uint (Uint32_Load a32) + 1) mod 2 ^ 32 \<and>
   uint (fst (Uint32_Dec a32)) = (uint (Uint32_Load a32) - 1) mod 2 ^ 32 \<and>
   uint (fst (Uint64_Inc a64)) = (uint (Uint64_Load a64) + 1) mod 2 ^ 64 \<and>
   uint (fst (Uint64_Dec a64)) = (uint (Uint64_Load a64) - 1) mod 2 ^ 64 \<and>
   uint (fst (Uintptr_Inc a64)) = (uint (Uintptr_Load a64) + 1) mod 2 ^ 64 \<and>
   uint (fst (Uintptr_Dec a64)) = (uint (Uintptr_Load a64) - 1) mod 2 ^ 64 \<and>
   Int_Load (snd (Int_Add d32 a32)) = fst (Int_Add d32 a32) \<and>
   Int64_Load (snd (Int64_Add d64 a64)) = fst (Int64_Add d64 a64)"
  using sint_add32 [of "ai_value a32" 1] sint_add32 [of "ai_value a32" "- 1"]
    sint_add64 [of "ai_value a64" 1] sint_add64 [of "ai_value a64" "- 1"]
  by (simp_all add: int64_defs uint32_defs uint64_defs uintptr_defs Int_Load_def Int_Add_def Int_Inc_def Int_Dec_signed_def
      Let_def sint_add32 sint_add64 uint_add_mod uint_minus_one)

end
