(* ===== verification/Spec2Isabelle.thy ===== *)
theory Spec2Isabelle
  imports Buffer_Bytes Buffer_Wakeup Many_Readers Write_Outcomes Fine_Race Queue_Race Batch_Race Collector_Spec
    Buffer_Types Prom_Registry Console_Observer Atomic_Types
begin

text \<open>
  A verification development for TurboStream, a Go library that passes messages from concurrent writers to
  a consumer through a pair of ring buffers that are switched when full.

  \<^bold>\<open>The program.\<close> A \<open>DoubleBuffer\<close> (\<open>src/core/double_buffer.go\<close>) owns an active and a passive ring
  (\<open>src/core/component/smart_buffer.go\<close>). \<open>Write\<close> copies small data into a pooled slice or registers the pointer of
  larger data (\<open>src/pools/life_cycle.go\<close>) and puts the item into the active ring. A full ring, or a background
  loop that asks a strategy (\<open>src/core/switch_strategy.go\<close>, configured through \<open>src/config/config.go\<close>), causes a
  switch: the passive ring becomes active, a ring from a pool becomes passive, and a goroutine gives the full
  ring a sequence number, pushes it into a heap (\<open>src/core/min_heap.go\<close>) and starts another goroutine that wakes
  blocked readers (\<open>src/core/waiters.go\<close>). The reader takes rings from the heap strictly by sequence number and
  hands out data chunks (\<open>src/core/chunk.go\<close>), whose release returns memory to the pools. Beside it stand a queue
  of buffers with eviction (\<open>src/core/queue.go\<close>), batched metrics (\<open>src/core/metrics\<close>), a system monitor
  (\<open>src/metrics\<close>), logging adapters (\<open>src/utils/log\<close>) and atomic cells (\<open>src/utils/atomicx\<close>).

  \<^bold>\<open>Conventions.\<close> Go's \<open>int32\<close> and \<open>int64\<close> are \<^typ>\<open>int\<close> with \<^const>\<open>wrap32\<close> and \<^const>\<open>wrap64\<close> where a result is
  stored, \<open>uint32\<close> and \<open>uint64\<close> are words; \<open>float64\<close> is binary64 with rounding (\<open>Float64\<close>). A function that may
  panic returns a sum with the panic on the left; an error is a value. The choice of a \<open>sync.Pool\<close>, the order
  in which a map is iterated, the clock, and every scheduling decision are arguments, so theorems hold for all of
  them. Slices are references into an explicit memory (\<open>Go_Memory\<close>), because copies and aliases matter here.

  \<^bold>\<open>Theories.\<close>
  \<^item> \<open>TS_Prelude\<close>, \<open>TS_Consts\<close>: integers, panics, shared lemmas; \<open>const.go\<close> and \<open>errorx.go\<close>.
  \<^item> \<open>Fifo_Spec\<close>, \<open>Prio_Spec\<close>, \<open>Exec_Spec\<close>: the contracts, as locales: a FIFO queue, a priority queue, and labelled
    transition systems with an invariant, with a rank, or with an invariant under a clock limit. Every locale is
    interpreted on the model: the ring and the linked queue as queues, the heap as a priority queue, the double
    buffer, the shared queue, the batch collector and the racing
    writers and readers as transition systems; likewise the register of
    \<open>Atomicx\<close>, the adapter of \<open>Logging\<close> and the collector of \<open>Collector_Spec\<close>.
  \<^item> \<open>Smart_Buffer\<close>: every method of the ring. It refines a bounded FIFO queue as long as fewer than \<open>2 ^ 31\<close> items
    pass through it. \<open>Push_Race\<close>: \<open>Push\<close> instruction by instruction for any number of writers: with room for all
    of them nothing is lost, and all end within \<open>n * (5 * n + 7)\<close> steps; without, the ring is overfilled by less
    than the number of writers. \<open>Ring_Race\<close>: \<open>Push\<close> and \<open>Pop\<close> at the same time. For one writer and one reader the ring
    is a FIFO queue in every interleaving; with two writers the reader can pass an item that is still to be stored.
  \<^item> \<open>Min_Heap\<close>: \<open>container/heap\<close> on the pending buffers; picking sorts by sequence number.
  \<^item> \<open>Waiters\<close>: registration and notification; who is woken, and that channels are never shared.
  \<^item> \<open>Switch_Config\<close>, \<open>Switch_Strategy\<close>: the configuration and its notification flag; the three strategies, with the
    rounding error of the default one bounded by \<open>2 ^ -49\<close>.
  \<^item> \<open>Life_Cycle\<close>: the memory pools; a cleaning pass removes at most 201 entries and never one in use.
  \<^item> \<open>Double_Buffer\<close>: every method of the double buffer and of a chunk as a function on the whole state, which has the
    goroutines that a switch has started and the notifications under way. \<open>Buffer_Invariant\<close>: the invariant and
    what each operation does to it; \<open>Buffer_Laws\<close>: the behaviour of \<open>Write\<close>, \<open>tryRead\<close>, picking and \<open>Close\<close> on every branch.
  \<^item> \<open>Buffer_System\<close>: the interleavings of writers, the background loops, the switch goroutines, notifications, one
    consumer and \<open>Close\<close> as a state machine. No step panics; nothing is lost or duplicated; with goroutines numbered in
    start order the whole is a FIFO queue. \<open>Buffer_Bytes\<close> adds the contents of memory: small messages
    arrive byte for byte although callers overwrite their slices and chunks are recycled. \<open>Buffer_Wakeup\<close>: a push
    between the last failed attempt of \<open>BlockingRead\<close> and its registration, or the switch of an empty ring (whose
    goroutine notifies nobody), leaves the consumer asleep, and nothing else does: in all other runs a blocked
    consumer whose ring is in the heap is served.
  \<^item> \<open>Buffer_Types\<close>: in all these interleavings every field keeps to its Go type and the rings, the heap and the waiters
    to their shapes.
  \<^item> \<open>Many_Readers\<close>: several consumers. If they take turns in \<open>tryRead\<close>, all guarantees stay, however many are
    blocked; two overlapping calls can lose a ring or dereference nil, because \<open>currentBuffer\<close> has no lock.
  \<^item> \<open>Write_Race\<close>, \<open>Write_Outcomes\<close>: \<open>Write\<close>, \<open>switchChannel\<close>, \<open>swapMonitor\<close> and \<open>Close\<close> one access to shared memory
    at a time, for any number of goroutines. Switches and slow paths exclude each other, nothing panics, every
    accepted item is in exactly one ring, and all calls return. Four schedules show what the code does not prevent:
    a write accepted after \<open>Close\<close>, a spurious error, a drifting count, an item in a ring already recycled.
    \<open>Fine_Race\<close>: the same goroutines with \<open>Push\<close> and \<open>Pop\<close> taken apart into instructions. Exclusion and the absence of
    panics stay, a ring is overfilled by less than the number of writers, and an accepted item can be lost.
  \<^item> \<open>Buffer_Queue\<close>: the queue with eviction, for any policy that only removes items. \<open>Queue_Race\<close>: its methods with
    concurrent goroutines, check and critical section apart: order is kept, all calls return, the channel is closed once;
    a push that overlaps \<open>Close\<close> is lost, and an eviction that overlaps \<open>Reset\<close> works on the abandoned list.
  \<^item> \<open>Batch_Metrics\<close>: batching neither loses nor repeats a measurement. \<open>Collector_Spec\<close>: the collector interfaces; the
    same for every implementation that keeps the contract, and that Prometheus keeps it. \<open>Batch_Race\<close>: its methods instruction by
    instruction; beside recording goroutines a report loses exactly what falls between a load and the store of the
    zero, and two reports at once repeat a measurement. \<open>Prom_Registry\<close>: the registration of the metrics
    and the two package variables: what a handler serves, and for which rules of naming registration panics.
  \<^item> \<open>Atomicx\<close>, \<open>Atomic_Types\<close>, \<open>Logging\<close>: atomic cells and shared counters, once for words and then for each type; both logging adapters refine one specification.
  \<^item> \<open>Sys_Collectors\<close>, \<open>Sys_Monitor\<close>: the five collectors over given samples, and the monitor with its rounds,
    observers, starts, stops and timeouts. \<open>Console_Observer\<close>: the lines the console observer logs, with
    the numbers as \<open>fmt\<close> prints them, and that they can be read back.

  \<^bold>\<open>Bounds.\<close> Slices are shorter than \<open>2 ^ 31\<close> bytes, because \<open>Write\<close> converts lengths to \<open>int32\<close> (what happens beyond is
  a theorem of \<open>Buffer_Laws\<close>); a run has fewer than \<open>2 ^ 63\<close> steps, because sequence numbers and waiter identifiers
  are \<open>int64\<close>; integers up to \<open>2 ^ 53\<close> are exact in \<open>float64\<close>. Loops are total functions: the picking loop has the three
  rounds of the source, draining is bounded by the length of the heap, \<open>notify\<close> by the number of waiters, and six
  steps suffice for an undisturbed \<open>Push\<close>.

  \<^bold>\<open>Not modelled.\<close> The sequence numbers, the heap and the wakeups at the granularity of single accesses:
  \<open>Write_Race\<close> and \<open>Fine_Race\<close> hand full rings to the consumer in any order (\<open>Buffer_System\<close> has that part in
  steps of calls), and \<open>Fine_Race\<close> takes \<open>Reset\<close> of a ring as one step. The text of JSON and of the HTTP responses, calls into libraries;
  the expansion of the template by the generator of the atomic wrappers; the eviction policy, the worker pool, the samplers of \<open>gopsutil\<close> and the loggers,
  which are outside of the repository and are parameters or traces; generated mocks and files without code.
\<close>

end
